(* ===== verification/Prelude.thy ===== *)
theory Prelude
  imports Main "HOL-Library.Word"
begin

text \<open>
  Shared ground of the development: the machine integer types of the runtime, the faults a C++
  operation can end in, the result type of operations that may fault, and the generic facts on
  lists, linked memory and words that the component theories use.  The collection
  \<open>mola_defs\<close> gathers the definitions a component's proofs unfold together, and
  \<open>chain_simps\<close> the rewriting rules for linked lists in memory.
\<close>

unbundle bit_operations_syntax

named_theorems mola_defs "definitions of operations, unfolded together"
named_theorems chain_simps "rewriting rules for linked lists in memory"

section \<open>Machine types and faults\<close>

type_synonym u8 = "8 word"
type_synonym u16 = "16 word"
type_synonym u32 = "32 word"
type_synonym u64 = "64 word"

text \<open>
  An address of a heap object; the null pointer is \<open>None\<close> of \<open>addr option\<close>.
\<close>

type_synonym addr = nat

text \<open>
  What an operation can end in besides returning: \<open>Assert_failed\<close> is a failed
  \<open>MOLA_ASSERT\<close> or \<open>assert\<close> (the process aborts), \<open>Wild_deref\<close> the dereference of a
  null or non-heap pointer, \<open>Use_after_free\<close> an access to a deleted object,
  \<open>Out_of_range\<close> an access outside an array, \<open>Uncaught\<close> an exception nobody catches,
  \<open>Diverges\<close> a loop that does not end.
\<close>

datatype fault = Assert_failed | Wild_deref | Use_after_free | Out_of_range | Uncaught | Diverges

type_synonym 'a res = "fault + 'a"

definition bind_res :: "'a res \<Rightarrow> ('a \<Rightarrow> 'b res) \<Rightarrow> 'b res" where
  "bind_res r f = (case r of Inl e \<Rightarrow> Inl e | Inr x \<Rightarrow> f x)"

lemma bind_res_simps [simp]:
  "bind_res (Inl e) f = Inl e"
  "bind_res (Inr x) f = f x"
  by (simp_all add: bind_res_def)

lemma bind_res_Inr_iff:
  "bind_res r f = Inr y \<longleftrightarrow> (\<exists>x. r = Inr x \<and> f x = Inr y)"
  by (cases r) auto

section \<open>Linked lists in memory\<close>

text \<open>
  \<open>lseg nx p as q\<close>: following the \<open>next\<close> fields \<open>nx\<close> from the pointer \<open>p\<close> visits
  exactly the nodes \<open>as\<close> and arrives at the pointer \<open>q\<close>.  A null-terminated list is a
  segment that arrives at \<open>None\<close>.
\<close>

primrec lseg :: "(addr \<Rightarrow> addr option) \<Rightarrow> addr option \<Rightarrow> addr list \<Rightarrow> addr option \<Rightarrow> bool" where
  "lseg nx p [] q \<longleftrightarrow> p = q"
| "lseg nx p (a # as) q \<longleftrightarrow> p = Some a \<and> lseg nx (nx a) as q"

abbreviation chain :: "(addr \<Rightarrow> addr option) \<Rightarrow> addr option \<Rightarrow> addr list \<Rightarrow> bool" where
  "chain nx p as \<equiv> lseg nx p as None"

lemma lseg_append [chain_simps]:
  "lseg nx p (as @ bs) q \<longleftrightarrow> (\<exists>r. lseg nx p as r \<and> lseg nx r bs q)"
  by (induction as arbitrary: p) auto

lemma lseg_upd [chain_simps]:
  "a \<notin> set as \<Longrightarrow> lseg (nx(a := v)) p as q = lseg nx p as q"
  by (induction as arbitrary: p) auto

lemma chain_None [chain_simps]: "chain nx None as \<longleftrightarrow> as = []"
  by (cases as) auto

lemma chain_Some [chain_simps]:
  "chain nx (Some a) as \<longleftrightarrow> (\<exists>bs. as = a # bs \<and> chain nx (nx a) bs)"
  by (cases as) auto

lemma chain_unique: "chain nx p as \<Longrightarrow> chain nx p bs \<Longrightarrow> as = bs"
proof (induction as arbitrary: p bs)
  case Nil
  then show ?case by (simp add: chain_None)
next
  case (Cons a as)
  then obtain cs where "bs = a # cs" "chain nx (nx a) cs"
    by (auto simp: chain_Some)
  with Cons show ?case by auto
qed

lemma chain_snoc:
  assumes "lseg nx p as (Some a)" and "a \<notin> set as"
  shows "chain (nx(a := None)) p (as @ [a])"
  using assms by (simp add: chain_simps)

lemma chain_extend:
  assumes "chain nx p (as @ [t])" and "distinct (as @ [t])" and "b \<notin> set (as @ [t])"
  shows "chain (nx(b := None, t := Some b)) p ((as @ [t]) @ [b])"
  using assms by (auto simp: lseg_append lseg_upd)

section \<open>Lists\<close>

lemma take_Suc_drop_nth:
  "i < length xs \<Longrightarrow> drop i xs = xs ! i # drop (Suc i) xs"
  by (rule Cons_nth_drop_Suc [symmetric])

lemma nth_unique_index:
  "distinct xs \<Longrightarrow> i < length xs \<Longrightarrow> j < length xs \<Longrightarrow> xs ! i = xs ! j \<Longrightarrow> i = j"
  by (simp add: nth_eq_iff_index_eq)

lemma concat_update_length:
  "i < length xss \<Longrightarrow>
   length (concat (xss[i := ys])) + length (xss ! i) = length (concat xss) + length ys"
proof (induction xss arbitrary: i)
  case Nil
  then show ?case by simp
next
  case (Cons xs xss)
  then show ?case by (cases i) auto
qed

lemma concat_update_split:
  assumes "p < length xss"
  shows "concat (xss[p := ys]) = concat (take p xss) @ ys @ concat (drop (Suc p) xss)"
  using assms by (simp add: upd_conv_take_nth_drop)

lemma concat_nth_split:
  assumes "p < length xss"
  shows "concat xss = concat (take p xss) @ xss ! p @ concat (drop (Suc p) xss)"
  using concat_update_split [OF assms, of "xss ! p"] by simp

lemma notin_concat_nth: "a \<notin> set (concat xss) \<Longrightarrow> p < length xss \<Longrightarrow> a \<notin> set (xss ! p)"
  by auto

lemma concat_all_Nil: "(\<forall>p<length xss. xss ! p = []) \<Longrightarrow> concat xss = []"
  by (simp add: all_set_conv_all_nth)

section \<open>Words\<close>

lemma unat_inc: "unat (x :: 'a::len word) + 1 < 2 ^ LENGTH('a) \<Longrightarrow> unat (x + 1) = unat x + 1"
  by (simp add: unat_word_ariths)

lemma unat_dec: "0 < unat (x :: 'a::len word) \<Longrightarrow> unat (x - 1) = unat x - 1"
  by (metis less_numeral_extra(3) unat_0 unat_minus_one)

lemma unat_lt_u32: "unat (x :: u32) < 2 ^ 32"
  using unsigned_less [of x, where 'a = nat] by simp

lemma unat_lt_u64: "unat (x :: u64) < 2 ^ 64"
  using unsigned_less [of x, where 'a = nat] by simp

lemma unat_ucast_mod: "unat (ucast (x :: 'a::len word) :: 'b::len word) = unat x mod 2 ^ LENGTH('b)"
  by (simp add: unsigned_ucast_eq take_bit_eq_mod)

lemma unat_ucast_up:
  assumes "LENGTH('a) \<le> LENGTH('b)"
  shows "unat (ucast (x :: 'a::len word) :: 'b::len word) = unat x"
proof -
  have "unat x < 2 ^ LENGTH('a)" by (rule unsigned_less)
  also have "\<dots> \<le> (2 :: nat) ^ LENGTH('b)" using assms by (intro power_increasing) simp_all
  finally show ?thesis by (simp add: unat_ucast_mod)
qed

end
