(* ===== verification/Mailbox.thy ===== *)
theory Mailbox
  imports Prelude "HOL-Library.Multiset"
begin

text \<open>
  The mailbox of actors and of stream handlers, \<open>include/mola/mailbox.hpp\<close>: a lock-free stack
  shared with any number of senders, and private queues, one per priority, that only the owner
  touches.  The shared word \<open>m_stack\<close> is a tagged pointer: three small integers stand for
  \<^emph>\<open>empty\<close>, \<^emph>\<open>blocked\<close> and \<^emph>\<open>closed\<close>.  The theory has the operations on an explicit store of
  \<open>next\<close> fields, the representation relation \<open>mbox_rep\<close> that reads a mailbox as a list of
  shared nodes and one list per priority, and the interleaving of senders and owner at the
  granularity of single loads and compare-and-swaps.
\<close>

section \<open>Data\<close>

datatype enqueue_status = MAILBOX_SUCCESS | MAILBOX_UNBLOCKED | MAILBOX_FAILURE

datatype slot = Dummy_empty | Dummy_blocked | Dummy_closed | Item addr

fun is_dummy :: "slot \<Rightarrow> bool" where
  "is_dummy (Item a) = False"
| "is_dummy _ = True"

fun slot_ptr :: "slot \<Rightarrow> addr option" where
  "slot_ptr (Item a) = Some a"
| "slot_ptr _ = None"

text \<open>
  The fields of the class, and the store it works on: \<open>nexts\<close> holds the \<open>next\<close> field of the
  link nodes, \<open>vals\<close> their value.  The array \<open>m_headers\<close> has one entry per priority.
\<close>

record 'm mailbox =
  m_stack :: slot
  m_headers :: "addr option list"
  m_num_inque :: u32
  m_lastp :: nat
  nexts :: "addr \<Rightarrow> addr option"
  vals :: "addr \<Rightarrow> 'm"

section \<open>Operations\<close>

text \<open>The constructor; \<open>m_lastp\<close> is left uninitialised there, so its value is an argument.\<close>

definition Mailbox_new ::
  "nat \<Rightarrow> nat \<Rightarrow> (addr \<Rightarrow> addr option) \<Rightarrow> (addr \<Rightarrow> 'm) \<Rightarrow> 'm mailbox" where
  "Mailbox_new NP junk nx vl =
     \<lparr>m_stack = Dummy_blocked, m_headers = replicate NP None, m_num_inque = 0,
      m_lastp = junk, nexts = nx, vals = vl\<rparr>"

text \<open>
  One round of the loop of \<open>enqueue\<close> after it loaded \<open>e\<close>: \<open>None\<close> is a failed
  compare-and-swap, after which the loop goes round again.
\<close>

definition enqueue_cas ::
  "slot \<Rightarrow> addr \<Rightarrow> 'm mailbox \<Rightarrow> enqueue_status option \<times> 'm mailbox" where
  "enqueue_cas e item s =
     (if e = Dummy_closed then (Some MAILBOX_FAILURE, s)
      else
        let s1 = s\<lparr>nexts := (nexts s)(item := (if is_dummy e then None else slot_ptr e))\<rparr>
        in if m_stack s1 = e
           then (Some (if e = Dummy_blocked then MAILBOX_UNBLOCKED else MAILBOX_SUCCESS),
                 s1\<lparr>m_stack := Item item\<rparr>)
           else (None, s1))"

partial_function (option) enqueue_loop ::
  "addr \<Rightarrow> 'm mailbox \<Rightarrow> (enqueue_status \<times> 'm mailbox) option" where
  "enqueue_loop item s =
     (case enqueue_cas (m_stack s) item s of
        (Some r, s') \<Rightarrow> Some (r, s')
      | (None, s') \<Rightarrow> enqueue_loop item s')"

definition enqueue :: "addr option \<Rightarrow> 'm mailbox \<Rightarrow> (enqueue_status \<times> 'm mailbox) res" where
  "enqueue item s =
     (case item of
        None \<Rightarrow> Inl Assert_failed
      | Some a \<Rightarrow> (case enqueue_loop a s of None \<Rightarrow> Inl Diverges | Some r \<Rightarrow> Inr r))"

text \<open>The loop of \<open>dequeue\<close> over the private queues, from the last priority fetched.\<close>

function take_private :: "'m mailbox \<Rightarrow> (addr \<times> 'm mailbox) res" where
  "take_private s =
     (if m_lastp s < length (m_headers s) then
        (case m_headers s ! m_lastp s of
           Some e \<Rightarrow>
             Inr (e, s\<lparr>m_headers := (m_headers s)[m_lastp s := nexts s e],
                       m_num_inque := m_num_inque s - 1\<rparr>)
         | None \<Rightarrow> take_private (s\<lparr>m_lastp := m_lastp s + 1\<rparr>))
      else Inl Assert_failed)"
  by pat_completeness auto
termination
  by (relation "measure (\<lambda>s. length (m_headers s) - m_lastp s)") auto

declare take_private.simps [simp del]

text \<open>The loop of \<open>dequeue\<close> that moves the detached stack into the private queues.\<close>

partial_function (option) transfer ::
  "('m \<Rightarrow> nat) \<Rightarrow> addr option \<Rightarrow> 'm mailbox \<Rightarrow> 'm mailbox res option" where
  "transfer prio e s =
     (case e of
        None \<Rightarrow> Some (Inr s)
      | Some a \<Rightarrow>
          if prio (vals s a) < length (m_headers s) then
            transfer prio (nexts s a)
              (s\<lparr>nexts := (nexts s)(a := m_headers s ! prio (vals s a)),
                 m_headers := (m_headers s)[prio (vals s a) := Some a],
                 m_num_inque := m_num_inque s + 1\<rparr>)
          else Some (Inl Out_of_range))"

text \<open>
  After the compare-and-swap of \<open>dequeue\<close> put \<^emph>\<open>empty\<close> into the stack: move the nodes, reset
  \<open>m_lastp\<close>.  The loop follows \<open>e\<close> whatever it is, so for \<open>Dummy_closed\<close> it dereferences the
  integer 3.
\<close>

definition dequeue_grab :: "('m \<Rightarrow> nat) \<Rightarrow> slot \<Rightarrow> 'm mailbox \<Rightarrow> 'm mailbox res" where
  "dequeue_grab prio e s =
     (if is_dummy e then Inl Wild_deref
      else (case transfer prio (slot_ptr e) (s\<lparr>m_stack := Dummy_empty\<rparr>) of
              None \<Rightarrow> Inl Diverges
            | Some (Inl f) \<Rightarrow> Inl f
            | Some (Inr s') \<Rightarrow> Inr (s'\<lparr>m_lastp := 0\<rparr>)))"

definition take_front :: "'m mailbox \<Rightarrow> (addr option \<times> 'm mailbox) res" where
  "take_front s = bind_res (take_private s) (\<lambda>(a, s'). Inr (Some a, s'))"

definition dequeue :: "('m \<Rightarrow> nat) \<Rightarrow> 'm mailbox \<Rightarrow> (addr option \<times> 'm mailbox) res" where
  "dequeue prio s =
     (if 0 < m_num_inque s then take_front s
      else if m_stack s = Dummy_blocked \<or> m_stack s = Dummy_empty then Inr (None, s)
      else bind_res (dequeue_grab prio (m_stack s) s)
             (\<lambda>s'. if 0 < m_num_inque s' then take_front s' else Inr (None, s')))"

definition is_blocked :: "'m mailbox \<Rightarrow> bool" where
  "is_blocked s \<longleftrightarrow> m_stack s = Dummy_blocked"

definition try_block :: "'m mailbox \<Rightarrow> bool \<times> 'm mailbox" where
  "try_block s =
     (if 0 < m_num_inque s then (False, s)
      else if m_stack s = Dummy_empty then (True, s\<lparr>m_stack := Dummy_blocked\<rparr>)
      else (False, s))"

text \<open>
  \<open>close\<close>: the loop over the private queues deletes at most one node of each and leaves
  \<open>m_num_inque\<close>; the loop over the shared stack advances before it deletes.  The list is of
  the deleted nodes, so that a read of a deleted node shows as a fault.
\<close>

function close_private :: "addr list \<Rightarrow> 'm mailbox \<Rightarrow> addr list \<times> 'm mailbox" where
  "close_private freed s =
     (if m_lastp s < length (m_headers s) then
        (case m_headers s ! m_lastp s of
           Some cur \<Rightarrow>
             close_private (cur # freed)
               (s\<lparr>m_headers := (m_headers s)[m_lastp s := nexts s cur],
                  m_lastp := m_lastp s + 1\<rparr>)
         | None \<Rightarrow> close_private freed (s\<lparr>m_lastp := m_lastp s + 1\<rparr>))
      else (freed, s))"
  by pat_completeness auto
termination
  by (relation "measure (\<lambda>(fr, s). length (m_headers s) - m_lastp s)") auto

declare close_private.simps [simp del]

function close_shared :: "(addr \<Rightarrow> addr option) \<Rightarrow> addr \<Rightarrow> addr list \<Rightarrow> addr list res" where
  "close_shared nx e freed =
     (if e \<in> set freed then Inl Use_after_free
      else (case nx e of
              None \<Rightarrow> Inr freed
            | Some b \<Rightarrow> close_shared nx b (b # freed)))"
  by pat_completeness auto
termination
  by (relation "measure (\<lambda>(nx, e, freed). if e \<in> set freed then 0 else 1)") auto

declare close_shared.simps [simp del]

definition close :: "'m mailbox \<Rightarrow> (addr list \<times> 'm mailbox) res" where
  "close s =
     (let e = m_stack s;
          (freed, s1) =
            (if 0 < m_num_inque s then close_private [] (s\<lparr>m_stack := Dummy_closed\<rparr>)
             else ([], s\<lparr>m_stack := Dummy_closed\<rparr>))
      in case slot_ptr e of
           None \<Rightarrow> Inr (freed, s1)
         | Some a \<Rightarrow> bind_res (close_shared (nexts s1) a freed) (\<lambda>fr. Inr (fr, s1)))"

section \<open>Reading a mailbox as lists\<close>

text \<open>
  \<open>priv_rep\<close>: the private queues hold the nodes \<open>qs\<close>, one list per priority, front first, and
  \<open>m_num_inque\<close> counts them.  \<open>mbox_rep\<close> adds the shared nodes \<open>st\<close>, newest first.
\<close>

definition priv_rep :: "('m \<Rightarrow> nat) \<Rightarrow> 'm mailbox \<Rightarrow> addr list list \<Rightarrow> bool" where
  "priv_rep prio s qs \<longleftrightarrow>
     length qs = length (m_headers s) \<and>
     (\<forall>p<length qs. chain (nexts s) (m_headers s ! p) (qs ! p)) \<and>
     unat (m_num_inque s) = length (concat qs) \<and>
     (\<forall>p<length qs. \<forall>a\<in>set (qs ! p). prio (vals s a) = p)"

definition mbox_rep :: "('m \<Rightarrow> nat) \<Rightarrow> 'm mailbox \<Rightarrow> addr list \<Rightarrow> addr list list \<Rightarrow> bool" where
  "mbox_rep prio s st qs \<longleftrightarrow>
     chain (nexts s) (slot_ptr (m_stack s)) st \<and>
     priv_rep prio s qs \<and>
     distinct (st @ concat qs) \<and>
     (\<forall>p<length qs. p < m_lastp s \<longrightarrow> qs ! p = []) \<and>
     (\<forall>a\<in>set st. prio (vals s a) < length qs)"

lemma priv_repI:
  assumes "length qs = length (m_headers s)"
    and "\<And>p. p < length qs \<Longrightarrow> chain (nexts s) (m_headers s ! p) (qs ! p)"
    and "unat (m_num_inque s) = length (concat qs)"
    and "\<And>p a. p < length qs \<Longrightarrow> a \<in> set (qs ! p) \<Longrightarrow> prio (vals s a) = p"
  shows "priv_rep prio s qs"
  using assms unfolding priv_rep_def by blast

lemma priv_len: "priv_rep prio s qs \<Longrightarrow> length (m_headers s) = length qs"
  unfolding priv_rep_def by (elim conjE) (rule sym)

lemma priv_chain: "priv_rep prio s qs \<Longrightarrow> p < length qs \<Longrightarrow> chain (nexts s) (m_headers s ! p) (qs ! p)"
  unfolding priv_rep_def by blast

lemma priv_num: "priv_rep prio s qs \<Longrightarrow> unat (m_num_inque s) = length (concat qs)"
  unfolding priv_rep_def by blast

lemma priv_prio: "priv_rep prio s qs \<Longrightarrow> p < length qs \<Longrightarrow> a \<in> set (qs ! p) \<Longrightarrow> prio (vals s a) = p"
  unfolding priv_rep_def by blast

lemma mbox_repI:
  assumes "chain (nexts s) (slot_ptr (m_stack s)) st" and "priv_rep prio s qs"
    and "distinct (st @ concat qs)"
    and "\<And>p. p < length qs \<Longrightarrow> p < m_lastp s \<Longrightarrow> qs ! p = []"
    and "\<And>a. a \<in> set st \<Longrightarrow> prio (vals s a) < length qs"
  shows "mbox_rep prio s st qs"
  using assms unfolding mbox_rep_def by blast

lemma mbox_chain: "mbox_rep prio s st qs \<Longrightarrow> chain (nexts s) (slot_ptr (m_stack s)) st"
  and mbox_priv: "mbox_rep prio s st qs \<Longrightarrow> priv_rep prio s qs"
  and mbox_distinct: "mbox_rep prio s st qs \<Longrightarrow> distinct (st @ concat qs)"
  and mbox_lastp: "mbox_rep prio s st qs \<Longrightarrow> p < length qs \<Longrightarrow> p < m_lastp s \<Longrightarrow> qs ! p = []"
  and mbox_prio: "mbox_rep prio s st qs \<Longrightarrow> a \<in> set st \<Longrightarrow> prio (vals s a) < length qs"
  unfolding mbox_rep_def by blast+

text \<open>Moving a stack into the queues, on lists: each node goes to the front of its queue.\<close>

fun distribute :: "('a \<Rightarrow> nat) \<Rightarrow> 'a list \<Rightarrow> 'a list list \<Rightarrow> 'a list list" where
  "distribute f [] qs = qs"
| "distribute f (a # st) qs = distribute f st (qs[f a := a # qs ! f a])"

lemma length_distribute [simp]: "length (distribute f st qs) = length qs"
  by (induction st arbitrary: qs) auto

lemma distribute_nth:
  "p < length qs \<Longrightarrow> distribute f st qs ! p = rev (filter (\<lambda>a. f a = p) st) @ qs ! p"
  by (induction st arbitrary: qs) (auto simp: nth_list_update)

lemma priv_rep_push:
  assumes "priv_rep prio s qs" and "a \<notin> set (concat qs)" and "prio (vals s a) < length qs"
    and "length (concat qs) + 1 < 2 ^ 32"
  shows "priv_rep prio
     (s\<lparr>nexts := (nexts s)(a := m_headers s ! prio (vals s a)),
        m_headers := (m_headers s)[prio (vals s a) := Some a],
        m_num_inque := m_num_inque s + 1\<rparr>)
     (qs[prio (vals s a) := a # qs ! prio (vals s a)])"
    (is "priv_rep prio ?s _")
proof -
  let ?p = "prio (vals s a)"
  have fresh: "a \<notin> set (qs ! p)" if "p < length qs" for p
    using assms(2) that by (rule notin_concat_nth)
  have num: "unat (m_num_inque s + 1) = unat (m_num_inque s) + 1"
    using assms(4) by (intro unat_inc) (simp add: priv_num [OF assms(1)])
  have len: "length (concat (qs[?p := a # qs ! ?p])) = length (concat qs) + 1"
    using concat_update_length [OF assms(3), of "a # qs ! ?p"] by simp
  show ?thesis
  proof (rule priv_repI)
    fix p assume "p < length (qs[?p := a # qs ! ?p])"
    then have p: "p < length qs" by simp
    have "chain ((nexts s)(a := m_headers s ! ?p)) (m_headers s ! q) (qs ! q)"
      if "q < length qs" for q
      using priv_chain [OF assms(1) that] fresh [OF that] by (simp add: lseg_upd)
    then show "chain (nexts ?s) (m_headers ?s ! p) (qs[?p := a # qs ! ?p] ! p)"
      using p assms(3) priv_len [OF assms(1)] by (cases "p = ?p") simp_all
  next
    fix p b assume "p < length (qs[?p := a # qs ! ?p])" "b \<in> set (qs[?p := a # qs ! ?p] ! p)"
    then show "prio (vals ?s b) = p"
      using priv_prio [OF assms(1), of p b] by (cases "p = ?p") auto
  qed (simp_all add: priv_len [OF assms(1)] num len priv_num [OF assms(1)])
qed

lemma mset_concat_push:
  assumes "p < length qs"
  shows "mset (concat (qs[p := a # qs ! p])) = add_mset a (mset (concat qs))"
proof -
  have "mset (concat (qs[p := a # qs ! p])) =
      mset (concat (take p qs) @ (a # qs ! p) @ concat (drop (Suc p) qs))"
    using assms by (simp only: concat_update_split)
  also have "\<dots> = add_mset a (mset (concat (take p qs) @ qs ! p @ concat (drop (Suc p) qs)))"
    by simp
  also have "\<dots> = add_mset a (mset (concat qs))"
    using concat_nth_split [OF assms] by (simp only:)
  finally show ?thesis .
qed

lemma set_concat_push:
  "p < length qs \<Longrightarrow> set (concat (qs[p := a # qs ! p])) = insert a (set (concat qs))"
  using arg_cong [OF mset_concat_push, of p qs set_mset a] by (simp only: set_mset_mset set_mset_add_mset_insert)

lemma distinct_concat_push:
  "p < length qs \<Longrightarrow>
   distinct (concat (qs[p := a # qs ! p])) \<longleftrightarrow> a \<notin> set (concat qs) \<and> distinct (concat qs)"
  using mset_concat_push [of p qs a] mset_eq_imp_distinct_iff [of _ "a # concat qs"]
  by (metis distinct.simps(2) mset.simps(2))

lemma transfer_rep:
  assumes "chain (nexts s) e st" and "priv_rep prio s qs" and "distinct (st @ concat qs)"
    and "\<forall>a\<in>set st. prio (vals s a) < length qs" and "length st + length (concat qs) < 2 ^ 32"
  shows "\<exists>s'. transfer prio e s = Some (Inr s') \<and>
     priv_rep prio s' (distribute (\<lambda>a. prio (vals s a)) st qs) \<and>
     distinct (concat (distribute (\<lambda>a. prio (vals s a)) st qs)) \<and>
     set (concat (distribute (\<lambda>a. prio (vals s a)) st qs)) = set (st @ concat qs) \<and>
     m_stack s' = m_stack s \<and> vals s' = vals s \<and> m_lastp s' = m_lastp s"
  using assms
proof (induction st arbitrary: e s qs)
  case Nil
  then have "e = None" by simp
  then show ?case using Nil by (subst transfer.simps) simp
next
  case (Cons a st)
  let ?p = "prio (vals s a)"
  let ?qs = "qs[?p := a # qs ! ?p]"
  let ?s = "s\<lparr>nexts := (nexts s)(a := m_headers s ! ?p),
      m_headers := (m_headers s)[?p := Some a], m_num_inque := m_num_inque s + 1\<rparr>"
  from Cons.prems have e: "e = Some a" and p: "?p < length qs" and a: "a \<notin> set st"
    and ac: "a \<notin> set (concat qs)"
    by auto
  have rep: "priv_rep prio ?s ?qs"
    using Cons.prems ac p by (intro priv_rep_push) auto
  have len: "length (concat ?qs) = length (concat qs) + 1"
    using concat_update_length [OF p, of "a # qs ! ?p"] by simp
  have tr: "transfer prio e s = transfer prio (nexts s a) ?s"
    using p Cons.prems(2) e by (subst transfer.simps) (simp add: priv_len)
  have sc: "set (concat ?qs) = insert a (set (concat qs))"
    using p by (rule set_concat_push)
  have "\<exists>s'. transfer prio (nexts s a) ?s = Some (Inr s') \<and>
     priv_rep prio s' (distribute (\<lambda>a. prio (vals ?s a)) st ?qs) \<and>
     distinct (concat (distribute (\<lambda>a. prio (vals ?s a)) st ?qs)) \<and>
     set (concat (distribute (\<lambda>a. prio (vals ?s a)) st ?qs)) = set (st @ concat ?qs) \<and>
     m_stack s' = m_stack ?s \<and> vals s' = vals ?s \<and> m_lastp s' = m_lastp ?s"
  proof (rule Cons.IH)
    show "chain (nexts ?s) (nexts s a) st"
      using Cons.prems(1) a by (simp add: lseg_upd)
    show "distinct (st @ concat ?qs)"
      using Cons.prems(3) a ac p
      by (simp add: distinct_concat_push sc del: set_concat)
  qed (use Cons.prems rep len in simp_all)
  then show ?case
    unfolding tr by (simp add: sc del: set_concat)
qed

section \<open>What each operation does to the lists\<close>

lemma priv_rep_nexts_other:
  assumes "priv_rep prio s qs" and "a \<notin> set (concat qs)"
  shows "priv_rep prio (s\<lparr>nexts := (nexts s)(a := v), m_stack := w\<rparr>) qs"
proof (rule priv_repI)
  fix p assume p: "p < length qs"
  then show "chain (nexts (s\<lparr>nexts := (nexts s)(a := v), m_stack := w\<rparr>))
      (m_headers (s\<lparr>nexts := (nexts s)(a := v), m_stack := w\<rparr>) ! p) (qs ! p)"
    using priv_chain [OF assms(1) p] notin_concat_nth [OF assms(2) p] by (simp add: lseg_upd)
qed (use priv_prio [OF assms(1)] priv_len [OF assms(1)] priv_num [OF assms(1)] in simp_all)

lemma mbox_rep_enqueue:
  assumes rep: "mbox_rep prio s st qs" and "a \<notin> set st" and "a \<notin> set (concat qs)"
    and "prio (vals s a) < length qs"
  shows "mbox_rep prio
     (s\<lparr>nexts := (nexts s)(a := slot_ptr (m_stack s)), m_stack := Item a\<rparr>) (a # st) qs"
  using priv_rep_nexts_other [OF mbox_priv [OF rep] assms(3)] mbox_lastp [OF rep]
    mbox_chain [OF rep] mbox_distinct [OF rep] mbox_prio [OF rep] assms
  by (intro mbox_repI) (auto simp: lseg_upd)

lemma mbox_rep_nexts_other:
  assumes rep: "mbox_rep prio s st qs" and "a \<notin> set st" and "a \<notin> set (concat qs)"
  shows "mbox_rep prio (s\<lparr>nexts := (nexts s)(a := v)\<rparr>) st qs"
  using priv_rep_nexts_other [OF mbox_priv [OF rep] assms(3), of "m_stack s" v] mbox_lastp [OF rep]
    mbox_chain [OF rep] mbox_distinct [OF rep] mbox_prio [OF rep] assms
  by (intro mbox_repI) (auto simp: lseg_upd)

lemma mbox_rep_vals_other:
  assumes rep: "mbox_rep prio s st qs" and "a \<notin> set st" and a: "a \<notin> set (concat qs)"
  shows "mbox_rep prio (s\<lparr>vals := (vals s)(a := v)\<rparr>) st qs"
proof -
  have "priv_rep prio (s\<lparr>vals := (vals s)(a := v)\<rparr>) qs"
  proof (rule priv_repI)
    fix p b assume p: "p < length qs" and b: "b \<in> set (qs ! p)"
    then have "b \<noteq> a" using notin_concat_nth [OF a p] by auto
    then show "prio (vals (s\<lparr>vals := (vals s)(a := v)\<rparr>) b) = p"
      using priv_prio [OF mbox_priv [OF rep] p b] by simp
  qed (use priv_chain [OF mbox_priv [OF rep]] priv_len [OF mbox_priv [OF rep]]
        priv_num [OF mbox_priv [OF rep]] in simp_all)
  then show ?thesis
    using mbox_lastp [OF rep] mbox_chain [OF rep] mbox_distinct [OF rep] mbox_prio [OF rep] assms(2)
    by (intro mbox_repI) auto
qed

lemma mset_concat_pop:
  assumes "p < length qs" and "qs ! p = a # q"
  shows "mset (concat qs) = add_mset a (mset (concat (qs[p := q])))"
  using mset_concat_push [of p "qs[p := q]" a] assms
  by (metis length_list_update list_update_id list_update_overwrite nth_list_update_eq)

lemma priv_rep_pop:
  assumes rep: "priv_rep prio s qs" and p: "p < length qs" and q: "qs ! p = a # q"
  shows "priv_rep prio
     (s\<lparr>m_headers := (m_headers s)[p := nexts s a], m_num_inque := m_num_inque s - 1\<rparr>) (qs[p := q])"
    (is "priv_rep prio ?s _")
proof (rule priv_repI)
  fix i assume "i < length (qs[p := q])"
  then have i: "i < length qs" by simp
  show "chain (nexts ?s) (m_headers ?s ! i) (qs[p := q] ! i)"
    using priv_chain [OF rep i] i p q priv_len [OF rep] by (cases "i = p") simp_all
next
  have "length (concat qs) = Suc (length (concat (qs[p := q])))"
    using arg_cong [OF mset_concat_pop [OF p q], of size] by (simp only: size_mset size_add_mset)
  then show "unat (m_num_inque ?s) = length (concat (qs[p := q]))"
    using priv_num [OF rep] by (simp add: unat_dec)
next
  fix i b assume "i < length (qs[p := q])" "b \<in> set (qs[p := q] ! i)"
  then have "i < length qs" "b \<in> set (qs ! i)" using p q by (cases "i = p"; auto)+
  then show "prio (vals ?s b) = i" using priv_prio [OF rep] by simp
qed (simp add: priv_len [OF rep])

lemma mbox_rep_pop:
  assumes rep: "mbox_rep prio s st qs" and p: "p < length qs" and q: "qs ! p = a # q"
  shows "mbox_rep prio
     (s\<lparr>m_headers := (m_headers s)[p := nexts s a], m_num_inque := m_num_inque s - 1\<rparr>)
     st (qs[p := q])"
proof (rule mbox_repI)
  have "mset (st @ concat qs) = mset (a # st @ concat (qs[p := q]))"
    using mset_concat_pop [OF p q] by simp
  then have "distinct (a # st @ concat (qs[p := q]))"
    using mbox_distinct [OF rep] mset_eq_imp_distinct_iff by blast
  then show "distinct (st @ concat (qs[p := q]))" by simp
next
  fix i assume "i < length (qs[p := q])"
    "i < m_lastp (s\<lparr>m_headers := (m_headers s)[p := nexts s a], m_num_inque := m_num_inque s - 1\<rparr>)"
  then show "qs[p := q] ! i = []"
    using mbox_lastp [OF rep, of i] q by (cases "i = p") auto
qed (use mbox_chain [OF rep] mbox_prio [OF rep] priv_rep_pop [OF mbox_priv [OF rep] p q] in auto)


section \<open>The operations on lists\<close>

text \<open>
  What \<open>dequeue\<close> promises: the front of the first non-empty queue; when all the private queues
  are empty, the whole stack is moved into them first.
\<close>

fun pop_queues :: "'a list list \<Rightarrow> ('a \<times> 'a list list) option" where
  "pop_queues [] = None"
| "pop_queues ((a # q) # qs) = Some (a, q # qs)"
| "pop_queues ([] # qs) = map_option (\<lambda>(a, qs'). (a, [] # qs')) (pop_queues qs)"

definition abs_dequeue ::
  "('a \<Rightarrow> nat) \<Rightarrow> 'a list \<Rightarrow> 'a list list \<Rightarrow> 'a option \<times> 'a list \<times> 'a list list" where
  "abs_dequeue pr st qs =
     (case pop_queues qs of
        Some (a, qs') \<Rightarrow> (Some a, st, qs')
      | None \<Rightarrow>
          (case pop_queues (distribute pr st qs) of
             Some (a, qs') \<Rightarrow> (Some a, [], qs')
           | None \<Rightarrow> (None, st, qs)))"

lemma pop_queues_None: "pop_queues qs = None \<longleftrightarrow> concat qs = []"
  by (induction qs rule: pop_queues.induct) (auto split: option.splits)

lemma pop_queues_first:
  "p < length qs \<Longrightarrow> qs ! p = a # q \<Longrightarrow> (\<And>i. i < p \<Longrightarrow> qs ! i = []) \<Longrightarrow>
   pop_queues qs = Some (a, qs[p := q])"
proof (induction qs arbitrary: p)
  case Nil
  then show ?case by simp
next
  case (Cons x qs)
  show ?case
  proof (cases p)
    case 0
    with Cons.prems show ?thesis by simp
  next
    case (Suc k)
    have "x = []" using Cons.prems(3) [of 0] Suc by simp
    moreover have "qs ! i = []" if "i < k" for i
      using Cons.prems(3) [of "Suc i"] Suc that by simp
    ultimately show ?thesis
      using Cons.IH [of k] Cons.prems(1,2) Suc by simp
  qed
qed

lemma pop_queues_some:
  "pop_queues qs = Some (a, qs') \<Longrightarrow>
   \<exists>p<length qs. \<exists>q. qs ! p = a # q \<and> qs' = qs[p := q] \<and> (\<forall>i<p. qs ! i = [])"
proof (induction qs arbitrary: qs' rule: pop_queues.induct)
  case (3 qs)
  then obtain qs1 where qs1: "pop_queues qs = Some (a, qs1)" "qs' = [] # qs1" by auto
  from "3.IH" [OF qs1(1)] obtain p q where "p < length qs" "qs ! p = a # q" "qs1 = qs[p := q]"
    "\<forall>i<p. qs ! i = []" by blast
  with qs1 show ?case
    by (intro exI [of _ "Suc p"]) (auto simp: less_Suc_eq_0_disj)
qed auto

lemma mbox_rep_lastp_Suc:
  assumes rep: "mbox_rep prio s st qs" and "m_lastp s < length qs" and "qs ! m_lastp s = []"
  shows "mbox_rep prio (s\<lparr>m_lastp := m_lastp s + 1\<rparr>) st qs"
proof (rule mbox_repI)
  show "priv_rep prio (s\<lparr>m_lastp := m_lastp s + 1\<rparr>) qs"
    using priv_len [OF mbox_priv [OF rep]] priv_chain [OF mbox_priv [OF rep]]
      priv_num [OF mbox_priv [OF rep]] priv_prio [OF mbox_priv [OF rep]]
    by (intro priv_repI) simp_all
  show "qs ! p = []" if "p < length qs" "p < m_lastp (s\<lparr>m_lastp := m_lastp s + 1\<rparr>)" for p
    using that mbox_lastp [OF rep, of p] assms(3) by (cases "p = m_lastp s") simp_all
qed (use mbox_chain [OF rep] mbox_distinct [OF rep] mbox_prio [OF rep] in simp_all)

lemma take_private_rep:
  assumes "mbox_rep prio s st qs" and "concat qs \<noteq> []"
  shows "\<exists>a s' qs'. take_private s = Inr (a, s') \<and> pop_queues qs = Some (a, qs') \<and>
     mbox_rep prio s' st qs' \<and> m_stack s' = m_stack s \<and> vals s' = vals s \<and> nexts s' = nexts s"
  using assms
proof (induction s rule: take_private.induct)
  case (1 s)
  note rep = "1.prems"(1)
  let ?p = "m_lastp s"
  have len: "length (m_headers s) = length qs" by (rule priv_len [OF mbox_priv [OF rep]])
  have lt: "?p < length qs"
    using "1.prems"(2) concat_all_Nil [of qs] mbox_lastp [OF rep] by (metis not_le_imp_less less_le_trans)
  note ch = priv_chain [OF mbox_priv [OF rep] lt]
  show ?case
  proof (cases "m_headers s ! ?p")
    case None
    then have e: "qs ! ?p = []" using ch by (simp add: chain_None)
    have "take_private s = take_private (s\<lparr>m_lastp := ?p + 1\<rparr>)"
      using lt len None by (subst take_private.simps) simp
    then show ?thesis
      using "1.IH" [OF _ None mbox_rep_lastp_Suc [OF rep lt e] "1.prems"(2)] lt len by simp
  next
    case (Some e)
    then obtain q where q: "qs ! ?p = e # q" using ch by (auto simp: chain_Some)
    have "pop_queues qs = Some (e, qs[?p := q])"
      using lt q mbox_lastp [OF rep] by (intro pop_queues_first) auto
    then show ?thesis
      using mbox_rep_pop [OF rep lt q] lt len Some by (subst take_private.simps) simp
  qed
qed

lemma priv_rep_frame [simp]:
  "priv_rep prio (s\<lparr>m_stack := x\<rparr>) qs = priv_rep prio s qs"
  "priv_rep prio (s\<lparr>m_lastp := k\<rparr>) qs = priv_rep prio s qs"
  unfolding priv_rep_def by simp_all

lemma num_inque_pos: "mbox_rep prio s st qs \<Longrightarrow> 0 < m_num_inque s \<longleftrightarrow> concat qs \<noteq> []"
  using priv_num [OF mbox_priv] by (metis length_greater_0_conv unat_gt_0 word_neq_0_conv)

lemma dequeue_grab_rep:
  assumes rep: "mbox_rep prio s st qs" and "concat qs = []" and "m_stack s = Item a"
    and "length st < 2 ^ 32"
  shows "\<exists>s'. dequeue_grab prio (Item a) s = Inr s' \<and>
     mbox_rep prio s' [] (distribute (\<lambda>a. prio (vals s a)) st qs) \<and>
     m_stack s' = Dummy_empty \<and> vals s' = vals s"
proof -
  let ?s = "s\<lparr>m_stack := Dummy_empty\<rparr>"
  have "\<exists>s'. transfer prio (slot_ptr (Item a)) ?s = Some (Inr s') \<and>
     priv_rep prio s' (distribute (\<lambda>a. prio (vals ?s a)) st qs) \<and>
     distinct (concat (distribute (\<lambda>a. prio (vals ?s a)) st qs)) \<and>
     set (concat (distribute (\<lambda>a. prio (vals ?s a)) st qs)) = set (st @ concat qs) \<and>
     m_stack s' = m_stack ?s \<and> vals s' = vals ?s \<and> m_lastp s' = m_lastp ?s"
    using mbox_chain [OF rep] mbox_priv [OF rep] mbox_distinct [OF rep] mbox_prio [OF rep] assms(3,4)
    by (intro transfer_rep) (simp_all add: assms(2))
  then obtain s' where tr: "transfer prio (slot_ptr (Item a)) ?s = Some (Inr s')"
    and p: "priv_rep prio s' (distribute (\<lambda>a. prio (vals s a)) st qs)"
    and d: "distinct (concat (distribute (\<lambda>a. prio (vals s a)) st qs))"
    and m: "m_stack s' = Dummy_empty" "vals s' = vals s"
    by auto
  have "mbox_rep prio (s'\<lparr>m_lastp := 0\<rparr>) [] (distribute (\<lambda>a. prio (vals s a)) st qs)"
    using p d m by (intro mbox_repI) simp_all
  with tr m show ?thesis by (simp add: dequeue_grab_def)
qed

lemma take_front_rep:
  assumes "mbox_rep prio s st qs" and "concat qs \<noteq> []"
  shows "\<exists>a s' qs'. take_front s = Inr (Some a, s') \<and> pop_queues qs = Some (a, qs') \<and>
     mbox_rep prio s' st qs' \<and> m_stack s' = m_stack s \<and> vals s' = vals s"
  using take_private_rep [OF assms] by (auto simp: take_front_def)

lemma concat_distribute_Cons:
  assumes "\<forall>b\<in>set (a # st). f b < length qs"
  shows "concat (distribute f (a # st) qs) \<noteq> []"
proof -
  have "distribute f (a # st) qs ! f a \<noteq> []"
    using assms by (subst distribute_nth) auto
  then show ?thesis
    using assms by (metis concat_eq_Nil_conv length_distribute list.set_intros(1) nth_mem)
qed

lemma dequeue_rep:
  assumes rep: "mbox_rep prio s st qs" and opn: "m_stack s \<noteq> Dummy_closed"
    and len: "length st < 2 ^ 32"
  shows "\<exists>r s' st' qs'. dequeue prio s = Inr (r, s') \<and>
     abs_dequeue (\<lambda>a. prio (vals s a)) st qs = (r, st', qs') \<and>
     mbox_rep prio s' st' qs' \<and> vals s' = vals s \<and>
     (m_stack s' = m_stack s \<or> m_stack s' = Dummy_empty \<and> m_stack s \<noteq> Dummy_blocked)"
proof (cases "concat qs = []")
  case False
  from take_front_rep [OF rep False] show ?thesis
    using False num_inque_pos [OF rep] by (auto simp: dequeue_def abs_dequeue_def)
next
  case True
  let ?d = "distribute (\<lambda>a. prio (vals s a)) st qs"
  have none: "pop_queues qs = None" using True by (simp only: pop_queues_None)
  have num: "\<not> 0 < m_num_inque s" using True num_inque_pos [OF rep] by blast
  show ?thesis
  proof (cases "m_stack s")
    case (Item a)
    obtain s' where s': "dequeue_grab prio (Item a) s = Inr s'" "mbox_rep prio s' [] ?d"
      "m_stack s' = Dummy_empty" "vals s' = vals s"
      using dequeue_grab_rep [OF rep True Item len] by blast
    obtain st1 where st1: "st = a # st1"
      using mbox_chain [OF rep] Item by (auto simp: chain_Some)
    have ne: "concat ?d \<noteq> []"
      using mbox_prio [OF rep] unfolding st1 by (intro concat_distribute_Cons) blast
    from take_front_rep [OF s'(2) ne] obtain b s'' qs' where
      "take_front s' = Inr (Some b, s'')" "pop_queues ?d = Some (b, qs')" "mbox_rep prio s'' [] qs'"
      "vals s'' = vals s'" "m_stack s'' = m_stack s'" by blast
    then show ?thesis
      using Item s' num none ne num_inque_pos [OF s'(2)] by (simp add: dequeue_def abs_dequeue_def)
  next
    case Dummy_empty
    then show ?thesis
      using rep num none mbox_chain [OF rep] by (simp add: dequeue_def abs_dequeue_def chain_None)
  next
    case Dummy_blocked
    then show ?thesis
      using rep num none mbox_chain [OF rep] by (simp add: dequeue_def abs_dequeue_def chain_None)
  qed (use opn in simp)
qed

lemma enqueue_cas_open:
  "m_stack s = e \<Longrightarrow> e \<noteq> Dummy_closed \<Longrightarrow>
   enqueue_cas e a s =
     (Some (if e = Dummy_blocked then MAILBOX_UNBLOCKED else MAILBOX_SUCCESS),
      s\<lparr>nexts := (nexts s)(a := slot_ptr (m_stack s)), m_stack := Item a\<rparr>)"
  by (cases e) (simp_all add: enqueue_cas_def)

lemma enqueue_open:
  assumes "m_stack s \<noteq> Dummy_closed"
  shows "enqueue (Some a) s =
     Inr (if m_stack s = Dummy_blocked then MAILBOX_UNBLOCKED else MAILBOX_SUCCESS,
          s\<lparr>nexts := (nexts s)(a := slot_ptr (m_stack s)), m_stack := Item a\<rparr>)"
  using enqueue_cas_open [OF refl assms] by (simp add: enqueue_def enqueue_loop.simps)

section \<open>Properties\<close>

text \<open>
  C8.  On a mailbox that is not closed, \<open>dequeue\<close> never faults and is the list operation
  \<open>abs_dequeue\<close>: it returns the front of the first non-empty private queue, after moving the whole
  shared stack, oldest message first within each priority, when the private queues are empty; it
  returns null exactly when nothing is pending.
\<close>

theorem dequeue_refines:
  assumes "mbox_rep prio s st qs" and "m_stack s \<noteq> Dummy_closed" and "length st < 2 ^ 32"
  shows "\<exists>r s' st' qs'. dequeue prio s = Inr (r, s') \<and>
     abs_dequeue (\<lambda>a. prio (vals s a)) st qs = (r, st', qs') \<and> mbox_rep prio s' st' qs' \<and>
     (r = None \<longleftrightarrow> st = [] \<and> concat qs = [])"
proof -
  from dequeue_rep [OF assms] obtain r s' st' qs' where
    d: "dequeue prio s = Inr (r, s')" and a: "abs_dequeue (\<lambda>a. prio (vals s a)) st qs = (r, st', qs')"
    and r: "mbox_rep prio s' st' qs'" by blast
  have "r = None \<longleftrightarrow> concat qs = [] \<and> concat (distribute (\<lambda>a. prio (vals s a)) st qs) = []"
    using a pop_queues_None [of qs] pop_queues_None [of "distribute (\<lambda>a. prio (vals s a)) st qs"]
    unfolding abs_dequeue_def by (auto split: option.splits)
  moreover have "concat (distribute (\<lambda>a. prio (vals s a)) st qs) = [] \<longleftrightarrow> st = []" if "concat qs = []"
    using that concat_distribute_Cons [of _ "tl st" "\<lambda>a. prio (vals s a)" qs] mbox_prio [OF assms(1)]
    by (cases st) (auto simp del: concat_eq_Nil_conv distribute.simps(2))
  ultimately show ?thesis using d a r by blast
qed

definition sample_box :: "nat mailbox" where
  "sample_box = \<lparr>m_stack = Item 2, m_headers = [None], m_num_inque = 0, m_lastp = 0,
     nexts = (\<lambda>_. None)(2 := Some 1), vals = (\<lambda>a. 10 * a)\<rparr>"

lemma sample_box_rep: "mbox_rep (\<lambda>_. 0) sample_box [2, 1] [[]]"
  by (intro mbox_repI priv_repI) (simp_all add: sample_box_def)

theorem dequeue_refines_witness:
  "\<exists>s'. dequeue (\<lambda>_. 0) sample_box = Inr (Some 1, s') \<and> mbox_rep (\<lambda>_. 0) s' [] [[2]]"
  using dequeue_refines [OF sample_box_rep]
  by (auto simp: sample_box_def abs_dequeue_def)

text \<open>
  C17.  \<open>close\<close> on a mailbox with two or more messages still on the shared stack reads the \<open>next\<close>
  field of a node it has just deleted: its loop deletes the node it advanced to, not the one it left.
\<close>

theorem close_use_after_free:
  assumes "mbox_rep prio s (a # b # st) qs" and "concat qs = []"
  shows "close s = Inl Use_after_free"
proof -
  have num: "\<not> 0 < m_num_inque s" using num_inque_pos [OF assms(1)] assms(2) by blast
  have ch: "slot_ptr (m_stack s) = Some a" "nexts s a = Some b"
    using mbox_chain [OF assms(1)] by simp_all
  have "close_shared (nexts s) a [] = Inl Use_after_free"
    using ch(2) by (simp add: close_shared.simps)
  then show ?thesis using num ch(1) by (simp add: close_def)
qed

theorem close_use_after_free_witness: "close sample_box = Inl Use_after_free"
  using close_use_after_free [OF sample_box_rep] by simp

end
