(* ===== verification/Mailbox_Conc.thy ===== *)
theory Mailbox_Conc
  imports Mailbox "HOL-Library.Sublist"
begin

text \<open>
  Any number of senders and one owner on a mailbox, interleaved at the granularity of single loads
  and compare-and-swaps of \<open>m_stack\<close> (\<open>include/mola/mailbox.hpp\<close>).  A sender allocates a node,
  loads \<open>m_stack\<close>, links its node and swaps it in, going round again when the swap fails; the owner
  runs \<open>dequeue\<close> and \<open>try_block\<close>.  Writes to a node's \<open>next\<close> before it is swapped in, and to the
  private queues, touch memory of one thread only and so belong to the next atomic step of that
  thread.  The ghost fields record what was sent, what was received, how often a sender was told
  that it unblocked the mailbox and how often the owner blocked it.
\<close>

section \<open>Threads and steps\<close>

datatype producer = P_idle | P_new addr | P_loaded addr slot

datatype consumer = C_idle | C_load | C_deq slot | C_blk_load | C_blk

record 'm mb_sys =
  box :: "'m mailbox"
  prods :: "nat \<Rightarrow> producer"
  owner :: consumer
  live :: "addr set"
  sent :: "'m list"
  recvd :: "'m list"
  unblocks :: nat
  blocks :: nat
  crashed :: "fault option"

definition mb_init ::
  "nat \<Rightarrow> nat \<Rightarrow> (addr \<Rightarrow> addr option) \<Rightarrow> (addr \<Rightarrow> 'm) \<Rightarrow> 'm mb_sys" where
  "mb_init NP junk nx vl =
     \<lparr>box = Mailbox_new NP junk nx vl, prods = (\<lambda>_. P_idle), owner = C_idle, live = {},
      sent = [], recvd = [], unblocks = 0, blocks = 0, crashed = None\<rparr>"

text \<open>
  A sender's steps.  \<open>p_new\<close> is \<open>new\<close>: an address that is not live, a value with a legal
  priority; fewer than \<open>2\<^sup>3\<^sup>2\<close> nodes are live at a time.
\<close>

definition p_new :: "('m \<Rightarrow> nat) \<Rightarrow> nat \<Rightarrow> nat \<Rightarrow> addr \<Rightarrow> 'm \<Rightarrow> 'm mb_sys \<Rightarrow> 'm mb_sys option" where
  "p_new prio NP i a m s =
     (if prods s i = P_idle \<and> a \<notin> live s \<and> Suc (card (live s)) < 2 ^ 32 \<and> prio m < NP
      then Some (s\<lparr>box := (box s)\<lparr>vals := (vals (box s))(a := m)\<rparr>,
                   prods := (prods s)(i := P_new a), live := insert a (live s)\<rparr>)
      else None)"

definition p_load :: "nat \<Rightarrow> 'm mb_sys \<Rightarrow> 'm mb_sys option" where
  "p_load i s =
     (case prods s i of
        P_new a \<Rightarrow> Some (s\<lparr>prods := (prods s)(i := P_loaded a (m_stack (box s)))\<rparr>)
      | _ \<Rightarrow> None)"

definition p_cas :: "nat \<Rightarrow> 'm mb_sys \<Rightarrow> 'm mb_sys option" where
  "p_cas i s =
     (case prods s i of
        P_loaded a e \<Rightarrow>
          (case enqueue_cas e a (box s) of
             (None, b) \<Rightarrow> Some (s\<lparr>box := b, prods := (prods s)(i := P_new a)\<rparr>)
           | (Some MAILBOX_FAILURE, b) \<Rightarrow>
               Some (s\<lparr>box := b, prods := (prods s)(i := P_idle), live := live s - {a}\<rparr>)
           | (Some r, b) \<Rightarrow>
               Some (s\<lparr>box := b, prods := (prods s)(i := P_idle),
                       sent := sent s @ [vals (box s) a],
                       unblocks := unblocks s + (if r = MAILBOX_UNBLOCKED then 1 else 0)\<rparr>))
      | _ \<Rightarrow> None)"

text \<open>The owner's steps: \<open>dequeue\<close> first, then \<open>try_block\<close>.\<close>

definition c_take :: "'m mb_sys \<Rightarrow> 'm mb_sys option" where
  "c_take s =
     (if owner s = C_idle \<and> 0 < m_num_inque (box s)
      then Some (case take_private (box s) of
                   Inl f \<Rightarrow> s\<lparr>crashed := Some f\<rparr>
                 | Inr (a, b) \<Rightarrow>
                     s\<lparr>box := b, recvd := recvd s @ [vals (box s) a], live := live s - {a}\<rparr>)
      else None)"

definition c_begin :: "consumer \<Rightarrow> 'm mb_sys \<Rightarrow> 'm mb_sys option" where
  "c_begin c s =
     (if owner s = C_idle \<and> \<not> 0 < m_num_inque (box s) \<and> (c = C_load \<or> c = C_blk_load)
      then Some (s\<lparr>owner := c\<rparr>) else None)"

definition c_load :: "'m mb_sys \<Rightarrow> 'm mb_sys option" where
  "c_load s =
     (if owner s = C_load
      then Some (s\<lparr>owner := (if m_stack (box s) = Dummy_blocked \<or> m_stack (box s) = Dummy_empty
                             then C_idle else C_deq (m_stack (box s)))\<rparr>)
      else None)"

definition c_grab :: "('m \<Rightarrow> nat) \<Rightarrow> 'm mb_sys \<Rightarrow> 'm mb_sys option" where
  "c_grab prio s =
     (case owner s of
        C_deq e \<Rightarrow>
          Some (if m_stack (box s) = e
                then (case dequeue_grab prio e (box s) of
                        Inl f \<Rightarrow> s\<lparr>crashed := Some f\<rparr>
                      | Inr b \<Rightarrow> s\<lparr>box := b, owner := C_idle\<rparr>)
                else s\<lparr>owner := C_load\<rparr>)
      | _ \<Rightarrow> None)"

definition c_blk_load :: "'m mb_sys \<Rightarrow> 'm mb_sys option" where
  "c_blk_load s =
     (if owner s = C_blk_load
      then Some (s\<lparr>owner := (if m_stack (box s) = Dummy_empty then C_blk else C_idle)\<rparr>)
      else None)"

definition c_block :: "'m mb_sys \<Rightarrow> 'm mb_sys option" where
  "c_block s =
     (if owner s = C_blk
      then Some (if m_stack (box s) = Dummy_empty
                 then s\<lparr>box := (box s)\<lparr>m_stack := Dummy_blocked\<rparr>, owner := C_idle,
                        blocks := blocks s + 1\<rparr>
                 else s\<lparr>owner := C_blk_load\<rparr>)
      else None)"

inductive mb_step :: "('m \<Rightarrow> nat) \<Rightarrow> nat \<Rightarrow> 'm mb_sys \<Rightarrow> 'm mb_sys \<Rightarrow> bool" for prio NP where
  new: "p_new prio NP i a m s = Some s' \<Longrightarrow> mb_step prio NP s s'"
| load: "p_load i s = Some s' \<Longrightarrow> mb_step prio NP s s'"
| cas: "p_cas i s = Some s' \<Longrightarrow> mb_step prio NP s s'"
| take: "c_take s = Some s' \<Longrightarrow> mb_step prio NP s s'"
| start: "c_begin c s = Some s' \<Longrightarrow> mb_step prio NP s s'"
| dload: "c_load s = Some s' \<Longrightarrow> mb_step prio NP s s'"
| grab: "c_grab prio s = Some s' \<Longrightarrow> mb_step prio NP s s'"
| bload: "c_blk_load s = Some s' \<Longrightarrow> mb_step prio NP s s'"
| block: "c_block s = Some s' \<Longrightarrow> mb_step prio NP s s'"

section \<open>The invariant\<close>

lemma is_dummy_iff: "is_dummy e \<longleftrightarrow> e = Dummy_empty \<or> e = Dummy_blocked \<or> e = Dummy_closed"
  by (cases e) simp_all

fun owned :: "producer \<Rightarrow> addr set" where
  "owned P_idle = {}"
| "owned (P_new a) = {a}"
| "owned (P_loaded a e) = {a}"

definition mb_own :: "('m \<Rightarrow> nat) \<Rightarrow> 'm mb_sys \<Rightarrow> addr set \<Rightarrow> nat \<Rightarrow> bool" where
  "mb_own prio s inbox NP \<longleftrightarrow>
     finite (live s) \<and> card (live s) < 2 ^ 32 \<and> inbox \<subseteq> live s \<and>
     (\<forall>i. \<forall>a\<in>owned (prods s i). a \<in> live s \<and> a \<notin> inbox \<and> prio (vals (box s) a) < NP) \<and>
     (\<forall>i j a. a \<in> owned (prods s i) \<longrightarrow> a \<in> owned (prods s j) \<longrightarrow> i = j)"

definition mb_hist :: "('m \<Rightarrow> nat) \<Rightarrow> 'm mb_sys \<Rightarrow> addr list \<Rightarrow> addr list list \<Rightarrow> bool" where
  "mb_hist prio s st qs \<longleftrightarrow>
     (\<forall>p<length qs. filter (\<lambda>m. prio m = p) (sent s) =
        filter (\<lambda>m. prio m = p) (recvd s) @ map (vals (box s)) (qs ! p) @
        filter (\<lambda>m. prio m = p) (map (vals (box s)) (rev st)))"

definition mb_ctl :: "'m mb_sys \<Rightarrow> addr list list \<Rightarrow> bool" where
  "mb_ctl s qs \<longleftrightarrow>
     crashed s = None \<and> m_stack (box s) \<noteq> Dummy_closed \<and>
     (owner s \<noteq> C_idle \<longrightarrow> concat qs = []) \<and>
     (m_stack (box s) = Dummy_blocked \<longrightarrow> concat qs = []) \<and>
     (\<forall>e. owner s = C_deq e \<longrightarrow> \<not> is_dummy e) \<and>
     unblocks s = blocks s + (if m_stack (box s) = Dummy_blocked then 0 else 1)"

definition mb_inv :: "('m \<Rightarrow> nat) \<Rightarrow> nat \<Rightarrow> 'm mb_sys \<Rightarrow> addr list \<Rightarrow> addr list list \<Rightarrow> bool" where
  "mb_inv prio NP s st qs \<longleftrightarrow>
     length qs = NP \<and> mbox_rep prio (box s) st qs \<and> mb_own prio s (set (st @ concat qs)) NP \<and>
     mb_hist prio s st qs \<and> mb_ctl s qs"

lemma mb_invD:
  assumes "mb_inv prio NP s st qs"
  shows "length qs = NP" and "mbox_rep prio (box s) st qs"
    and "mb_own prio s (set (st @ concat qs)) NP" and "mb_hist prio s st qs" and "mb_ctl s qs"
  using assms unfolding mb_inv_def by blast+

lemma mb_init_inv: "mb_inv prio NP (mb_init NP junk nx vl) [] (replicate NP [])"
proof -
  have "mbox_rep prio (Mailbox_new NP junk nx vl) [] (replicate NP [])"
    by (intro mbox_repI priv_repI) (simp_all add: Mailbox_new_def)
  then show ?thesis
    by (simp add: mb_inv_def mb_init_def mb_own_def mb_hist_def mb_ctl_def Mailbox_new_def)
qed

lemma mb_own_fresh:
  assumes "mb_own prio s inbox NP" and "a \<in> owned (prods s i)"
  shows "a \<in> live s" and "a \<notin> inbox" and "prio (vals (box s) a) < NP"
  using assms unfolding mb_own_def by blast+

lemma p_new_inv:
  assumes inv: "mb_inv prio NP s st qs" and step: "p_new prio NP i a m s = Some s'"
  shows "mb_inv prio NP s' st qs"
proof -
  from step have c: "prods s i = P_idle" "a \<notin> live s" "Suc (card (live s)) < 2 ^ 32" "prio m < NP"
    and s': "s' = s\<lparr>box := (box s)\<lparr>vals := (vals (box s))(a := m)\<rparr>,
      prods := (prods s)(i := P_new a), live := insert a (live s)\<rparr>"
    by (simp_all add: p_new_def split: if_splits)
  note I = mb_invD [OF inv]
  have a: "a \<notin> set st" "a \<notin> set (concat qs)"
    using I(3) c(2) unfolding mb_own_def by auto
  have "mbox_rep prio (box s') st qs"
    using mbox_rep_vals_other [OF I(2) a] s' by simp
  moreover have "mb_own prio s' (set (st @ concat qs)) NP"
    using I(3) c unfolding mb_own_def s' by (auto simp del: set_concat)
  moreover have "mb_hist prio s' st qs"
  proof -
    have "map ((vals (box s))(a := m)) xs = map (vals (box s)) xs" if "a \<notin> set xs" for xs
      using that by (simp add: map_fun_upd)
    then show ?thesis
      using I(4) a notin_concat_nth [OF a(2)] unfolding mb_hist_def s' by simp
  qed
  moreover have "mb_ctl s' qs"
    using I(5) unfolding mb_ctl_def s' by simp
  ultimately show ?thesis using I(1) unfolding mb_inv_def by blast
qed

lemma p_load_inv:
  assumes inv: "mb_inv prio NP s st qs" and step: "p_load i s = Some s'"
  shows "mb_inv prio NP s' st qs"
proof -
  from step obtain a where p: "prods s i = P_new a"
    and s': "s' = s\<lparr>prods := (prods s)(i := P_loaded a (m_stack (box s)))\<rparr>"
    by (auto simp: p_load_def split: producer.splits)
  note I = mb_invD [OF inv]
  have "owned (prods s' j) = owned (prods s j)" for j by (simp add: s' p)
  then have "mb_own prio s' (set (st @ concat qs)) NP"
    using I(3) unfolding mb_own_def by (simp add: s')
  then show ?thesis
    using I unfolding mb_inv_def mb_hist_def mb_ctl_def s' by simp
qed

lemma mb_own_push:
  assumes "mb_own prio s inbox NP" and "prods s i = P_loaded a e" and "vals b = vals (box s)"
  shows "mb_own prio (s\<lparr>box := b, prods := (prods s)(i := P_idle), sent := x, unblocks := u\<rparr>)
     (insert a inbox) NP"
proof -
  have own: "a \<in> owned (prods s i)" using assms(2) by simp
  from mb_own_fresh [OF assms(1) own] own assms(1,3) show ?thesis
    unfolding mb_own_def by (auto split: if_splits)
qed

lemma p_cas_inv:
  assumes inv: "mb_inv prio NP s st qs" and step: "p_cas i s = Some s'"
  shows "\<exists>st'. mb_inv prio NP s' st' qs"
proof -
  from step obtain a e where p: "prods s i = P_loaded a e"
    by (auto simp: p_cas_def split: producer.splits)
  note I = mb_invD [OF inv]
  have own: "a \<in> owned (prods s i)" by (simp add: p)
  note F = mb_own_fresh [OF I(3) own]
  have a: "a \<notin> set st" "a \<notin> set (concat qs)" using F(2) by auto
  show ?thesis
  proof (cases "m_stack (box s) = e")
    case True
    let ?b = "(box s)\<lparr>nexts := (nexts (box s))(a := slot_ptr (m_stack (box s))), m_stack := Item a\<rparr>"
    have ne: "e \<noteq> Dummy_closed" using I(5) True unfolding mb_ctl_def by auto
    have s': "s' = s\<lparr>box := ?b, prods := (prods s)(i := P_idle), sent := sent s @ [vals (box s) a],
        unblocks := unblocks s + (if e = Dummy_blocked then 1 else 0)\<rparr>"
      using step p enqueue_cas_open [OF True ne, of a]
      by (cases "e = Dummy_blocked") (auto simp: p_cas_def)
    have "mbox_rep prio (box s') (a # st) qs"
      using mbox_rep_enqueue [OF I(2) a] F(3) I(1) s' by simp
    moreover have "mb_own prio s' (set ((a # st) @ concat qs)) NP"
      using mb_own_push [OF I(3) p] unfolding s' by simp
    moreover have "mb_hist prio s' (a # st) qs"
      using I(4) unfolding mb_hist_def s' by auto
    moreover have "mb_ctl s' qs"
      using I(5) True unfolding mb_ctl_def s' by auto
    ultimately show ?thesis using I(1) unfolding mb_inv_def by blast
  next
    case False
    show ?thesis
    proof (cases "e = Dummy_closed")
      case True
      have s': "s' = s\<lparr>prods := (prods s)(i := P_idle), live := live s - {a}\<rparr>"
        using step p True by (simp add: p_cas_def enqueue_cas_def)
      have "card (live s - {a}) \<le> card (live s)"
        using I(3) by (simp add: card_Diff1_le mb_own_def)
      then have "mb_own prio s' (set (st @ concat qs)) NP"
        using I(3) own F(2) unfolding mb_own_def s' by (auto split: if_splits)
      then have "mb_inv prio NP s' st qs"
        using I unfolding mb_inv_def mb_hist_def mb_ctl_def s' by simp
      then show ?thesis by blast
    next
      case ne: False
      let ?b = "(box s)\<lparr>nexts := (nexts (box s))(a := (if is_dummy e then None else slot_ptr e))\<rparr>"
      have s': "s' = s\<lparr>box := ?b, prods := (prods s)(i := P_new a)\<rparr>"
        using step p ne False by (simp add: p_cas_def enqueue_cas_def)
      have "owned (prods s' j) = owned (prods s j)" for j by (simp add: s' p)
      then have "mb_own prio s' (set (st @ concat qs)) NP"
        using I(3) unfolding mb_own_def by (simp add: s')
      moreover have "mbox_rep prio (box s') st qs"
        using mbox_rep_nexts_other [OF I(2) a] s' by simp
      ultimately have "mb_inv prio NP s' st qs"
        using I unfolding mb_inv_def mb_hist_def mb_ctl_def s' by simp
      then show ?thesis by blast
    qed
  qed
qed

lemma mb_own_pop:
  assumes "mb_own prio s (insert a inbox) NP" and "a \<notin> inbox" and "vals b = vals (box s)"
  shows "mb_own prio (s\<lparr>box := b, recvd := r, live := live s - {a}\<rparr>) inbox NP"
proof -
  have "card (live s - {a}) \<le> card (live s)"
    using assms(1) by (simp add: card_Diff1_le mb_own_def)
  with assms show ?thesis unfolding mb_own_def by auto
qed

lemma mb_hist_pop:
  assumes h: "mb_hist prio s st qs" and p: "p < length qs" "qs ! p = a # q"
    and v: "prio (vals (box s) a) = p" "vals b = vals (box s)"
  shows "mb_hist prio (s\<lparr>box := b, recvd := recvd s @ [vals (box s) a], live := l\<rparr>) st (qs[p := q])"
  unfolding mb_hist_def
proof (intro allI impI)
  fix i assume i: "i < length (qs[p := q])"
  then have "filter (\<lambda>m. prio m = i) (sent s) =
        filter (\<lambda>m. prio m = i) (recvd s) @ map (vals (box s)) (qs ! i) @
        filter (\<lambda>m. prio m = i) (map (vals (box s)) (rev st))"
    using h unfolding mb_hist_def by simp
  then show "filter (\<lambda>m. prio m = i) (sent (s\<lparr>box := b, recvd := recvd s @ [vals (box s) a], live := l\<rparr>)) =
        filter (\<lambda>m. prio m = i) (recvd (s\<lparr>box := b, recvd := recvd s @ [vals (box s) a], live := l\<rparr>)) @
        map (vals (box (s\<lparr>box := b, recvd := recvd s @ [vals (box s) a], live := l\<rparr>))) (qs[p := q] ! i) @
        filter (\<lambda>m. prio m = i) (map (vals (box (s\<lparr>box := b, recvd := recvd s @ [vals (box s) a], live := l\<rparr>))) (rev st))"
    using p v by (cases "i = p") auto
qed

lemma c_take_inv:
  assumes inv: "mb_inv prio NP s st qs" and step: "c_take s = Some s'"
  shows "\<exists>qs'. mb_inv prio NP s' st qs'"
proof -
  note I = mb_invD [OF inv]
  from step have c: "owner s = C_idle" "0 < m_num_inque (box s)"
    by (simp_all add: c_take_def split: if_splits)
  have ne: "concat qs \<noteq> []" using c(2) num_inque_pos [OF I(2)] by blast
  from take_private_rep [OF I(2) ne] obtain a b qs' where
    t: "take_private (box s) = Inr (a, b)" "pop_queues qs = Some (a, qs')" "mbox_rep prio b st qs'"
      "m_stack b = m_stack (box s)" "vals b = vals (box s)" by blast
  from pop_queues_some [OF t(2)] obtain p q where
    p: "p < length qs" "qs ! p = a # q" "qs' = qs[p := q]" by blast
  have s': "s' = s\<lparr>box := b, recvd := recvd s @ [vals (box s) a], live := live s - {a}\<rparr>"
    using step c t(1) by (simp add: c_take_def)
  have ms: "mset (st @ concat qs) = mset (a # st @ concat qs')"
    using mset_concat_pop [OF p(1,2)] p(3) by simp
  then have d: "a \<notin> set (st @ concat qs')"
    using mbox_distinct [OF I(2)] mset_eq_imp_distinct_iff [OF ms] by simp
  have sets: "set (st @ concat qs) = insert a (set (st @ concat qs'))"
    using mset_eq_setD [OF ms] by simp
  have "mb_own prio s' (set (st @ concat qs')) NP"
    using I(3) d t(5) unfolding s' sets by (rule mb_own_pop)
  moreover have "mb_hist prio s' st qs'"
    using priv_prio [OF mbox_priv [OF I(2)] p(1), of a] p(2) t(5)
    unfolding s' p(3) by (intro mb_hist_pop [OF I(4) p(1,2)]) simp_all
  moreover have "mb_ctl s' qs'"
    using I(5) c(1) t(4) ne unfolding mb_ctl_def s' by (simp del: concat_eq_Nil_conv)
  ultimately show ?thesis
    using I(1) t(3) p(3) s' unfolding mb_inv_def by (intro exI [of _ qs']) simp
qed

lemma mb_hist_grab:
  assumes h: "mb_hist prio s st qs" and e: "concat qs = []" and v: "vals b = vals (box s)"
  shows "mb_hist prio (s\<lparr>box := b, owner := c\<rparr>) []
     (distribute (\<lambda>a. prio (vals (box s) a)) st qs)"
proof -
  have "map (vals (box s)) (distribute (\<lambda>a. prio (vals (box s) a)) st qs ! p) =
      map (vals (box s)) (qs ! p) @ filter (\<lambda>m. prio m = p) (map (vals (box s)) (rev st))"
    if "p < length qs" for p
  proof -
    have "qs ! p = []" using that e nth_mem by fastforce
    with that show ?thesis by (simp add: distribute_nth filter_map comp_def rev_filter rev_map)
  qed
  with h v show ?thesis unfolding mb_hist_def by simp
qed

lemma mb_own_frame:
  assumes "mb_own prio s inbox NP" and "prods s' = prods s" and "live s' = live s"
    and "vals (box s') = vals (box s)"
  shows "mb_own prio s' inbox NP"
  using assms unfolding mb_own_def by simp

lemma inbox_length:
  assumes "mb_inv prio NP s st qs"
  shows "length st < 2 ^ 32"
proof -
  note I = mb_invD [OF assms]
  have "card (set st) \<le> card (live s)"
    using I(3) unfolding mb_own_def by (intro card_mono) auto
  moreover have "card (set st) = length st"
    using mbox_distinct [OF I(2)] by (simp add: distinct_card)
  ultimately show ?thesis using I(3) unfolding mb_own_def by linarith
qed

lemma set_concat_distribute:
  "\<forall>a\<in>set st. f a < length qs \<Longrightarrow> set (concat (distribute f st qs)) = set st \<union> set (concat qs)"
proof (induction st arbitrary: qs)
  case (Cons a st)
  then show ?case
    using set_concat_push [of "f a" qs a] by (simp del: set_concat)
qed simp

lemma c_grab_inv:
  assumes inv: "mb_inv prio NP s st qs" and step: "c_grab prio s = Some s'"
  shows "\<exists>st' qs'. mb_inv prio NP s' st' qs'"
proof -
  note I = mb_invD [OF inv]
  from step obtain e where o: "owner s = C_deq e"
    by (auto simp: c_grab_def split: consumer.splits)
  have e: "concat qs = []" and "\<not> is_dummy e" using I(5) o unfolding mb_ctl_def by simp_all
  then obtain a where a: "e = Item a" by (cases e) auto
  show ?thesis
  proof (cases "m_stack (box s) = e")
    case False
    then have s': "s' = s\<lparr>owner := C_load\<rparr>" using step o by (simp add: c_grab_def)
    have "mb_own prio s' (set (st @ concat qs)) NP"
      using I(3) by (rule mb_own_frame) (simp_all add: s')
    moreover have "mb_hist prio s' st qs" "mb_ctl s' qs"
      using I(4,5) e unfolding mb_hist_def mb_ctl_def s' by simp_all
    ultimately show ?thesis
      using I(1,2) s' unfolding mb_inv_def by (intro exI [of _ st] exI [of _ qs] conjI) simp_all
  next
    case True
    let ?qs = "distribute (\<lambda>a. prio (vals (box s) a)) st qs"
    have "m_stack (box s) = Item a" using True a by simp
    from dequeue_grab_rep [OF I(2) e this inbox_length [OF inv]] obtain b where
      b: "dequeue_grab prio e (box s) = Inr b" "mbox_rep prio b [] ?qs" "m_stack b = Dummy_empty"
        "vals b = vals (box s)" unfolding a by blast
    have s': "s' = s\<lparr>box := b, owner := C_idle\<rparr>"
      using step o True b(1) by (simp add: c_grab_def)
    have "set (concat ?qs) = set (st @ concat qs)"
      using set_concat_distribute [of st _ qs] mbox_prio [OF I(2)] by (simp del: set_concat)
    then have "mb_own prio s' (set ([] @ concat ?qs)) NP"
      using mb_own_frame [OF I(3), of s'] b(4) s' by simp
    moreover have "mb_hist prio s' [] ?qs" unfolding s' by (rule mb_hist_grab [OF I(4) e b(4)])
    moreover have "mb_ctl s' ?qs"
      using I(5) True a b(3) unfolding mb_ctl_def s' by simp
    ultimately show ?thesis
      using I(1) b(2) s' unfolding mb_inv_def by (intro exI [of _ "[]"] exI [of _ ?qs]) simp
  qed
qed

lemma mb_owner_step_inv:
  assumes inv: "mb_inv prio NP s st qs"
    and step: "c_begin c s = Some s' \<or> c_load s = Some s' \<or> c_blk_load s = Some s'"
  shows "mb_inv prio NP s' st qs"
proof -
  note I = mb_invD [OF inv]
  have num: "0 < m_num_inque (box s) \<longleftrightarrow> concat qs \<noteq> []" by (rule num_inque_pos [OF I(2)])
  from step obtain c where s': "s' = s\<lparr>owner := c\<rparr>"
    by (auto simp: c_begin_def c_load_def c_blk_load_def split: if_splits)
  have "mb_ctl s' qs"
    using step I(5) num unfolding mb_ctl_def
    by (auto simp: c_begin_def c_load_def c_blk_load_def is_dummy_iff split: if_splits)
  moreover have "mb_own prio s' (set (st @ concat qs)) NP"
    using I(3) by (rule mb_own_frame) (simp_all add: s')
  ultimately show ?thesis using I unfolding mb_inv_def mb_hist_def s' by simp
qed

lemma c_block_inv:
  assumes inv: "mb_inv prio NP s st qs" and step: "c_block s = Some s'"
  shows "mb_inv prio NP s' st qs"
proof -
  note I = mb_invD [OF inv]
  have "mbox_rep prio (box s') st qs"
    using step I(2) mbox_chain [OF I(2)] mbox_lastp [OF I(2)] mbox_priv [OF I(2)]
      mbox_distinct [OF I(2)] mbox_prio [OF I(2)]
    by (intro mbox_repI) (auto simp: c_block_def split: if_splits)
  moreover have "mb_own prio s' (set (st @ concat qs)) NP"
    using I(3) by (rule mb_own_frame) (use step in \<open>auto simp: c_block_def split: if_splits\<close>)
  moreover have "mb_hist prio s' st qs" "mb_ctl s' qs"
    using I(4,5) step unfolding mb_hist_def mb_ctl_def by (auto simp: c_block_def split: if_splits)
  ultimately show ?thesis using I(1) unfolding mb_inv_def by blast
qed

lemma mb_step_inv:
  assumes "mb_step prio NP s s'" and "mb_inv prio NP s st qs"
  shows "\<exists>st' qs'. mb_inv prio NP s' st' qs'"
  using assms
proof (cases rule: mb_step.cases)
  case new
  show ?thesis using p_new_inv [OF assms(2) new] by blast
next
  case load
  show ?thesis using p_load_inv [OF assms(2) load] by blast
next
  case cas
  show ?thesis using p_cas_inv [OF assms(2) cas] by blast
next
  case take
  show ?thesis using c_take_inv [OF assms(2) take] by blast
next
  case grab
  show ?thesis using c_grab_inv [OF assms(2) grab] by blast
next
  case block
  show ?thesis using c_block_inv [OF assms(2) block] by blast
qed (use mb_owner_step_inv [OF assms(2)] in blast)+

definition mb_reach ::
  "('m \<Rightarrow> nat) \<Rightarrow> nat \<Rightarrow> nat \<Rightarrow> (addr \<Rightarrow> addr option) \<Rightarrow> (addr \<Rightarrow> 'm) \<Rightarrow> 'm mb_sys \<Rightarrow> bool" where
  "mb_reach prio NP junk nx vl s \<longleftrightarrow> (mb_step prio NP)\<^sup>*\<^sup>* (mb_init NP junk nx vl) s"

lemma mb_reach_inv:
  assumes "mb_reach prio NP junk nx vl s"
  shows "\<exists>st qs. mb_inv prio NP s st qs"
  using assms unfolding mb_reach_def
proof (induction rule: rtranclp_induct)
  case base
  show ?case using mb_init_inv by blast
next
  case (step s s')
  then show ?case using mb_step_inv by blast
qed

section \<open>Schedules\<close>

text \<open>A schedule names the thread and the step; running one gives a reachable state.\<close>

datatype 'm mb_act =
  Act_new nat addr 'm | Act_load nat | Act_cas nat | Act_take | Act_begin consumer
  | Act_dload | Act_grab | Act_bload | Act_block

fun mb_exec :: "('m \<Rightarrow> nat) \<Rightarrow> nat \<Rightarrow> 'm mb_act \<Rightarrow> 'm mb_sys \<Rightarrow> 'm mb_sys option" where
  "mb_exec prio NP (Act_new i a m) s = p_new prio NP i a m s"
| "mb_exec prio NP (Act_load i) s = p_load i s"
| "mb_exec prio NP (Act_cas i) s = p_cas i s"
| "mb_exec prio NP Act_take s = c_take s"
| "mb_exec prio NP (Act_begin c) s = c_begin c s"
| "mb_exec prio NP Act_dload s = c_load s"
| "mb_exec prio NP Act_grab s = c_grab prio s"
| "mb_exec prio NP Act_bload s = c_blk_load s"
| "mb_exec prio NP Act_block s = c_block s"

fun mb_run :: "('m \<Rightarrow> nat) \<Rightarrow> nat \<Rightarrow> 'm mb_act list \<Rightarrow> 'm mb_sys \<Rightarrow> 'm mb_sys option" where
  "mb_run prio NP [] s = Some s"
| "mb_run prio NP (l # ls) s =
     (case mb_exec prio NP l s of None \<Rightarrow> None | Some s' \<Rightarrow> mb_run prio NP ls s')"

lemma mb_exec_step: "mb_exec prio NP l s = Some s' \<Longrightarrow> mb_step prio NP s s'"
  by (cases l) (auto intro: mb_step.intros)

lemma mb_run_steps: "mb_run prio NP ls s = Some s' \<Longrightarrow> (mb_step prio NP)\<^sup>*\<^sup>* s s'"
proof (induction ls arbitrary: s)
  case (Cons l ls)
  then obtain s1 where "mb_exec prio NP l s = Some s1" "mb_run prio NP ls s1 = Some s'"
    by (auto split: option.splits)
  then show ?case using Cons.IH mb_exec_step by (metis converse_rtranclp_into_rtranclp)
qed simp

lemma mb_run_reach:
  "mb_run prio NP ls (mb_init NP junk nx vl) = Some s \<Longrightarrow> mb_reach prio NP junk nx vl s"
  unfolding mb_reach_def by (rule mb_run_steps)

lemmas mb_run_simps =
  mb_init_def Mailbox_new_def p_new_def p_load_def p_cas_def c_take_def c_begin_def c_load_def
  c_grab_def c_blk_load_def c_block_def enqueue_cas_def dequeue_grab_def transfer.simps
  take_private.simps

section \<open>Properties\<close>

text \<open>
  C1.  Whatever the interleaving of any number of senders with the owner, the messages of a priority
  come out of the mailbox in the order in which their senders' compare-and-swaps succeeded: what was
  received at a priority is a prefix of what was sent at it, so nothing is lost, duplicated or
  overtaken; and when the owner finds the mailbox empty, everything sent has been received.
\<close>

theorem mailbox_fifo:
  assumes "mb_reach prio NP junk nx vl s" and "p < NP"
  shows "prefix (filter (\<lambda>m. prio m = p) (recvd s)) (filter (\<lambda>m. prio m = p) (sent s)) \<and>
    (m_num_inque (box s) = 0 \<and> is_dummy (m_stack (box s)) \<longrightarrow>
       filter (\<lambda>m. prio m = p) (recvd s) = filter (\<lambda>m. prio m = p) (sent s))"
proof -
  obtain st qs where inv: "mb_inv prio NP s st qs" using mb_reach_inv [OF assms(1)] by blast
  note I = mb_invD [OF inv]
  have eq: "filter (\<lambda>m. prio m = p) (sent s) =
        filter (\<lambda>m. prio m = p) (recvd s) @ map (vals (box s)) (qs ! p) @
        filter (\<lambda>m. prio m = p) (map (vals (box s)) (rev st))"
    using I(1,4) assms(2) unfolding mb_hist_def by blast
  have "qs ! p = [] \<and> st = []" if "m_num_inque (box s) = 0" "is_dummy (m_stack (box s))"
  proof
    have "concat qs = []" using num_inque_pos [OF I(2)] that(1) by simp
    then show "qs ! p = []" using assms(2) I(1) nth_mem by fastforce
    show "st = []"
      using mbox_chain [OF I(2)] that(2) by (cases "m_stack (box s)") (simp_all add: chain_None)
  qed
  with eq show ?thesis by (auto simp: prefix_def)
qed

theorem mailbox_fifo_witness:
  "\<exists>s. mb_run (\<lambda>m. m mod 2) 2
      [Act_new 0 10 4, Act_new 1 11 6, Act_load 0, Act_load 1, Act_cas 1, Act_cas 0, Act_load 0,
       Act_cas 0, Act_begin C_load, Act_dload, Act_grab, Act_take]
      (mb_init 2 0 (\<lambda>_. None) (\<lambda>_. 0)) = Some s \<and>
     recvd s = [6] \<and> sent s = [6, 4 :: nat] \<and>
     prefix (filter (\<lambda>m. m mod 2 = 0) (recvd s)) (filter (\<lambda>m. m mod 2 = 0) (sent s))"
  (is "\<exists>s. ?run = Some s \<and> _")
proof -
  have "?run \<noteq> None" by (simp add: mb_run_simps)
  then obtain s where s: "?run = Some s" by blast
  moreover have "recvd s = [6]" "sent s = [6, 4]" using s by (auto simp: mb_run_simps)
  ultimately show ?thesis
    using mailbox_fifo [OF mb_run_reach [OF s], of 0] by auto
qed

text \<open>
  C4.  No interleaving makes the owner fault, and the mailbox hands out exactly one scheduling token
  per blocked period: the number of senders that were told \<open>MAILBOX_UNBLOCKED\<close> is the number of
  successful \<open>try_block\<close>s, plus one while the mailbox is not blocked.  A blocked mailbox has no
  message in its private queues and none on its stack.  So an actor is never scheduled twice at a
  time and never left unscheduled with messages pending.
\<close>

theorem mailbox_token:
  assumes "mb_reach prio NP junk nx vl s"
  shows "crashed s = None \<and>
    unblocks s = blocks s + (if m_stack (box s) = Dummy_blocked then 0 else 1) \<and>
    (m_stack (box s) = Dummy_blocked \<longrightarrow> m_num_inque (box s) = 0)"
proof -
  obtain st qs where inv: "mb_inv prio NP s st qs" using mb_reach_inv [OF assms] by blast
  note I = mb_invD [OF inv]
  have "m_num_inque (box s) = 0" if "m_stack (box s) = Dummy_blocked"
    using that I(5) num_inque_pos [OF I(2)] unfolding mb_ctl_def by (metis word_neq_0_conv)
  then show ?thesis using I(5) unfolding mb_ctl_def by blast
qed

theorem mailbox_token_witness:
  "\<exists>s. mb_run (\<lambda>_. 0) 1
      [Act_new 0 10 4, Act_load 0, Act_cas 0, Act_begin C_load, Act_dload, Act_grab, Act_take,
       Act_begin C_blk_load, Act_bload, Act_block]
      (mb_init 1 0 (\<lambda>_. None) (\<lambda>_. 0 :: nat)) = Some s \<and>
     blocks s = 1 \<and> unblocks s = 1 \<and> m_num_inque (box s) = 0"
  (is "\<exists>s. ?run = Some s \<and> _")
proof -
  have "?run \<noteq> None" by (simp add: mb_run_simps)
  then obtain s where s: "?run = Some s" by blast
  moreover have "blocks s = 1" "m_stack (box s) = Dummy_blocked" using s by (auto simp: mb_run_simps)
  ultimately show ?thesis
    using mailbox_token [OF mb_run_reach [OF s]] by auto
qed

end
