(* ===== verification/Linked_Queue.thy ===== *)
theory Linked_Queue
  imports Prelude "HOL-Library.Sublist"
begin

text \<open>
  \<open>ConcurrentLinkedQueue\<close> of \<open>include/mola/queue.hpp\<close>: a linked list with a dummy first node, a
  head and a tail pointer, and threads that run \<open>enqueue\<close>, \<open>dequeue\<close> and \<open>first\<close> concurrently.
  Each load, store and compare-and-swap of a shared location is one step.  Nodes are never deleted
  while the queue lives, so \<open>new\<close> returns an address never used before.

  The ghost fields are the list of the nodes ever linked, the values in the order their
  \<open>cas_next\<close> succeeded, and the values in the order the head moved past them.
\<close>

section \<open>Threads\<close>

text \<open>
  A thread is idle or at a program point of one of the operations, with the values of its local
  variables.  \<open>D_load\<close> to \<open>D_help\<close> are the common part of \<open>dequeue\<close> and \<open>first\<close>; the flag tells
  which of the two is running.  \<open>D_check\<close> and \<open>Done_null\<close> carry as a ghost whether the queue was empty when
  \<open>h->next\<close> was read; \<open>D_item\<close> and \<open>D_clear\<close> carry the item the head moved past.
\<close>

datatype op = Dequeue | First

datatype 'v pc =
    Idle
  | E_load addr
  | E_next addr addr
  | E_check addr addr "addr option"
  | E_cas addr addr
  | E_help addr addr addr
  | E_swing addr addr
  | D_load op
  | D_tail op addr
  | D_next op addr addr
  | D_check op addr addr "addr option" bool
  | D_help op addr addr
  | D_cas addr "addr option"
  | D_item addr "'v option"
  | D_clear addr 'v "'v option"
  | F_item addr "addr option"
  | F_cas addr addr
  | Done_null bool
  | Done_item 'v
  | Done_node addr

record 'v clq =
  m_head :: addr
  m_tail :: addr
  next_of :: "addr \<Rightarrow> addr option"
  item_of :: "addr \<Rightarrow> 'v option"
  thr :: "nat \<Rightarrow> 'v pc"
  linked :: "addr list"
  used :: "addr set"
  enqd :: "'v list"
  deqd :: "'v list"
  clq_fault :: bool

definition clq_init :: "addr \<Rightarrow> (addr \<Rightarrow> addr option) \<Rightarrow> (addr \<Rightarrow> 'v option) \<Rightarrow> 'v clq" where
  "clq_init a nx it =
     \<lparr>m_head = a, m_tail = a, next_of = nx(a := None), item_of = it(a := None), thr = (\<lambda>_. Idle),
      linked = [a], used = {a}, enqd = [], deqd = [], clq_fault = False\<rparr>"

abbreviation goto :: "nat \<Rightarrow> 'v pc \<Rightarrow> 'v clq \<Rightarrow> 'v clq" where
  "goto i p s \<equiv> s\<lparr>thr := (thr s)(i := p)\<rparr>"

text \<open>
  \<open>enqueue\<close> with a null item returns at once and changes nothing; with an item it allocates the
  node.
\<close>

definition enq_new :: "nat \<Rightarrow> addr \<Rightarrow> 'v \<Rightarrow> 'v clq \<Rightarrow> 'v clq option" where
  "enq_new i n v s =
     (if thr s i = Idle \<and> n \<notin> used s
      then Some (goto i (E_load n)
             (s\<lparr>next_of := (next_of s)(n := None), item_of := (item_of s)(n := Some v),
                used := insert n (used s)\<rparr>))
      else None)"

definition enq_step :: "nat \<Rightarrow> 'v clq \<Rightarrow> 'v clq option" where
  "enq_step i s =
     (case thr s i of
        E_load n \<Rightarrow> Some (goto i (E_next n (m_tail s)) s)
      | E_next n t \<Rightarrow> Some (goto i (E_check n t (next_of s t)) s)
      | E_check n t sx \<Rightarrow>
          Some (goto i (if t = m_tail s
                        then (case sx of None \<Rightarrow> E_cas n t | Some x \<Rightarrow> E_help n t x)
                        else E_load n) s)
      | E_cas n t \<Rightarrow>
          Some (if next_of s t = None
                then goto i (E_swing n t)
                       (s\<lparr>next_of := (next_of s)(t := Some n), linked := linked s @ [n],
                          enqd := enqd s @ [the (item_of s n)]\<rparr>)
                else goto i (E_load n) s)
      | E_help n t x \<Rightarrow>
          Some (goto i (E_load n) (if m_tail s = t then s\<lparr>m_tail := x\<rparr> else s))
      | E_swing n t \<Rightarrow>
          Some (goto i Idle (if m_tail s = t then s\<lparr>m_tail := n\<rparr> else s))
      | _ \<Rightarrow> None)"

definition deq_begin :: "nat \<Rightarrow> op \<Rightarrow> 'v clq \<Rightarrow> 'v clq option" where
  "deq_begin i m s = (if thr s i = Idle then Some (goto i (D_load m) s) else None)"

definition deq_step :: "nat \<Rightarrow> 'v clq \<Rightarrow> 'v clq option" where
  "deq_step i s =
     (case thr s i of
        D_load m \<Rightarrow> Some (goto i (D_tail m (m_head s)) s)
      | D_tail m h \<Rightarrow> Some (goto i (D_next m h (m_tail s)) s)
      | D_next m h t \<Rightarrow>
          Some (goto i (D_check m h t (next_of s h) (next_of s (m_head s) = None)) s)
      | D_check m h t f e \<Rightarrow>
          Some (goto i (if h \<noteq> m_head s then D_load m
                        else if h = t
                             then (case f of None \<Rightarrow> Done_null e | Some x \<Rightarrow> D_help m t x)
                             else (case m of Dequeue \<Rightarrow> D_cas h f | First \<Rightarrow> F_item h f)) s)
      | D_help m t x \<Rightarrow>
          Some (goto i (D_load m) (if m_tail s = t then s\<lparr>m_tail := x\<rparr> else s))
      | D_cas h f \<Rightarrow>
          Some (if m_head s = h
                then (case f of
                        None \<Rightarrow> s\<lparr>clq_fault := True\<rparr>
                      | Some x \<Rightarrow>
                          goto i (D_item x (item_of s x))
                            (s\<lparr>m_head := x,
                               deqd := deqd s @ (case item_of s x of None \<Rightarrow> [] | Some v \<Rightarrow> [v])\<rparr>))
                else goto i (D_load Dequeue) s)
      | D_item x g \<Rightarrow>
          Some (goto i (case item_of s x of None \<Rightarrow> D_load Dequeue | Some w \<Rightarrow> D_clear x w g) s)
      | D_clear x w g \<Rightarrow>
          Some (goto i (Done_item w) (s\<lparr>item_of := (item_of s)(x := None)\<rparr>))
      | F_item h f \<Rightarrow>
          Some (case f of
                  None \<Rightarrow> s\<lparr>clq_fault := True\<rparr>
                | Some x \<Rightarrow> goto i (if item_of s x \<noteq> None then Done_node x else F_cas h x) s)
      | F_cas h x \<Rightarrow>
          Some (goto i (D_load First) (if m_head s = h then s\<lparr>m_head := x\<rparr> else s))
      | _ \<Rightarrow> None)"

definition op_return :: "nat \<Rightarrow> 'v clq \<Rightarrow> 'v clq option" where
  "op_return i s =
     (case thr s i of
        Done_null e \<Rightarrow> Some (goto i Idle s)
      | Done_item v \<Rightarrow> Some (goto i Idle s)
      | Done_node x \<Rightarrow> Some (goto i Idle s)
      | _ \<Rightarrow> None)"

inductive clq_step :: "'v clq \<Rightarrow> 'v clq \<Rightarrow> bool" where
  new: "enq_new i n v s = Some s' \<Longrightarrow> clq_step s s'"
| enq: "enq_step i s = Some s' \<Longrightarrow> clq_step s s'"
| deq_new: "deq_begin i m s = Some s' \<Longrightarrow> clq_step s s'"
| deq: "deq_step i s = Some s' \<Longrightarrow> clq_step s s'"
| ret: "op_return i s = Some s' \<Longrightarrow> clq_step s s'"

section \<open>The invariant\<close>

definition occurs :: "addr list \<Rightarrow> addr \<Rightarrow> nat \<Rightarrow> bool" where
  "occurs ns a k \<longleftrightarrow> k < length ns \<and> ns ! k = a"

text \<open>
  What a program point knows of the positions of its local nodes in the list of linked nodes, when
  head and tail stand at positions \<open>hi\<close> and \<open>ti\<close>.
\<close>

fun loc :: "addr list \<Rightarrow> nat \<Rightarrow> nat \<Rightarrow> 'v pc \<Rightarrow> bool" where
  "loc ns hi ti (E_next n t) \<longleftrightarrow> (\<exists>k\<le>ti. occurs ns t k)"
| "loc ns hi ti (E_check n t sx) \<longleftrightarrow>
     (\<exists>k\<le>ti. occurs ns t k \<and> (\<forall>x. sx = Some x \<longrightarrow> occurs ns x (Suc k)))"
| "loc ns hi ti (E_cas n t) \<longleftrightarrow> (\<exists>k\<le>ti. occurs ns t k)"
| "loc ns hi ti (E_help n t x) \<longleftrightarrow> (\<exists>k. occurs ns t k \<and> occurs ns x (Suc k))"
| "loc ns hi ti (E_swing n t) \<longleftrightarrow> (\<exists>k. occurs ns t k \<and> occurs ns n (Suc k))"
| "loc ns hi ti (D_tail m h) \<longleftrightarrow> (\<exists>k\<le>hi. occurs ns h k)"
| "loc ns hi ti (D_next m h t) \<longleftrightarrow>
     (\<exists>k j. k \<le> hi \<and> k \<le> j \<and> j \<le> ti \<and> occurs ns h k \<and> occurs ns t j)"
| "loc ns hi ti (D_check m h t f e) \<longleftrightarrow>
     (\<exists>k j. k \<le> hi \<and> k \<le> j \<and> j \<le> ti \<and> occurs ns h k \<and> occurs ns t j \<and>
        (f = None \<longrightarrow> k = j \<and> (k = hi \<longrightarrow> e)) \<and> (\<forall>x. f = Some x \<longrightarrow> occurs ns x (Suc k)))"
| "loc ns hi ti (D_help m t x) \<longleftrightarrow> (\<exists>k. occurs ns t k \<and> occurs ns x (Suc k))"
| "loc ns hi ti (D_cas h f) \<longleftrightarrow>
     (\<exists>k x. f = Some x \<and> Suc k \<le> ti \<and> occurs ns h k \<and> occurs ns x (Suc k))"
| "loc ns hi ti (D_item x g) \<longleftrightarrow> (\<exists>k\<le>hi. occurs ns x k) \<and> g \<noteq> None"
| "loc ns hi ti (D_clear x w g) \<longleftrightarrow> (\<exists>k\<le>hi. occurs ns x k) \<and> g = Some w"
| "loc ns hi ti (F_item h f) \<longleftrightarrow> (\<exists>k x. f = Some x \<and> occurs ns h k \<and> occurs ns x (Suc k))"
| "loc ns hi ti (F_cas h x) \<longleftrightarrow> (\<exists>k. Suc k \<le> hi \<and> occurs ns h k \<and> occurs ns x (Suc k))"
| "loc ns hi ti (Done_null e) \<longleftrightarrow> e"
| "loc ns hi ti _ \<longleftrightarrow> True"

fun fresh_node :: "'v pc \<Rightarrow> addr option" where
  "fresh_node (E_load n) = Some n"
| "fresh_node (E_next n t) = Some n"
| "fresh_node (E_check n t sx) = Some n"
| "fresh_node (E_cas n t) = Some n"
| "fresh_node (E_help n t x) = Some n"
| "fresh_node _ = None"

fun taken_node :: "'v pc \<Rightarrow> addr option" where
  "taken_node (D_item x g) = Some x"
| "taken_node (D_clear x w g) = Some x"
| "taken_node _ = None"

definition list_ok :: "'v clq \<Rightarrow> nat \<Rightarrow> nat \<Rightarrow> bool" where
  "list_ok s hi ti \<longleftrightarrow>
     distinct (linked s) \<and> set (linked s) \<subseteq> used s \<and> \<not> clq_fault s \<and> hi \<le> ti \<and>
     occurs (linked s) (m_head s) hi \<and> occurs (linked s) (m_tail s) ti \<and>
     (\<forall>k<length (linked s). next_of s (linked s ! k) =
        (if Suc k < length (linked s) then Some (linked s ! Suc k) else None)) \<and>
     (\<forall>k<length (linked s). hi < k \<longrightarrow> item_of s (linked s ! k) \<noteq> None) \<and>
     enqd s = deqd s @ map (\<lambda>a. the (item_of s a)) (drop (Suc hi) (linked s))"

definition fresh_ok :: "'v clq \<Rightarrow> bool" where
  "fresh_ok s \<longleftrightarrow>
     (\<forall>i n. fresh_node (thr s i) = Some n \<longrightarrow>
        n \<in> used s \<and> n \<notin> set (linked s) \<and> item_of s n \<noteq> None \<and> next_of s n = None) \<and>
     (\<forall>i j n. fresh_node (thr s i) = Some n \<longrightarrow> fresh_node (thr s j) = Some n \<longrightarrow> i = j)"

definition taken_ok :: "'v clq \<Rightarrow> bool" where
  "taken_ok s \<longleftrightarrow>
     (\<forall>i x g. thr s i = D_item x g \<longrightarrow> item_of s x = g) \<and>
     (\<forall>i j x. taken_node (thr s i) = Some x \<longrightarrow> taken_node (thr s j) = Some x \<longrightarrow> i = j)"

definition clq_inv :: "'v clq \<Rightarrow> nat \<Rightarrow> nat \<Rightarrow> bool" where
  "clq_inv s hi ti \<longleftrightarrow>
     list_ok s hi ti \<and> fresh_ok s \<and> taken_ok s \<and> (\<forall>i. loc (linked s) hi ti (thr s i))"

lemma occurs_append: "occurs ns a k \<Longrightarrow> occurs (ns @ ms) a k"
  by (simp add: occurs_def nth_append)

lemma occurs_unique: "distinct ns \<Longrightarrow> occurs ns a k \<Longrightarrow> occurs ns a j \<Longrightarrow> k = j"
  by (auto simp: occurs_def nth_unique_index)

lemma occurs_same: "occurs ns a k \<Longrightarrow> occurs ns b k \<Longrightarrow> a = b"
  by (simp add: occurs_def)

lemma loc_mono:
  assumes "loc ns hi ti p" and "hi \<le> hi'" and "ti \<le> ti'"
  shows "loc (ns @ ms) hi' ti' p"
  using assms
proof (cases p)
  case (D_check m h t f e)
  from assms(1) obtain k j where "k \<le> hi" "k \<le> j" "j \<le> ti" "occurs ns h k" "occurs ns t j"
    "f = None \<longrightarrow> k = j \<and> (k = hi \<longrightarrow> e)" "\<forall>x. f = Some x \<longrightarrow> occurs ns x (Suc k)"
    unfolding D_check by auto
  with assms(2,3) show ?thesis
    unfolding D_check loc.simps by (intro exI [of _ k] exI [of _ j]) (auto intro: occurs_append)
qed (auto intro!: occurs_append; (meson le_trans occurs_append))+

lemma list_okD:
  assumes "list_ok s hi ti"
  shows "distinct (linked s)" and "set (linked s) \<subseteq> used s" and "\<not> clq_fault s" and "hi \<le> ti"
    and "occurs (linked s) (m_head s) hi" and "occurs (linked s) (m_tail s) ti"
    and "\<And>a k. occurs (linked s) a k \<Longrightarrow> next_of s a =
        (if Suc k < length (linked s) then Some (linked s ! Suc k) else None)"
    and "\<And>a k. occurs (linked s) a k \<Longrightarrow> hi < k \<Longrightarrow> item_of s a \<noteq> None"
    and "enqd s = deqd s @ map (\<lambda>a. the (item_of s a)) (drop (Suc hi) (linked s))"
  using assms unfolding list_ok_def occurs_def by blast+

lemma next_occurs:
  assumes "list_ok s hi ti" and "occurs (linked s) a k"
  shows "next_of s a = Some b \<longleftrightarrow> occurs (linked s) b (Suc k)"
    and "next_of s a = None \<longleftrightarrow> Suc k = length (linked s)"
  using list_okD(7) [OF assms] assms(2) by (auto simp: occurs_def)

lemma clq_init_inv: "clq_inv (clq_init a nx it) 0 0"
  by (simp add: clq_inv_def clq_init_def list_ok_def fresh_ok_def taken_ok_def occurs_def)

lemma clq_invD:
  assumes "clq_inv s hi ti"
  shows "list_ok s hi ti" and "fresh_ok s" and "taken_ok s" and "loc (linked s) hi ti (thr s i)"
  using assms unfolding clq_inv_def by blast+

lemma clq_inv_goto:
  assumes inv: "clq_inv s hi ti" and "loc (linked s) hi ti p"
    and "fresh_node p = None \<or> fresh_node p = fresh_node (thr s i)"
    and "taken_node p = None \<or> taken_node p = taken_node (thr s i)"
    and "\<And>x g. p = D_item x g \<Longrightarrow> item_of s x = g"
  shows "clq_inv (goto i p s) hi ti"
proof -
  note I = clq_invD [OF inv]
  have f: "fresh_node (thr s j) = Some n" if "fresh_node (((thr s)(i := p)) j) = Some n" for j n
    using that assms(3) by (cases "j = i") auto
  have t: "taken_node (thr s j) = Some n" if "taken_node (((thr s)(i := p)) j) = Some n" for j n
    using that assms(4) by (cases "j = i") auto
  have d: "item_of s x = g" if "((thr s)(i := p)) j = D_item x g" for j x g
    using that assms(5) I(3) unfolding taken_ok_def by (cases "j = i") auto
  have "list_ok (goto i p s) hi ti" using I(1) unfolding list_ok_def by simp
  moreover have "fresh_ok (goto i p s)"
    using I(2) f unfolding fresh_ok_def by (simp del: fun_upd_apply) blast
  moreover have "taken_ok (goto i p s)"
    using I(3) t d unfolding taken_ok_def by (simp del: fun_upd_apply)
  moreover have "loc (linked s) hi ti (thr (goto i p s) j)" for j
    using I(4) assms(2) by simp
  ultimately show ?thesis unfolding clq_inv_def by simp
qed

lemma clq_inv_tail:
  assumes inv: "clq_inv s hi ti" and "m_tail s = t"
    and "occurs (linked s) t k" and "occurs (linked s) x (Suc k)"
  shows "clq_inv (s\<lparr>m_tail := x\<rparr>) hi (Suc ti)"
proof -
  note I = clq_invD [OF inv]
  have "k = ti"
    using occurs_unique [OF list_okD(1) [OF I(1)] assms(3), of ti] list_okD(6) [OF I(1)] assms(2) by simp
  then have "list_ok (s\<lparr>m_tail := x\<rparr>) hi (Suc ti)"
    using I(1) assms(4) unfolding list_ok_def by simp
  moreover have "loc (linked s) hi (Suc ti) (thr s j)" for j
    using loc_mono [OF I(4), of hi "Suc ti" "[]"] by simp
  ultimately show ?thesis
    using I(2,3) unfolding clq_inv_def fresh_ok_def taken_ok_def by simp
qed

lemma clq_inv_head:
  assumes inv: "clq_inv s hi ti" and pc: "thr s i = D_cas h (Some x)" and h: "m_head s = h"
  shows "clq_inv (goto i (D_item x (item_of s x)) (s\<lparr>m_head := x,
      deqd := deqd s @ (case item_of s x of None \<Rightarrow> [] | Some v \<Rightarrow> [v])\<rparr>)) (Suc hi) ti"
    (is "clq_inv (goto i ?p ?s) _ _")
proof -
  note I = clq_invD [OF inv]
  note L = list_okD [OF I(1)]
  from I(4) [of i] pc obtain k where k: "Suc k \<le> ti" "occurs (linked s) h k" "occurs (linked s) x (Suc k)"
    by auto
  have hi: "k = hi" using occurs_unique [OF L(1) k(2)] L(5) h by simp
  obtain v where v: "item_of s x = Some v" using L(8) [OF k(3)] hi by auto
  have "drop (Suc hi) (linked s) = x # drop (Suc (Suc hi)) (linked s)"
    using k(3) hi take_Suc_drop_nth [of "Suc hi" "linked s"] by (simp add: occurs_def)
  then have "list_ok (goto i ?p ?s) (Suc hi) ti"
    using I(1) k hi v unfolding list_ok_def by simp
  moreover have "fresh_ok (goto i ?p ?s)"
    using I(2) unfolding fresh_ok_def by (simp add: fun_upd_apply)
  moreover have "taken_ok (goto i ?p ?s)"
  proof -
    have "taken_node (thr s j) \<noteq> Some x" for j
    proof
      assume "taken_node (thr s j) = Some x"
      then obtain k' where "k' \<le> hi" "occurs (linked s) x k'" using I(4) [of j]
        by (cases "thr s j") auto
      then show False using occurs_unique [OF L(1) k(3)] hi by fastforce
    qed
    then show ?thesis using I(3) unfolding taken_ok_def by (auto simp: fun_upd_apply)
  qed
  moreover have "loc (linked s) (Suc hi) ti (thr (goto i ?p ?s) j)" for j
    using loc_mono [OF I(4) [of j], of "Suc hi" ti "[]"] k(3) hi v by auto
  ultimately show ?thesis unfolding clq_inv_def by simp
qed

lemma clq_inv_link:
  assumes inv: "clq_inv s hi ti" and pc: "thr s i = E_cas n t" and t: "next_of s t = None"
  shows "clq_inv (goto i (E_swing n t) (s\<lparr>next_of := (next_of s)(t := Some n),
      linked := linked s @ [n], enqd := enqd s @ [the (item_of s n)]\<rparr>)) hi ti"
    (is "clq_inv (goto i ?p ?s) _ _")
proof -
  note I = clq_invD [OF inv]
  note L = list_okD [OF I(1)]
  from I(4) [of i] pc obtain k where k: "k \<le> ti" "occurs (linked s) t k" by auto
  have last: "Suc k = length (linked s)" using next_occurs(2) [OF I(1) k(2)] t by simp
  have fn: "fresh_node (thr s i) = Some n" using pc by simp
  have n: "n \<in> used s" "n \<notin> set (linked s)" "item_of s n \<noteq> None" "next_of s n = None"
    using I(2) fn unfolding fresh_ok_def by blast+
  have nt: "n \<noteq> t" using n(2) k(2) by (auto simp: occurs_def)
  have "list_ok (goto i ?p ?s) hi ti"
  proof -
    have "next_of ?s (linked ?s ! j) =
        (if Suc j < length (linked ?s) then Some (linked ?s ! Suc j) else None)"
      if "j < length (linked ?s)" for j
    proof -
      consider "j < k" | "j = k" | "j = Suc k" using \<open>j < length (linked ?s)\<close> last by force
      then show ?thesis
      proof cases
        case 1
        then have "linked s ! j \<noteq> t"
          using k(2) last nth_unique_index [OF L(1), of j k] by (auto simp: occurs_def)
        with 1 show ?thesis
          using L(7) [of "linked s ! j" j] last by (simp add: occurs_def nth_append)
      qed (use k(2) last n nt in \<open>simp_all add: occurs_def nth_append\<close>)
    qed
    moreover have "item_of s (linked ?s ! j) \<noteq> None" if "j < length (linked ?s)" "hi < j" for j
      using that L(8) [of "linked s ! j" j] n(3) by (auto simp: occurs_def nth_append less_Suc_eq)
    moreover have "Suc hi \<le> length (linked s)" using L(5) by (simp add: occurs_def)
    ultimately show ?thesis
      using L(1-6,9) n unfolding list_ok_def by (auto intro: occurs_append)
  qed
  moreover have "fresh_ok (goto i ?p ?s)"
  proof -
    have "m \<noteq> n" if "fresh_node (thr s j) = Some m" "j \<noteq> i" for j m
      using that I(2) fn unfolding fresh_ok_def by blast
    moreover have "m \<noteq> t" if "fresh_node (thr s j) = Some m" for j m
      using that I(2) k(2) nth_mem unfolding fresh_ok_def occurs_def by blast
    ultimately show ?thesis using I(2) unfolding fresh_ok_def by (simp add: fun_upd_apply)
  qed
  moreover have "taken_ok (goto i ?p ?s)"
    using I(3) unfolding taken_ok_def by (simp add: fun_upd_apply)
  moreover have "loc (linked s @ [n]) hi ti (thr (goto i ?p ?s) j)" for j
    using loc_mono [OF I(4) [of j], of hi ti "[n]"] k last
    by (auto simp: occurs_def nth_append)
  ultimately show ?thesis unfolding clq_inv_def by simp
qed

lemma clq_inv_clear:
  assumes inv: "clq_inv s hi ti" and pc: "thr s i = D_clear x w g"
  shows "clq_inv (goto i (Done_item w) (s\<lparr>item_of := (item_of s)(x := None)\<rparr>)) hi ti"
    (is "clq_inv (goto i ?p ?s) _ _")
proof -
  note I = clq_invD [OF inv]
  note L = list_okD [OF I(1)]
  from I(4) [of i] pc obtain k where k: "k \<le> hi" "occurs (linked s) x k" by auto
  have tn: "taken_node (thr s i) = Some x" using pc by simp
  have ne: "linked s ! j \<noteq> x" if "j < length (linked s)" "hi < j" for j
    using that k occurs_unique [OF L(1) k(2), of j] by (auto simp: occurs_def)
  then have "x \<notin> set (drop (Suc hi) (linked s))"
    by (auto simp: in_set_conv_nth)
  then have "list_ok (goto i ?p ?s) hi ti"
    using I(1) ne unfolding list_ok_def by auto
  moreover have "fresh_ok (goto i ?p ?s)"
  proof -
    have "n \<noteq> x" if "fresh_node (thr s j) = Some n" for j n
      using that I(2) k(2) nth_mem unfolding fresh_ok_def occurs_def by blast
    then show ?thesis using I(2) unfolding fresh_ok_def by (simp add: fun_upd_apply)
  qed
  moreover have "taken_ok (goto i ?p ?s)"
  proof -
    have "y \<noteq> x" if "taken_node (thr s j) = Some y" "j \<noteq> i" for j y
      using that I(3) tn unfolding taken_ok_def by blast
    then have "y \<noteq> x" if "thr s j = D_item y g" "j \<noteq> i" for j y g
      using that by force
    then show ?thesis using I(3) unfolding taken_ok_def by (auto simp: fun_upd_apply)
  qed
  moreover have "loc (linked s) hi ti (thr (goto i ?p ?s) j)" for j
    using I(4) by simp
  ultimately show ?thesis unfolding clq_inv_def by simp
qed

lemma clq_inv_new:
  assumes inv: "clq_inv s hi ti" and step: "enq_new i n v s = Some s'"
  shows "clq_inv s' hi ti"
proof -
  note I = clq_invD [OF inv]
  note L = list_okD [OF I(1)]
  from step have n: "n \<notin> used s" and s': "s' = goto i (E_load n)
             (s\<lparr>next_of := (next_of s)(n := None), item_of := (item_of s)(n := Some v),
                used := insert n (used s)\<rparr>)"
    by (simp_all add: enq_new_def split: if_splits)
  have nl: "n \<notin> set (linked s)" using n L(2) by blast
  then have ne: "linked s ! k \<noteq> n" if "k < length (linked s)" for k
    using that nth_mem by fastforce
  have nd: "n \<notin> set (drop (Suc hi) (linked s))" using nl by (meson in_set_dropD)
  then have "map (\<lambda>a. the (((item_of s)(n := Some v)) a)) (drop (Suc hi) (linked s)) =
      map (\<lambda>a. the (item_of s a)) (drop (Suc hi) (linked s))"
    by (intro map_cong) auto
  then have "list_ok s' hi ti"
    using I(1) ne unfolding list_ok_def s' by auto
  moreover have "fresh_ok s'"
    using I(2) n nl unfolding fresh_ok_def s' by (auto simp: fun_upd_apply)
  moreover have "taken_ok s'"
  proof -
    have "x \<noteq> n" if "thr s j = D_item x g" for j x g
      using that I(4) [of j] ne by (auto simp: occurs_def)
    then show ?thesis using I(3) unfolding taken_ok_def s' by (auto simp: fun_upd_apply)
  qed
  moreover have "loc (linked s) hi ti (thr s' j)" for j
    using I(4) unfolding s' by simp
  ultimately show ?thesis unfolding clq_inv_def s' by simp
qed

lemma clq_inv_tail_goto:
  assumes inv: "clq_inv s hi ti" and occ: "occurs (linked s) t k" "occurs (linked s) x (Suc k)"
    and "fresh_node p = None \<or> fresh_node p = fresh_node (thr s i)"
    and "taken_node p = None" and "\<And>ns h' t'. loc ns h' t' p"
  shows "\<exists>ti'. clq_inv (goto i p (if m_tail s = t then s\<lparr>m_tail := x\<rparr> else s)) hi ti'"
proof (cases "m_tail s = t")
  case True
  have "clq_inv (goto i p (s\<lparr>m_tail := x\<rparr>)) hi (Suc ti)"
    using clq_inv_tail [OF inv True occ] by (rule clq_inv_goto) (use assms(4-6) in auto)
  with True show ?thesis by auto
next
  case False
  have "clq_inv (goto i p s) hi ti"
    using inv by (rule clq_inv_goto) (use assms(4-6) in auto)
  with False show ?thesis by auto
qed

lemma enq_step_inv:
  assumes inv: "clq_inv s hi ti" and step: "enq_step i s = Some s'"
  shows "\<exists>hi' ti'. clq_inv s' hi' ti'"
proof -
  note I = clq_invD [OF inv]
  note L = list_okD [OF I(1)]
  note l = I(4) [of i]
  show ?thesis
  proof (cases "thr s i")
    case (E_load n)
    have "clq_inv (goto i (E_next n (m_tail s)) s) hi ti"
      using inv by (rule clq_inv_goto) (use L(6) E_load in auto)
    then show ?thesis using step E_load by (auto simp: enq_step_def)
  next
    case (E_next n t)
    have "clq_inv (goto i (E_check n t (next_of s t)) s) hi ti"
      using inv by (rule clq_inv_goto) (use l next_occurs(1) [OF I(1)] E_next in auto)
    then show ?thesis using step E_next by (auto simp: enq_step_def)
  next
    case (E_check n t sx)
    let ?p = "if t = m_tail s then (case sx of None \<Rightarrow> E_cas n t | Some x \<Rightarrow> E_help n t x) else E_load n"
    have "clq_inv (goto i ?p s) hi ti"
      using inv by (rule clq_inv_goto) (use l E_check in \<open>auto split: option.splits if_splits\<close>)
    then show ?thesis using step E_check by (auto simp: enq_step_def)
  next
    case (E_cas n t)
    have "clq_inv (goto i (E_load n) s) hi ti"
      using inv by (rule clq_inv_goto) (use E_cas in auto)
    then show ?thesis
      using step E_cas clq_inv_link [OF inv E_cas] by (auto simp: enq_step_def split: if_splits)
  next
    case (E_help n t x)
    then obtain k where "occurs (linked s) t k" "occurs (linked s) x (Suc k)" using l by auto
    from clq_inv_tail_goto [OF inv this, of "E_load n" i] step E_help
    show ?thesis by (simp add: enq_step_def) blast
  next
    case (E_swing n t)
    then obtain k where "occurs (linked s) t k" "occurs (linked s) n (Suc k)" using l by auto
    from clq_inv_tail_goto [OF inv this, of Idle i] step E_swing
    show ?thesis by (simp add: enq_step_def) blast
  qed (use step in \<open>simp_all add: enq_step_def\<close>)
qed

lemma first_item_loc:
  assumes inv: "clq_inv s hi ti" and pc: "thr s i = F_item h (Some x)" and "item_of s x = None"
  shows "loc (linked s) hi ti (F_cas h x)"
proof -
  from clq_invD(4) [OF inv, of i] pc obtain k where
    k: "occurs (linked s) h k" "occurs (linked s) x (Suc k)" by auto
  have "Suc k \<le> hi"
    using list_okD(8) [OF clq_invD(1) [OF inv] k(2)] assms(3) by (meson not_le_imp_less)
  with k show ?thesis by auto
qed

lemma first_cas_fails:
  assumes inv: "clq_inv s hi ti" and pc: "thr s i = F_cas h x"
  shows "m_head s \<noteq> h"
proof
  assume h: "m_head s = h"
  note L = list_okD [OF clq_invD(1) [OF inv]]
  from clq_invD(4) [OF inv, of i] pc obtain k where "Suc k \<le> hi" "occurs (linked s) h k" by auto
  with occurs_unique [OF L(1) L(5), of k] h show False by simp
qed

lemma deq_check_loc:
  assumes inv: "clq_inv s hi ti" and pc: "thr s i = D_check m h t f e" and h: "h = m_head s"
  shows "h = t \<Longrightarrow> f = None \<Longrightarrow> e" and "h = t \<Longrightarrow> f = Some x \<Longrightarrow> loc (linked s) hi ti (D_help m t x)"
    and "h \<noteq> t \<Longrightarrow> loc (linked s) hi ti (D_cas h f)" and "h \<noteq> t \<Longrightarrow> loc (linked s) hi ti (F_item h f)"
proof -
  note L = list_okD [OF clq_invD(1) [OF inv]]
  from clq_invD(4) [OF inv, of i] pc obtain k j where
    k: "k \<le> hi" "k \<le> j" "j \<le> ti" "occurs (linked s) h k" "occurs (linked s) t j"
      "f = None \<longrightarrow> k = j \<and> (k = hi \<longrightarrow> e)" "\<forall>x. f = Some x \<longrightarrow> occurs (linked s) x (Suc k)"
    by auto
  have "k = hi" using occurs_unique [OF L(1) k(4)] L(5) h by simp
  then show "h = t \<Longrightarrow> f = None \<Longrightarrow> e" using k(6) by simp
  show "h = t \<Longrightarrow> f = Some x \<Longrightarrow> loc (linked s) hi ti (D_help m t x)" using k(4,7) by auto
  have ne: "Suc k \<le> ti \<and> (\<exists>x. f = Some x \<and> occurs (linked s) x (Suc k))" if "h \<noteq> t"
  proof -
    have "k \<noteq> j" using that k(4,5) occurs_same by blast
    with k show ?thesis by (cases f) auto
  qed
  show "h \<noteq> t \<Longrightarrow> loc (linked s) hi ti (D_cas h f)" using ne k(4) by auto
  show "h \<noteq> t \<Longrightarrow> loc (linked s) hi ti (F_item h f)" using ne k(4) by auto
qed

lemma deq_next_loc:
  assumes inv: "clq_inv s hi ti" and pc: "thr s i = D_next m h t"
  shows "loc (linked s) hi ti (D_check m h t (next_of s h) (next_of s (m_head s) = None))"
proof -
  note I = clq_invD [OF inv]
  note L = list_okD [OF I(1)]
  from I(4) [of i] pc obtain k j where
    k: "k \<le> hi" "k \<le> j" "j \<le> ti" "occurs (linked s) h k" "occurs (linked s) t j"
    by auto
  have "k = j" if "next_of s h = None"
    using that next_occurs(2) [OF I(1) k(4)] k(2,5) by (simp add: occurs_def)
  moreover have "next_of s (m_head s) = None" if "next_of s h = None" "k = hi"
    using that occurs_same [OF k(4)] L(5) by auto
  ultimately show ?thesis
    using k next_occurs(1) [OF I(1) k(4)] unfolding loc.simps
    by (intro exI [of _ k] exI [of _ j]) simp
qed

lemma deq_step_inv:
  assumes inv: "clq_inv s hi ti" and step: "deq_step i s = Some s'"
  shows "\<exists>hi' ti'. clq_inv s' hi' ti'"
proof -
  note I = clq_invD [OF inv]
  note L = list_okD [OF I(1)]
  note l = I(4) [of i]
  show ?thesis
  proof (cases "thr s i")
    case (D_load m)
    have "clq_inv (goto i (D_tail m (m_head s)) s) hi ti"
      using inv by (rule clq_inv_goto) (use L(5) in auto)
    then show ?thesis using step D_load by (auto simp: deq_step_def)
  next
    case (D_tail m h)
    then obtain k where "k \<le> hi" "occurs (linked s) h k" using l by auto
    with L(4,6) have "loc (linked s) hi ti (D_next m h (m_tail s))"
      unfolding loc.simps by (intro exI [of _ k] exI [of _ ti]) simp
    with inv have "clq_inv (goto i (D_next m h (m_tail s)) s) hi ti"
      by (rule clq_inv_goto) auto
    then show ?thesis using step D_tail by (auto simp: deq_step_def)
  next
    case (D_next m h t)
    have "clq_inv (goto i (D_check m h t (next_of s h) (next_of s (m_head s) = None)) s) hi ti"
      using inv deq_next_loc [OF inv D_next] by (rule clq_inv_goto) auto
    then show ?thesis using step D_next by (auto simp: deq_step_def)
  next
    case (D_check m h t f e)
    let ?p = "if h \<noteq> m_head s then D_load m
        else if h = t then (case f of None \<Rightarrow> Done_null e | Some x \<Rightarrow> D_help m t x)
        else (case m of Dequeue \<Rightarrow> D_cas h f | First \<Rightarrow> F_item h f)"
    have "loc (linked s) hi ti ?p"
      using deq_check_loc [OF inv D_check]
      by (simp split: option.split op.split if_split del: loc.simps) (simp only: loc.simps; blast)
    with inv have "clq_inv (goto i ?p s) hi ti"
      by (rule clq_inv_goto) (auto split: option.splits op.splits if_splits)
    then show ?thesis using step D_check by (auto simp: deq_step_def)
  next
    case (D_help m t x)
    then obtain k where "occurs (linked s) t k" "occurs (linked s) x (Suc k)" using l by auto
    from clq_inv_tail_goto [OF inv this, of "D_load m" i] step D_help
    show ?thesis by (simp add: deq_step_def) blast
  next
    case (D_cas h f)
    obtain x where x: "f = Some x" using l D_cas by auto
    have "clq_inv (goto i (D_load Dequeue) s) hi ti"
      using inv by (rule clq_inv_goto) auto
    then show ?thesis
      using step D_cas x clq_inv_head [OF inv, of i h x] by (auto simp: deq_step_def split: if_splits)
  next
    case (D_item x g)
    have it: "item_of s x = g" using I(3) D_item unfolding taken_ok_def by blast
    let ?p = "case item_of s x of None \<Rightarrow> D_load Dequeue | Some w \<Rightarrow> D_clear x w g"
    have "clq_inv (goto i ?p s) hi ti"
      using inv by (rule clq_inv_goto) (use l D_item it in \<open>auto split: option.splits\<close>)
    then show ?thesis using step D_item by (auto simp: deq_step_def)
  next
    case (D_clear x w g)
    then show ?thesis using step clq_inv_clear [OF inv D_clear] by (auto simp: deq_step_def)
  next
    case (F_item h f)
    obtain x where x: "f = Some x" using l F_item by auto
    let ?p = "if item_of s x \<noteq> None then Done_node x else F_cas h x"
    have "clq_inv (goto i ?p s) hi ti"
      using inv by (rule clq_inv_goto) (use first_item_loc [OF inv F_item [unfolded x]] in \<open>auto split: if_splits\<close>)
    then show ?thesis using step F_item x by (auto simp: deq_step_def)
  next
    case (F_cas h x)
    have "clq_inv (goto i (D_load First) s) hi ti"
      using inv by (rule clq_inv_goto) auto
    then show ?thesis using step F_cas first_cas_fails [OF inv F_cas] by (auto simp: deq_step_def)
  qed (use step in \<open>simp_all add: deq_step_def\<close>)
qed

lemma clq_local_inv:
  assumes inv: "clq_inv s hi ti" and "deq_begin i m s = Some s' \<or> op_return i s = Some s'"
  shows "clq_inv s' hi ti"
proof -
  from assms(2) obtain p where "s' = goto i p s" "p = Idle \<or> (\<exists>m. p = D_load m)"
    by (auto simp: deq_begin_def op_return_def split: if_splits pc.splits)
  with clq_inv_goto [OF inv, of p i] show ?thesis by auto
qed

definition clq_reach :: "addr \<Rightarrow> (addr \<Rightarrow> addr option) \<Rightarrow> (addr \<Rightarrow> 'v option) \<Rightarrow> 'v clq \<Rightarrow> bool" where
  "clq_reach a nx it s \<longleftrightarrow> clq_step\<^sup>*\<^sup>* (clq_init a nx it) s"

lemma clq_step_inv:
  assumes "clq_step s s'" and "clq_inv s hi ti"
  shows "\<exists>hi' ti'. clq_inv s' hi' ti'"
  using assms(1)
proof (cases rule: clq_step.cases)
  case new
  then show ?thesis using clq_inv_new [OF assms(2)] by blast
next
  case enq
  then show ?thesis using enq_step_inv [OF assms(2)] by blast
next
  case deq
  then show ?thesis using deq_step_inv [OF assms(2)] by blast
qed (use clq_local_inv [OF assms(2)] in blast)+

lemma clq_reach_inv:
  assumes "clq_reach a nx it s"
  shows "\<exists>hi ti. clq_inv s hi ti"
  using assms unfolding clq_reach_def
proof (induction rule: rtranclp_induct)
  case base
  show ?case using clq_init_inv by blast
next
  case (step s s')
  then show ?case using clq_step_inv by blast
qed

section \<open>Schedules\<close>

datatype 'v clq_act = Act_enq nat addr 'v | Act_e nat | Act_deq nat op | Act_d nat | Act_ret nat

fun clq_exec :: "'v clq_act \<Rightarrow> 'v clq \<Rightarrow> 'v clq option" where
  "clq_exec (Act_enq i n v) s = enq_new i n v s"
| "clq_exec (Act_e i) s = enq_step i s"
| "clq_exec (Act_deq i m) s = deq_begin i m s"
| "clq_exec (Act_d i) s = deq_step i s"
| "clq_exec (Act_ret i) s = op_return i s"

fun clq_run :: "'v clq_act list \<Rightarrow> 'v clq \<Rightarrow> 'v clq option" where
  "clq_run [] s = Some s"
| "clq_run (l # ls) s = (case clq_exec l s of None \<Rightarrow> None | Some s' \<Rightarrow> clq_run ls s')"

lemma clq_exec_step: "clq_exec l s = Some s' \<Longrightarrow> clq_step s s'"
  by (cases l) (auto intro: clq_step.intros)

lemma clq_run_steps: "clq_run ls s = Some s' \<Longrightarrow> clq_step\<^sup>*\<^sup>* s s'"
proof (induction ls arbitrary: s)
  case (Cons l ls)
  then obtain s1 where "clq_exec l s = Some s1" "clq_run ls s1 = Some s'"
    by (auto split: option.splits)
  then show ?case using Cons.IH clq_exec_step by (metis converse_rtranclp_into_rtranclp)
qed simp

lemma clq_run_reach: "clq_run ls (clq_init a nx it) = Some s \<Longrightarrow> clq_reach a nx it s"
  unfolding clq_reach_def by (rule clq_run_steps)

lemmas clq_run_simps = clq_init_def enq_new_def enq_step_def deq_begin_def deq_step_def op_return_def

section \<open>Properties\<close>

text \<open>
  C2.  The lock-free queue is a queue under every interleaving of enqueuing, dequeuing and
  inspecting threads: the values dequeued are a prefix of the values enqueued, all of them when no
  node follows the head; no thread follows a null pointer; a thread that has taken a node returns
  exactly the value the queue gave up at its compare-and-swap; and null is returned only
  when the queue was empty at the moment \<open>next\<close> was read.
\<close>

theorem linked_queue_fifo:
  assumes "clq_reach a nx it s"
  shows "prefix (deqd s) (enqd s) \<and> (next_of s (m_head s) = None \<longrightarrow> deqd s = enqd s) \<and>
    \<not> clq_fault s \<and>
    (\<forall>i x w g. thr s i = D_clear x w g \<longrightarrow> g = Some w) \<and>
    (\<forall>i was_empty. thr s i = Done_null was_empty \<longrightarrow> was_empty)"
proof -
  obtain hi ti where inv: "clq_inv s hi ti" using clq_reach_inv [OF assms] by blast
  note L = list_okD [OF clq_invD(1) [OF inv]]
  have "deqd s = enqd s" if "next_of s (m_head s) = None"
    using that next_occurs(2) [OF clq_invD(1) [OF inv] L(5)] L(9) by simp
  moreover have "g = Some w" if "thr s i = D_clear x w g" for i x w g
    using clq_invD(4) [OF inv, of i] that by simp
  moreover have "e" if "thr s i = Done_null e" for i e
    using clq_invD(4) [OF inv, of i] that by simp
  ultimately show ?thesis using L(3,9) by (auto simp: prefix_def)
qed

theorem linked_queue_fifo_witness:
  "\<exists>s. clq_run [Act_enq 0 1 7, Act_enq 1 2 8, Act_e 0, Act_e 1, Act_e 1, Act_e 0, Act_e 1, Act_e 0,
       Act_e 1, Act_e 0, Act_e 1, Act_deq 2 Dequeue, Act_d 2, Act_d 2, Act_d 2, Act_d 2, Act_d 2]
      (clq_init 0 (\<lambda>_. None) (\<lambda>_. None)) = Some s \<and>
     deqd s = [8 :: nat] \<and> prefix (deqd s) (enqd s)"
  (is "\<exists>s. ?run = Some s \<and> _")
proof -
  have "?run \<noteq> None" by (simp add: clq_run_simps)
  then obtain s where s: "?run = Some s" by blast
  moreover have "deqd s = [8]" using s by (auto simp: clq_run_simps)
  ultimately show ?thesis
    using linked_queue_fifo [OF clq_run_reach [OF s]] by auto
qed

text \<open>Running one thread alone.\<close>

fun solo :: "nat \<Rightarrow> nat \<Rightarrow> 'v clq \<Rightarrow> 'v clq option" where
  "solo 0 i s = Some s"
| "solo (Suc n) i s = (case deq_step i s of None \<Rightarrow> None | Some s' \<Rightarrow> solo n i s')"

lemma solo_split: "solo (m + n) i s = (case solo m i s of None \<Rightarrow> None | Some s' \<Rightarrow> solo n i s')"
  by (induction m arbitrary: s) (auto split: option.splits)

lemma solo_nonempty:
  assumes inv: "clq_inv s hi ti" and "m_head s \<noteq> m_tail s" and "thr s i = D_load Dequeue"
  shows "\<exists>s' v. solo 7 i s = Some s' \<and> thr s' i = Done_item v"
proof -
  note I = clq_invD [OF inv]
  note L = list_okD [OF I(1)]
  have "hi < ti" using assms(2) L(4-6) occurs_same by (metis nat_less_le)
  then obtain x where x: "next_of s (m_head s) = Some x" "occurs (linked s) x (Suc hi)"
    using next_occurs [OF I(1) L(5)] L(6) by (auto simp: occurs_def)
  obtain v where "item_of s x = Some v" using L(8) [OF x(2)] by auto
  with x(1) assms(2,3) show ?thesis
    by (simp add: deq_step_def eval_nat_numeral)
qed

lemma solo_lagging:
  assumes inv: "clq_inv s hi ti" and "m_head s = m_tail s" and "thr s i = D_load Dequeue"
    and x: "next_of s (m_head s) = Some x"
  shows "\<exists>s'. solo 5 i s = Some s' \<and> thr s' i = D_load Dequeue \<and> m_head s' \<noteq> m_tail s' \<and>
    (\<exists>hi ti. clq_inv s' hi ti)"
proof -
  note I = clq_invD [OF inv]
  note L = list_okD [OF I(1)]
  let ?s = "goto i (D_load Dequeue) (s\<lparr>m_tail := x\<rparr>)"
  have occ: "occurs (linked s) x (Suc hi)" using next_occurs(1) [OF I(1) L(5)] x by blast
  then have "x \<noteq> m_head s" using occurs_unique [OF L(1) L(5)] by fastforce
  moreover have "clq_inv ?s hi (Suc ti)"
    using clq_inv_tail [OF inv assms(2) [symmetric] L(5) occ] by (rule clq_inv_goto) auto
  moreover have "solo 5 i s = Some ?s"
    using assms(2-4) by (simp add: deq_step_def eval_nat_numeral)
  ultimately show ?thesis by auto
qed

text \<open>
  C9.  Whatever the other threads have done, a thread that starts \<open>dequeue\<close> and then runs without
  interference returns within twelve steps: null if the queue is empty, an item otherwise.
\<close>

theorem dequeue_solo_returns:
  assumes "clq_reach a nx it s" and "thr s i = D_load Dequeue"
  shows "\<exists>n\<le>12. \<exists>s'. solo n i s = Some s' \<and>
    (if next_of s (m_head s) = None then thr s' i = Done_null True
     else \<exists>v. thr s' i = Done_item v)"
proof -
  obtain hi ti where inv: "clq_inv s hi ti" using clq_reach_inv [OF assms(1)] by blast
  note I = clq_invD [OF inv]
  note L = list_okD [OF I(1)]
  show ?thesis
  proof (cases "next_of s (m_head s)")
    case None
    then have "hi = ti" using next_occurs(2) [OF I(1) L(5)] L(4,6) by (auto simp: occurs_def)
    then have "m_head s = m_tail s" using L(5,6) occurs_same by blast
    with None assms(2) have "\<exists>s'. solo 4 i s = Some s' \<and> thr s' i = Done_null True"
      by (simp add: deq_step_def eval_nat_numeral)
    with None show ?thesis by (intro exI [of _ 4]) simp
  next
    case (Some x)
    show ?thesis
    proof (cases "m_head s = m_tail s")
      case True
      from solo_lagging [OF inv True assms(2) Some] obtain s1 hi1 ti1 where
        s1: "solo 5 i s = Some s1" "thr s1 i = D_load Dequeue" "m_head s1 \<noteq> m_tail s1"
          "clq_inv s1 hi1 ti1" by blast
      from solo_nonempty [OF s1(4,3,2)] obtain s' v where
        "solo 7 i s1 = Some s'" "thr s' i = Done_item v" by blast
      with s1(1) Some show ?thesis
        using solo_split [of 5 7 i s] by (intro exI [of _ 12]) simp
    next
      case False
      from solo_nonempty [OF inv False assms(2)] Some show ?thesis
        by (intro exI [of _ 7]) auto
    qed
  qed
qed

theorem dequeue_solo_returns_witness:
  "\<exists>s. clq_run [Act_enq 0 1 7, Act_e 0, Act_e 0, Act_e 0, Act_e 0, Act_deq 2 Dequeue]
      (clq_init 0 (\<lambda>_. None) (\<lambda>_. None)) = Some s \<and> m_head s = m_tail s \<and>
     (\<exists>n\<le>12. \<exists>s' v. solo n 2 s = Some s' \<and> thr s' 2 = Done_item (v :: nat))"
  (is "\<exists>s. ?run = Some s \<and> _")
proof -
  have "?run \<noteq> None" by (simp add: clq_run_simps)
  then obtain s where s: "?run = Some s" by blast
  moreover have "thr s 2 = D_load Dequeue" "next_of s (m_head s) = Some 1" "m_head s = m_tail s"
    using s by (auto simp: clq_run_simps)
  ultimately show ?thesis
    using dequeue_solo_returns [OF clq_run_reach [OF s], of 2] by auto
qed

end
