(* ===== verification/Queues.thy ===== *)
theory Queues
  imports Prelude
begin

text \<open>
  The two linked queues with a front, a rear and a count: \<open>ThreadSafeQueue\<close> of
  \<open>include/mola/queue.hpp\<close>, whose bodies run under its spin lock, and the \<open>Queue\<close> of
  \<open>KV-Store/include/queue.h\<close>.  Both are shown to be first-in first-out queues through one
  interface, the locale \<open>fifo\<close>: a relation between a state and the list of its nodes with their
  values, and the laws of \<open>enqueue\<close> and \<open>dequeue\<close> on it.  A node's address comes from the
  allocator, which returns an address of no live node.
\<close>

section \<open>The interface\<close>

datatype 'v qop = Enq addr 'v | Deq

text \<open>Running a sequence of calls on an implementation and on a list; the outputs are collected.\<close>

fun run_queue ::
  "(addr \<Rightarrow> 'v \<Rightarrow> 's \<Rightarrow> 's res) \<Rightarrow> ('s \<Rightarrow> ('v option \<times> 's) res) \<Rightarrow> 'v qop list \<Rightarrow> 's \<Rightarrow>
   ('v option list \<times> 's) res" where
  "run_queue enq deq [] s = Inr ([], s)"
| "run_queue enq deq (Enq a v # ops) s =
     bind_res (enq a v s) (\<lambda>s'. run_queue enq deq ops s')"
| "run_queue enq deq (Deq # ops) s =
     bind_res (deq s) (\<lambda>(r, s'). bind_res (run_queue enq deq ops s') (\<lambda>(rs, s''). Inr (r # rs, s'')))"

fun run_list :: "'v qop list \<Rightarrow> (addr \<times> 'v) list \<Rightarrow> 'v option list \<times> (addr \<times> 'v) list" where
  "run_list [] xs = ([], xs)"
| "run_list (Enq a v # ops) xs = run_list ops (xs @ [(a, v)])"
| "run_list (Deq # ops) xs =
     (case xs of
        [] \<Rightarrow> (let (rs, ys) = run_list ops [] in (None # rs, ys))
      | (a, v) # xs' \<Rightarrow> (let (rs, ys) = run_list ops xs' in (Some v # rs, ys)))"

text \<open>The allocator's contract along a run: each new address is that of no live node.\<close>

fun fresh_ops :: "'v qop list \<Rightarrow> (addr \<times> 'v) list \<Rightarrow> bool" where
  "fresh_ops [] xs \<longleftrightarrow> True"
| "fresh_ops (Enq a v # ops) xs \<longleftrightarrow> a \<notin> fst ` set xs \<and> fresh_ops ops (xs @ [(a, v)])"
| "fresh_ops (Deq # ops) xs \<longleftrightarrow> fresh_ops ops (tl xs)"

locale fifo =
  fixes rep :: "'s \<Rightarrow> (addr \<times> 'v) list \<Rightarrow> bool"
    and enq :: "addr \<Rightarrow> 'v \<Rightarrow> 's \<Rightarrow> 's res"
    and deq :: "'s \<Rightarrow> ('v option \<times> 's) res"
    and cap :: nat
  assumes enq_law: "rep s xs \<Longrightarrow> a \<notin> fst ` set xs \<Longrightarrow> length xs < cap \<Longrightarrow>
      \<exists>s'. enq a v s = Inr s' \<and> rep s' (xs @ [(a, v)])"
    and deq_empty: "rep s [] \<Longrightarrow> deq s = Inr (None, s)"
    and deq_law: "rep s ((a, v) # xs) \<Longrightarrow> \<exists>s'. deq s = Inr (Some v, s') \<and> rep s' xs"
begin

lemma run_refines:
  assumes "rep s xs" and "fresh_ops ops xs" and "length xs + length ops \<le> cap"
  shows "\<exists>s'. run_queue enq deq ops s = Inr (fst (run_list ops xs), s') \<and>
    rep s' (snd (run_list ops xs))"
  using assms
proof (induction ops arbitrary: s xs)
  case Nil
  then show ?case by simp
next
  case (Cons q ops)
  show ?case
  proof (cases q)
    case (Enq a v)
    obtain s1 where s1: "enq a v s = Inr s1" "rep s1 (xs @ [(a, v)])"
      using enq_law [OF Cons.prems(1), of a v] Cons.prems(2,3) Enq by auto
    with Cons.IH [OF s1(2)] Cons.prems(2,3) Enq show ?thesis by simp
  next
    case Deq
    show ?thesis
    proof (cases xs)
      case Nil
      then show ?thesis
        using Cons.IH [of s "[]"] Cons.prems Deq deq_empty by (auto split: prod.splits)
    next
      case (Cons x xs')
      obtain a v where x: "x = (a, v)" by (cases x)
      obtain s1 where "deq s = Inr (Some v, s1)" "rep s1 xs'"
        using deq_law Cons.prems(1) Cons x by blast
      then show ?thesis
        using Cons.IH [of s1 xs'] Cons.prems Deq Cons x by (auto split: prod.splits)
    qed
  qed
qed

end

section \<open>ThreadSafeQueue\<close>

record 'v tsq =
  q_head :: "addr option"
  q_tail :: "addr option"
  q_num :: u64
  q_next :: "addr \<Rightarrow> addr option"
  q_value :: "addr \<Rightarrow> 'v"

definition ThreadSafeQueue :: "(addr \<Rightarrow> addr option) \<Rightarrow> (addr \<Rightarrow> 'v) \<Rightarrow> 'v tsq" where
  "ThreadSafeQueue nx vl =
     \<lparr>q_head = None, q_tail = None, q_num = 0, q_next = nx, q_value = vl\<rparr>"

definition tsq_enqueue :: "addr \<Rightarrow> 'v \<Rightarrow> 'v tsq \<Rightarrow> 'v tsq res" where
  "tsq_enqueue ptr item s =
     (let s = s\<lparr>q_next := (q_next s)(ptr := None), q_value := (q_value s)(ptr := item)\<rparr>
      in bind_res
          (if q_num s = 0 then Inr (s\<lparr>q_head := Some ptr, q_tail := Some ptr\<rparr>)
           else case q_tail s of
                  None \<Rightarrow> Inl Wild_deref
                | Some t \<Rightarrow> Inr (s\<lparr>q_next := (q_next s)(t := Some ptr), q_tail := Some ptr\<rparr>))
          (\<lambda>s. Inr (s\<lparr>q_num := q_num s + 1\<rparr>)))"

definition tsq_dequeue :: "'v tsq \<Rightarrow> ('v option \<times> 'v tsq) res" where
  "tsq_dequeue s =
     (if q_num s = 0 then Inr (None, s)
      else case q_head s of
             None \<Rightarrow> Inl Wild_deref
           | Some h \<Rightarrow>
               let s1 = s\<lparr>q_head := q_next s h, q_num := q_num s - 1\<rparr>;
                   s2 = (if q_num s1 = 0 then s1\<lparr>q_tail := None\<rparr> else s1)
               in Inr (Some (q_value s h), s2))"

definition tsq_size :: "'v tsq \<Rightarrow> u64" where
  "tsq_size s = q_num s"

definition tsq_empty :: "'v tsq \<Rightarrow> bool" where
  "tsq_empty s \<longleftrightarrow> q_num s = 0"

definition tsq_rep :: "'v tsq \<Rightarrow> (addr \<times> 'v) list \<Rightarrow> bool" where
  "tsq_rep s xs \<longleftrightarrow>
     (xs \<noteq> [] \<longrightarrow> chain (q_next s) (q_head s) (map fst xs) \<and> q_tail s = Some (fst (last xs))) \<and>
     distinct (map fst xs) \<and> (\<forall>x\<in>set xs. q_value s (fst x) = snd x) \<and> unat (q_num s) = length xs"

lemma tsq_num_0: "tsq_rep s xs \<Longrightarrow> q_num s = 0 \<longleftrightarrow> xs = []"
  by (auto simp: tsq_rep_def unat_eq_zero)

lemma tsq_enqueue_law:
  assumes rep: "tsq_rep s xs" and a: "a \<notin> fst ` set xs" and len: "length xs < 2 ^ 64 - 1"
  shows "\<exists>s'. tsq_enqueue a v s = Inr s' \<and> tsq_rep s' (xs @ [(a, v)])"
proof (cases "xs = []")
  case True
  then show ?thesis
    using rep tsq_num_0 [OF rep] by (auto simp: tsq_enqueue_def tsq_rep_def)
next
  case False
  then obtain ys t w where xs: "xs = ys @ [(t, w)]" by (cases xs rule: rev_cases) auto
  have "unat (q_num s + 1) = unat (q_num s) + 1"
    using rep len by (intro unat_inc) (simp add: tsq_rep_def)
  moreover have "chain ((q_next s)(a := None, t := Some a)) (q_head s) ((map fst ys @ [t]) @ [a])"
    using rep a xs by (intro chain_extend) (auto simp: tsq_rep_def)
  moreover have "q_tail s = Some t" using rep xs by (simp add: tsq_rep_def)
  ultimately show ?thesis
    using rep a xs tsq_num_0 [OF rep] by (auto simp: tsq_enqueue_def tsq_rep_def)
qed

lemma tsq_dequeue_law:
  assumes rep: "tsq_rep s ((a, v) # xs)"
  shows "\<exists>s'. tsq_dequeue s = Inr (Some v, s') \<and> tsq_rep s' xs"
proof -
  have num: "unat (q_num s - 1) = length xs"
    using rep unat_dec [of "q_num s"] by (simp add: tsq_rep_def)
  then have z: "q_num s - 1 = 0 \<longleftrightarrow> xs = []" by (metis length_0_conv unat_eq_zero)
  have "q_num s \<noteq> 0" using tsq_num_0 [OF rep] by simp
  with rep num z show ?thesis
    by (cases "xs = []") (auto simp: tsq_dequeue_def tsq_rep_def)
qed

interpretation ts: fifo tsq_rep tsq_enqueue tsq_dequeue "2 ^ 64 - 1"
proof
  show "tsq_dequeue s = Inr (None, s)" if "tsq_rep s []" for s :: "'v tsq"
    using tsq_num_0 [OF that] by (simp add: tsq_dequeue_def)
qed (rule tsq_enqueue_law tsq_dequeue_law; assumption)+

section \<open>The queue of the key-value store\<close>

text \<open>
  \<open>Queue\<close> and \<open>Node\<close>.  The \<open>int\<close> count is kept as an integer; \<open>EnQueue\<close> takes what
  \<open>malloc\<close> returned, \<open>None\<close> for a failed allocation.
\<close>

record 'v kv_queue =
  front :: "addr option"
  rear :: "addr option"
  qsize :: int
  node_next :: "addr \<Rightarrow> addr option"
  node_data :: "addr \<Rightarrow> 'v"

definition InitQueue :: "(addr \<Rightarrow> addr option) \<Rightarrow> (addr \<Rightarrow> 'v) \<Rightarrow> 'v kv_queue" where
  "InitQueue nx dt = \<lparr>front = None, rear = None, qsize = 0, node_next = nx, node_data = dt\<rparr>"

definition IsEmpty :: "'v kv_queue \<Rightarrow> bool" where
  "IsEmpty s \<longleftrightarrow> front s = None \<and> rear s = None \<and> qsize s = 0"

definition GetSize :: "'v kv_queue \<Rightarrow> int" where
  "GetSize s = qsize s"

definition GetFront :: "'v kv_queue \<Rightarrow> (addr option \<times> 'v option) res" where
  "GetFront s =
     (if IsEmpty s then Inr (front s, None)
      else case front s of None \<Rightarrow> Inl Wild_deref | Some a \<Rightarrow> Inr (Some a, Some (node_data s a)))"

definition GetRear :: "'v kv_queue \<Rightarrow> (addr option \<times> 'v option) res" where
  "GetRear s =
     (if IsEmpty s then Inr (rear s, None)
      else case rear s of None \<Rightarrow> Inl Wild_deref | Some a \<Rightarrow> Inr (Some a, Some (node_data s a)))"

definition EnQueue :: "addr option \<Rightarrow> 'v \<Rightarrow> 'v kv_queue \<Rightarrow> 'v kv_queue res" where
  "EnQueue pnode item s =
     (case pnode of
        None \<Rightarrow> Inr s
      | Some a \<Rightarrow>
          let s1 = s\<lparr>node_data := (node_data s)(a := item), node_next := (node_next s)(a := None)\<rparr>
          in bind_res
               (if IsEmpty s1 then Inr (s1\<lparr>front := Some a\<rparr>)
                else case rear s1 of
                       None \<Rightarrow> Inl Wild_deref
                     | Some r \<Rightarrow> Inr (s1\<lparr>node_next := (node_next s1)(r := Some a)\<rparr>))
               (\<lambda>s2. Inr (s2\<lparr>rear := Some a, qsize := qsize s2 + 1\<rparr>)))"

text \<open>\<open>DeQueue\<close> stores the item through its second argument and returns the new front.\<close>

definition DeQueue :: "'v kv_queue \<Rightarrow> 'v option \<times> addr option \<times> 'v kv_queue" where
  "DeQueue s =
     (case front s of
        None \<Rightarrow> (None, front s, s)
      | Some a \<Rightarrow>
          if IsEmpty s then (None, front s, s)
          else
            let s1 = s\<lparr>qsize := qsize s - 1, front := node_next s a\<rparr>;
                s2 = (if qsize s1 = 0 then s1\<lparr>rear := None\<rparr> else s1)
            in (Some (node_data s a), front s2, s2))"

partial_function (option) ClearQueue :: "'v kv_queue \<Rightarrow> 'v kv_queue option" where
  "ClearQueue s = (if IsEmpty s then Some s else ClearQueue (snd (snd (DeQueue s))))"

text \<open>\<open>DestroyQueue\<close> clears the queue before it frees the header: the state just before \<open>free\<close>.\<close>

definition DestroyQueue :: "'v kv_queue \<Rightarrow> 'v kv_queue option" where
  "DestroyQueue s = (if IsEmpty s then Some s else ClearQueue s)"

text \<open>\<open>QueueTraverse\<close>: the values visited; the loop counts the size down.\<close>

fun traverse :: "nat \<Rightarrow> addr option \<Rightarrow> 'v kv_queue \<Rightarrow> 'v list res" where
  "traverse 0 p s = Inr []"
| "traverse (Suc i) p s =
     (case p of
        None \<Rightarrow> Inl Wild_deref
      | Some a \<Rightarrow> bind_res (traverse i (node_next s a) s) (\<lambda>vs. Inr (node_data s a # vs)))"

definition QueueTraverse :: "'v kv_queue \<Rightarrow> 'v list res" where
  "QueueTraverse s = (if qsize s < 0 then Inl Out_of_range else traverse (nat (qsize s)) (front s) s)"

definition kvq_rep :: "'v kv_queue \<Rightarrow> (addr \<times> 'v) list \<Rightarrow> bool" where
  "kvq_rep s xs \<longleftrightarrow>
     chain (node_next s) (front s) (map fst xs) \<and>
     rear s = (if xs = [] then None else Some (fst (last xs))) \<and>
     distinct (map fst xs) \<and> (\<forall>x\<in>set xs. node_data s (fst x) = snd x) \<and> qsize s = int (length xs)"

lemma kvq_IsEmpty: "kvq_rep s xs \<Longrightarrow> IsEmpty s \<longleftrightarrow> xs = []"
  by (cases xs) (auto simp: kvq_rep_def IsEmpty_def)

lemma EnQueue_law:
  assumes rep: "kvq_rep s xs" and a: "a \<notin> fst ` set xs"
  shows "\<exists>s'. EnQueue (Some a) v s = Inr s' \<and> kvq_rep s' (xs @ [(a, v)])"
proof (cases "xs = []")
  case True
  then show ?thesis
    using rep by (auto simp: EnQueue_def kvq_rep_def IsEmpty_def)
next
  case False
  then obtain ys t w where xs: "xs = ys @ [(t, w)]" by (cases xs rule: rev_cases) auto
  let ?s = "s\<lparr>node_data := (node_data s)(a := v), node_next := (node_next s)(a := None)\<rparr>"
  have "chain ((node_next s)(a := None, t := Some a)) (front s) ((map fst ys @ [t]) @ [a])"
    using rep a xs by (intro chain_extend) (auto simp: kvq_rep_def)
  moreover have "rear s = Some t" "\<not> IsEmpty ?s" using rep xs by (auto simp: kvq_rep_def IsEmpty_def)
  ultimately show ?thesis
    using rep a xs by (auto simp: EnQueue_def kvq_rep_def Let_def)
qed

lemma DeQueue_law:
  assumes "kvq_rep s ((a, v) # xs)"
  shows "\<exists>s'. DeQueue s = (Some v, front s', s') \<and> kvq_rep s' xs"
  using assms kvq_IsEmpty [OF assms]
  by (cases "xs = []") (auto simp: DeQueue_def kvq_rep_def Let_def)

lemma ClearQueue_law:
  assumes "kvq_rep s xs"
  shows "\<exists>s'. ClearQueue s = Some s' \<and> kvq_rep s' []"
  using assms
proof (induction xs arbitrary: s)
  case Nil
  then show ?case using kvq_IsEmpty [OF Nil] by (subst ClearQueue.simps) simp
next
  case (Cons x xs)
  obtain a v where "x = (a, v)" by (cases x)
  then obtain s1 where "DeQueue s = (Some v, front s1, s1)" "kvq_rep s1 xs"
    using DeQueue_law [of s a v xs] Cons.prems by auto
  then show ?case using Cons.IH kvq_IsEmpty [OF Cons.prems] by (subst ClearQueue.simps) simp
qed

lemma traverse_law:
  "chain (node_next s) p (map fst xs) \<Longrightarrow> \<forall>x\<in>set xs. node_data s (fst x) = snd x \<Longrightarrow>
   traverse (length xs) p s = Inr (map snd xs)"
  by (induction xs arbitrary: p) auto

definition kvq_enqueue :: "addr \<Rightarrow> 'v \<Rightarrow> 'v kv_queue \<Rightarrow> 'v kv_queue res" where
  "kvq_enqueue a v s = EnQueue (Some a) v s"

definition kvq_dequeue :: "'v kv_queue \<Rightarrow> ('v option \<times> 'v kv_queue) res" where
  "kvq_dequeue s = (case DeQueue s of (r, f, s') \<Rightarrow> Inr (r, s'))"

interpretation kvq: fifo kvq_rep kvq_enqueue kvq_dequeue "2 ^ 31 - 1"
proof
  show "\<exists>s'. kvq_enqueue a v s = Inr s' \<and> kvq_rep s' (xs @ [(a, v)])"
    if "kvq_rep s xs" "a \<notin> fst ` set xs" for s :: "'v kv_queue" and xs a v
    using EnQueue_law [OF that] by (simp add: kvq_enqueue_def)
  show "kvq_dequeue s = Inr (None, s)" if "kvq_rep s []" for s :: "'v kv_queue"
    using that by (simp add: kvq_dequeue_def kvq_rep_def DeQueue_def)
  show "\<exists>s'. kvq_dequeue s = Inr (Some v, s') \<and> kvq_rep s' xs"
    if "kvq_rep s ((a, v) # xs)" for s :: "'v kv_queue" and a v xs
    using DeQueue_law [OF that] by (auto simp: kvq_dequeue_def)
qed

section \<open>Properties\<close>

text \<open>
  C14.  Any sequence of \<open>enqueue\<close> and \<open>dequeue\<close> calls on a new \<open>ThreadSafeQueue\<close> returns what the
  same calls on a list queue return, and none of them dereferences a null pointer.
\<close>

theorem thread_safe_queue_fifo:
  assumes "fresh_ops ops []" and "length ops < 2 ^ 64"
  shows "\<exists>s'. run_queue tsq_enqueue tsq_dequeue ops (ThreadSafeQueue nx vl) =
      Inr (fst (run_list ops []), s') \<and> unat (tsq_size s') = length (snd (run_list ops []))"
proof -
  have "tsq_rep (ThreadSafeQueue nx vl) []" by (simp add: tsq_rep_def ThreadSafeQueue_def)
  from ts.run_refines [OF this assms(1)] assms(2) show ?thesis
    by (auto simp: tsq_rep_def tsq_size_def)
qed

theorem thread_safe_queue_fifo_witness:
  "\<exists>s'. run_queue tsq_enqueue tsq_dequeue [Enq 1 7, Enq 2 8, Deq, Enq 1 9, Deq, Deq, Deq]
      (ThreadSafeQueue (\<lambda>_. None) (\<lambda>_. 0 :: nat)) = Inr ([Some 7, Some 8, Some 9, None], s')"
  using thread_safe_queue_fifo [of "[Enq 1 7, Enq 2 8, Deq, Enq 1 9, Deq, Deq, Deq]" "\<lambda>_. None" "\<lambda>_. 0"]
  by auto

text \<open>
  C15.  The queue of the key-value store behaves as a list under any sequence of \<open>EnQueue\<close> and
  \<open>DeQueue\<close> calls; after it, \<open>GetSize\<close> is the length, \<open>QueueTraverse\<close> visits the values from front
  to rear, and \<open>ClearQueue\<close> ends with the empty queue.
\<close>

theorem kv_queue_fifo:
  assumes "fresh_ops ops []" and "length ops < 2 ^ 31"
  shows "\<exists>s' s''. run_queue kvq_enqueue kvq_dequeue ops (InitQueue nx dt) =
      Inr (fst (run_list ops []), s') \<and>
      GetSize s' = int (length (snd (run_list ops []))) \<and>
      QueueTraverse s' = Inr (map snd (snd (run_list ops []))) \<and>
      ClearQueue s' = Some s'' \<and> IsEmpty s''"
proof -
  have "kvq_rep (InitQueue nx dt) []" by (simp add: kvq_rep_def InitQueue_def)
  from kvq.run_refines [OF this assms(1)] assms(2) obtain s' where
    run: "run_queue kvq_enqueue kvq_dequeue ops (InitQueue nx dt) = Inr (fst (run_list ops []), s')"
    and rep: "kvq_rep s' (snd (run_list ops []))" by auto
  have "QueueTraverse s' = Inr (map snd (snd (run_list ops [])))"
    using rep by (simp add: QueueTraverse_def kvq_rep_def traverse_law)
  moreover obtain s'' where "ClearQueue s' = Some s''" "kvq_rep s'' []"
    using ClearQueue_law [OF rep] by blast
  ultimately show ?thesis
    using run rep kvq_IsEmpty [of s'' "[]"] by (auto simp: kvq_rep_def GetSize_def)
qed

theorem kv_queue_fifo_witness:
  "\<exists>s'. run_queue kvq_enqueue kvq_dequeue [Enq 1 7, Enq 2 8, Deq, Enq 1 9]
      (InitQueue (\<lambda>_. None) (\<lambda>_. 0 :: nat)) = Inr ([Some 7], s') \<and> QueueTraverse s' = Inr [8, 9]"
  using kv_queue_fifo [of "[Enq 1 7, Enq 2 8, Deq, Enq 1 9]" "\<lambda>_. None" "\<lambda>_. 0"] by auto

end
