(* ===== verification/Spinlock.thy ===== *)
theory Spinlock
  imports Prelude "HOL-Library.Multiset"
begin

text \<open>
  The locks of \<open>include/mola/spinlock.hpp\<close>: the test-and-set \<open>SpinLock\<close>, the scoped \<open>LockGuard\<close>
  and \<open>TryLockGuard\<close>, and \<open>AsyncLock\<close>, which queues callbacks instead of waiting.
\<close>

section \<open>SpinLock and its guards\<close>

definition test_and_set :: "bool \<Rightarrow> bool \<times> bool" where
  "test_and_set m_lock = (m_lock, True)"

definition clear :: "bool \<Rightarrow> bool" where
  "clear m_lock = False"

text \<open>\<open>lock\<close> and \<open>try_lock\<close> run by a thread alone: \<open>None\<close> is spinning forever.\<close>

partial_function (option) lock :: "bool \<Rightarrow> bool option" where
  "lock m_lock =
     (case test_and_set m_lock of (was, m) \<Rightarrow> if was then lock m else Some m)"

fun try_lock :: "nat \<Rightarrow> bool \<Rightarrow> bool \<times> bool" where
  "try_lock 0 m_lock = (False, m_lock)"
| "try_lock (Suc i) m_lock =
     (case test_and_set m_lock of (was, m) \<Rightarrow> if was then try_lock i m else (True, m))"

lemma lock_free: "lock False = Some True"
  by (subst lock.simps) (simp add: test_and_set_def)

lemma lock_held: "lock True = None"
proof -
  have "\<not> m" if "lock m = Some y" for m y
    by (rule lock.raw_induct [where P = "\<lambda>m y. \<not> m", OF _ that])
      (auto simp: test_and_set_def split: if_splits)
  then show ?thesis by (cases "lock True") auto
qed

text \<open>
  Threads on one lock.  A thread is outside, spinning in \<open>LockGuard\<close>'s constructor, trying in
  \<open>TryLockGuard\<close>'s with the attempts left, inside with a guard that owns the lock, or past an
  explicit \<open>unlock\<close> (or a failed try) with a guard whose pointer is null.  Every test-and-set and every
  clear is a step.
\<close>

datatype guard = G_out | G_spin | G_trying nat | G_owner | G_null

record lock_sys =
  flag :: bool
  guards :: "nat \<Rightarrow> guard"

definition guard_begin :: "nat \<Rightarrow> guard \<Rightarrow> lock_sys \<Rightarrow> lock_sys option" where
  "guard_begin i g s =
     (if guards s i = G_out \<and> (g = G_spin \<or> (\<exists>n. g = G_trying n))
      then Some (s\<lparr>guards := (guards s)(i := g)\<rparr>) else None)"

definition guard_step :: "nat \<Rightarrow> lock_sys \<Rightarrow> lock_sys option" where
  "guard_step i s =
     (case guards s i of
        G_spin \<Rightarrow>
          (case test_and_set (flag s) of (was, m) \<Rightarrow>
             Some (s\<lparr>flag := m, guards := (guards s)(i := (if was then G_spin else G_owner))\<rparr>))
      | G_trying 0 \<Rightarrow> Some (s\<lparr>guards := (guards s)(i := G_null)\<rparr>)
      | G_trying (Suc n) \<Rightarrow>
          (case test_and_set (flag s) of (was, m) \<Rightarrow>
             Some (s\<lparr>flag := m, guards := (guards s)(i := (if was then G_trying n else G_owner))\<rparr>))
      | _ \<Rightarrow> None)"

definition guard_unlock :: "nat \<Rightarrow> lock_sys \<Rightarrow> lock_sys option" where
  "guard_unlock i s =
     (case guards s i of
        G_owner \<Rightarrow> Some (s\<lparr>flag := clear (flag s), guards := (guards s)(i := G_null)\<rparr>)
      | G_null \<Rightarrow> Some s
      | _ \<Rightarrow> None)"

definition guard_destroy :: "nat \<Rightarrow> lock_sys \<Rightarrow> lock_sys option" where
  "guard_destroy i s =
     (case guards s i of
        G_owner \<Rightarrow> Some (s\<lparr>flag := clear (flag s), guards := (guards s)(i := G_out)\<rparr>)
      | G_null \<Rightarrow> Some (s\<lparr>guards := (guards s)(i := G_out)\<rparr>)
      | _ \<Rightarrow> None)"

inductive lock_step :: "lock_sys \<Rightarrow> lock_sys \<Rightarrow> bool" where
  "guard_begin i g s = Some s' \<Longrightarrow> lock_step s s'"
| "guard_step i s = Some s' \<Longrightarrow> lock_step s s'"
| "guard_unlock i s = Some s' \<Longrightarrow> lock_step s s'"
| "guard_destroy i s = Some s' \<Longrightarrow> lock_step s s'"


definition lock_init :: lock_sys where
  "lock_init = \<lparr>flag = False, guards = (\<lambda>_. G_out)\<rparr>"

definition lock_inv :: "lock_sys \<Rightarrow> bool" where
  "lock_inv s \<longleftrightarrow>
     (\<forall>i j. guards s i = G_owner \<longrightarrow> guards s j = G_owner \<longrightarrow> i = j) \<and>
     (flag s \<longleftrightarrow> (\<exists>i. guards s i = G_owner))"

lemmas guard_defs = guard_begin_def guard_step_def guard_unlock_def guard_destroy_def
  test_and_set_def clear_def

lemma lock_inv_others:
  assumes "lock_inv s" and "g \<noteq> G_owner" and "guards s i \<noteq> G_owner"
  shows "lock_inv (s\<lparr>guards := (guards s)(i := g)\<rparr>)"
  using assms unfolding lock_inv_def by auto

lemma lock_inv_acquire:
  assumes "lock_inv s" and "\<not> flag s"
  shows "lock_inv (s\<lparr>flag := True, guards := (guards s)(i := G_owner)\<rparr>)"
  using assms unfolding lock_inv_def by auto

lemma lock_inv_release:
  assumes "lock_inv s" and "g \<noteq> G_owner" and "guards s i = G_owner"
  shows "lock_inv (s\<lparr>flag := False, guards := (guards s)(i := g)\<rparr>)"
  using assms unfolding lock_inv_def by auto

lemma lock_flag_idem: "flag s \<Longrightarrow> s\<lparr>flag := True, guards := x\<rparr> = s\<lparr>guards := x\<rparr>"
  by simp

lemma lock_step_inv:
  assumes "lock_step s s'" and inv: "lock_inv s"
  shows "lock_inv s'"
  using assms(1)
proof (cases rule: lock_step.cases)
  case (1 i g)
  then show ?thesis using lock_inv_others [OF inv] by (auto simp: guard_defs split: if_splits)
next
  case (2 i)
  then show ?thesis
    using lock_inv_others [OF inv] lock_inv_acquire [OF inv]
    by (auto simp: guard_defs lock_flag_idem split: guard.splits nat.splits if_splits)
next
  case (3 i)
  then show ?thesis
    using inv lock_inv_release [OF inv] by (auto simp: guard_defs split: guard.splits)
next
  case (4 i)
  then show ?thesis
    using lock_inv_others [OF inv] lock_inv_release [OF inv] by (auto simp: guard_defs split: guard.splits)
qed

lemma lock_init_inv: "lock_inv lock_init"
  by (simp add: lock_init_def lock_inv_def)

lemma lock_reach_inv: "lock_step\<^sup>*\<^sup>* lock_init s \<Longrightarrow> lock_inv s"
  by (induction rule: rtranclp_induct) (auto intro: lock_init_inv lock_step_inv)

section \<open>AsyncLock\<close>

text \<open>
  \<open>m_slock\<close> is the spin lock that guards the fields.  A callback is an identifier; \<open>run\<close> is what
  calling it does to the lock object.  \<open>acquire\<close> runs the callback while its guard still holds
  \<open>m_slock\<close>; \<open>release\<close> unlocks before it calls the closure that it took from the queue, which is
  \<open>acquire\<close> of the waiting callback.
\<close>

record 'c async_lock =
  m_acquired :: bool
  m_slock :: bool
  m_wait_que :: "'c list"

definition AsyncLock :: "'c async_lock" where
  "AsyncLock = \<lparr>m_acquired = False, m_slock = False, m_wait_que = []\<rparr>"

definition acquire ::
  "('c \<Rightarrow> 'c async_lock \<Rightarrow> 'c async_lock option) \<Rightarrow> 'c \<Rightarrow> 'c async_lock \<Rightarrow> 'c async_lock option" where
  "acquire run callback s =
     (case lock (m_slock s) of
        None \<Rightarrow> None
      | Some m \<Rightarrow>
          let s = s\<lparr>m_slock := m\<rparr>
          in if \<not> m_acquired s
             then (case run callback (s\<lparr>m_acquired := True\<rparr>) of
                     None \<Rightarrow> None
                   | Some s' \<Rightarrow> Some (s'\<lparr>m_slock := clear (m_slock s')\<rparr>))
             else Some (s\<lparr>m_wait_que := m_wait_que s @ [callback], m_slock := clear (m_slock s)\<rparr>))"

definition release ::
  "('c \<Rightarrow> 'c async_lock \<Rightarrow> 'c async_lock option) \<Rightarrow> 'c async_lock \<Rightarrow> 'c async_lock option" where
  "release run s =
     (case lock (m_slock s) of
        None \<Rightarrow> None
      | Some m \<Rightarrow>
          let s = s\<lparr>m_slock := m, m_acquired := False\<rparr>
          in case m_wait_que s of
               [] \<Rightarrow> Some (s\<lparr>m_slock := clear (m_slock s)\<rparr>)
             | callback # q \<Rightarrow> acquire run callback (s\<lparr>m_wait_que := q, m_slock := clear (m_slock s)\<rparr>))"

text \<open>
  The lock shared by several clients, whose callbacks return without touching it.  Between
  \<open>release\<close>'s unlock and its call of the closure another client may acquire: closures taken and not
  yet called are \<open>popped\<close>.
\<close>

record 'c async_sys =
  alock :: "'c async_lock"
  popped :: "'c list"
  requested :: "'c list"
  granted :: "'c list"
  released :: nat

datatype 'c async_act = Acquire 'c | Release | Resume nat

definition acquire_body :: "'c \<Rightarrow> 'c async_sys \<Rightarrow> 'c async_sys" where
  "acquire_body c s =
     (case acquire (\<lambda>_. Some) c (alock s) of
        None \<Rightarrow> s
      | Some l \<Rightarrow>
          s\<lparr>alock := l, granted := (if m_acquired (alock s) then granted s else granted s @ [c])\<rparr>)"

definition release_body :: "'c async_sys \<Rightarrow> 'c async_sys" where
  "release_body s =
     (let l = (alock s)\<lparr>m_acquired := False\<rparr>
      in case m_wait_que l of
           [] \<Rightarrow> s\<lparr>alock := l, released := released s + 1\<rparr>
         | c # q \<Rightarrow>
             s\<lparr>alock := l\<lparr>m_wait_que := q\<rparr>, popped := popped s @ [c], released := released s + 1\<rparr>)"

fun async_exec :: "'c async_act \<Rightarrow> 'c async_sys \<Rightarrow> 'c async_sys option" where
  "async_exec (Acquire c) s = Some (acquire_body c (s\<lparr>requested := requested s @ [c]\<rparr>))"
| "async_exec Release s = (if m_acquired (alock s) then Some (release_body s) else None)"
| "async_exec (Resume k) s =
     (if k < length (popped s)
      then Some (acquire_body (popped s ! k)
                  (s\<lparr>popped := take k (popped s) @ drop (Suc k) (popped s)\<rparr>))
      else None)"

fun async_run :: "'c async_act list \<Rightarrow> 'c async_sys \<Rightarrow> 'c async_sys option" where
  "async_run [] s = Some s"
| "async_run (a # as) s = (case async_exec a s of None \<Rightarrow> None | Some s' \<Rightarrow> async_run as s')"

definition async_init :: "'c async_sys" where
  "async_init = \<lparr>alock = AsyncLock, popped = [], requested = [], granted = [], released = 0\<rparr>"

definition async_inv :: "'c async_sys \<Rightarrow> bool" where
  "async_inv s \<longleftrightarrow>
     \<not> m_slock (alock s) \<and>
     mset (requested s) = mset (granted s) + mset (m_wait_que (alock s)) + mset (popped s) \<and>
     length (granted s) = released s + (if m_acquired (alock s) then 1 else 0) \<and>
     (\<not> m_acquired (alock s) \<and> m_wait_que (alock s) \<noteq> [] \<longrightarrow> popped s \<noteq> [])"

lemma acquire_body_simp:
  assumes "\<not> m_slock (alock s)"
  shows "acquire_body c s =
    (if m_acquired (alock s) then s\<lparr>alock := (alock s)\<lparr>m_wait_que := m_wait_que (alock s) @ [c]\<rparr>\<rparr>
     else s\<lparr>alock := (alock s)\<lparr>m_acquired := True\<rparr>, granted := granted s @ [c]\<rparr>)"
  using assms lock_free by (simp add: acquire_body_def acquire_def clear_def)

lemma mset_remove_nth:
  "k < length xs \<Longrightarrow> mset xs = add_mset (xs ! k) (mset (take k xs @ drop (Suc k) xs))"
  using id_take_nth_drop [of k xs] by (metis mset.simps(2) mset_append union_mset_add_mset_right)

lemma async_exec_inv:
  assumes "async_exec a s = Some s'" and "async_inv s"
  shows "async_inv s'"
proof (cases a)
  case (Acquire c)
  then show ?thesis
    using assms unfolding async_inv_def by (auto simp: acquire_body_simp split: if_splits)
next
  case Release
  then show ?thesis
    using assms unfolding async_inv_def
    by (cases "m_wait_que (alock s)") (auto simp: release_body_def Let_def split: if_splits)
next
  case (Resume k)
  then have "mset (popped s) =
      add_mset (popped s ! k) (mset (take k (popped s) @ drop (Suc k) (popped s)))"
    using assms(1) mset_remove_nth by (metis async_exec.simps(3) option.distinct(1))
  with Resume assms show ?thesis
    unfolding async_inv_def by (auto simp: acquire_body_simp split: if_splits)
qed

lemma async_run_inv: "async_run as s = Some s' \<Longrightarrow> async_inv s \<Longrightarrow> async_inv s'"
  by (induction as arbitrary: s) (auto split: option.splits intro: async_exec_inv)

lemma async_init_inv: "async_inv async_init"
  by (simp add: async_inv_def async_init_def AsyncLock_def)

section \<open>Properties\<close>

text \<open>
  C10.  Mutual exclusion: in every interleaving of threads that use \<open>LockGuard\<close> and \<open>TryLockGuard\<close> on
  a \<open>SpinLock\<close>, at most one guard owns the lock, and the flag is set exactly while one does, so that
  an explicit \<open>unlock\<close> followed by the destructor never releases another thread's lock.
\<close>

theorem spinlock_mutex:
  assumes "lock_step\<^sup>*\<^sup>* lock_init s"
  shows "(\<forall>i j. guards s i = G_owner \<longrightarrow> guards s j = G_owner \<longrightarrow> i = j) \<and>
    (flag s \<longleftrightarrow> (\<exists>i. guards s i = G_owner))"
  using lock_reach_inv [OF assms] unfolding lock_inv_def .

theorem spinlock_mutex_witness:
  "\<exists>s. lock_step\<^sup>*\<^sup>* lock_init s \<and> guards s 0 = G_owner \<and> guards s 1 = G_trying 0 \<and> flag s"
proof -
  let ?s1 = "lock_init\<lparr>guards := (guards lock_init)(0 := G_spin)\<rparr>"
  let ?s2 = "?s1\<lparr>flag := True, guards := (guards ?s1)(0 := G_owner)\<rparr>"
  let ?s3 = "?s2\<lparr>guards := (guards ?s2)(1 := G_trying 0)\<rparr>"
  have "lock_step lock_init ?s1"
    by (rule lock_step.intros(1) [of 0 G_spin]) (simp add: guard_defs lock_init_def)
  moreover have "lock_step ?s1 ?s2"
    by (rule lock_step.intros(2) [of 0]) (simp add: guard_defs lock_init_def)
  moreover have "lock_step ?s2 ?s3"
    by (rule lock_step.intros(1) [of 1 "G_trying 0"]) (simp add: guard_defs lock_init_def)
  ultimately have r: "lock_step\<^sup>*\<^sup>* lock_init ?s3"
    by (meson converse_rtranclp_into_rtranclp rtranclp.rtrancl_refl)
  have "guards ?s3 0 = G_owner" "guards ?s3 1 = G_trying 0" by simp_all
  with spinlock_mutex [OF r] r show ?thesis by blast
qed

text \<open>
  C16.  \<open>AsyncLock\<close> grants one client at a time, loses no waiting callback, and never leaves a
  callback waiting on a free lock without a closure under way that will acquire for it: whatever the
  order of \<open>acquire\<close>, \<open>release\<close> and the calls of the closures that \<open>release\<close> took from the queue.
\<close>

theorem async_lock_safe:
  assumes "async_run as async_init = Some s"
  shows "length (granted s) = released s + (if m_acquired (alock s) then 1 else 0) \<and>
    mset (requested s) = mset (granted s) + mset (m_wait_que (alock s)) + mset (popped s) \<and>
    (\<not> m_acquired (alock s) \<and> popped s = [] \<longrightarrow> mset (granted s) = mset (requested s))"
  using async_run_inv [OF assms async_init_inv] unfolding async_inv_def by auto

theorem async_lock_safe_witness:
  "\<exists>s. async_run [Acquire 1, Acquire 2, Acquire 3, Release, Acquire 4, Resume 0, Release, Resume 0]
      async_init = Some s \<and> granted s = [1, 4, 3 :: nat] \<and>
     mset (requested s) = mset (granted s) + mset (m_wait_que (alock s)) + mset (popped s)"
  (is "\<exists>s. ?run = Some s \<and> _")
proof -
  have "?run \<noteq> None"
    by (simp add: async_init_def AsyncLock_def acquire_body_simp release_body_def Let_def)
  then obtain s where s: "?run = Some s" by blast
  moreover have "granted s = [1, 4, 3]"
    using s by (auto simp: async_init_def AsyncLock_def acquire_body_simp release_body_def Let_def)
  ultimately show ?thesis using async_lock_safe [OF s] by blast
qed

text \<open>
  A callback that releases the lock before it returns never returns: \<open>acquire\<close> calls it while
  the spin lock is held, and \<open>release\<close> spins on that lock.
\<close>

theorem async_lock_self_deadlock:
  assumes "\<not> m_acquired s" and "\<And>l. run c l = release run' l"
  shows "acquire run c s = None"
proof (cases "m_slock s")
  case False
  then show ?thesis
    using assms lock_free lock_held by (simp add: acquire_def release_def)
qed (simp add: acquire_def lock_held)

theorem async_lock_self_deadlock_witness:
  "acquire (\<lambda>_. release (\<lambda>_. Some)) (0 :: nat) AsyncLock = None"
  using async_lock_self_deadlock [of AsyncLock "\<lambda>_. release (\<lambda>_. Some)" "0 :: nat" "\<lambda>_. Some"]
  by (simp add: AsyncLock_def)

end
