(* ===== verification/Ring.thy ===== *)
theory Ring
  imports Prelude "HOL-Library.Sublist"
begin

text \<open>
  \<open>LockFreeQue\<close> of \<open>include/mola/work_steal.hpp\<close>: a worker's task queue, a ring of \<open>N\<close> slots between
  two 32-bit counters that wrap around.  The owner enqueues, dequeues and, when the ring is full,
  moves half of it to the global queue; thieves take half of it.  Every load and store of a
  counter, every copy of a slot and every compare-and-swap is a step.

  Ghost fields: the unbounded values of the two counters, the tasks in the order they were
  published, and the tasks in the order the head moved past them.
\<close>

section \<open>Threads and steps\<close>

text \<open>
  The owner is running \<open>__dequeue\<close> (\<open>None\<close>) or \<open>__enqueue\<close> of a task (\<open>Some\<close>), up to the
  copy of the tasks it takes from the head, or is publishing tasks (\<open>O_write\<close>: the tasks and how
  many are written): one from \<open>__enqueue\<close> or the rest of a stolen batch from \<open>__steal\<close>.
  A thief is in \<open>__grab\<close>.
\<close>

datatype 'w owner =
    O_idle
  | O_head "'w option"
  | O_tail "'w option" u32 nat
  | O_copy "'w option" u32 nat u32 "'w list"
  | O_bhead "'w list"
  | O_btail "'w list" u32 nat
  | O_write "'w list" nat

datatype 'w thief =
    S_idle
  | S_head
  | S_tail u32 nat
  | S_copy u32 nat u32 "'w list"
  | S_got "'w list"

record 'w ring =
  rhead :: u32
  rtail :: u32
  content :: "'w list"
  opc :: "'w owner"
  spc :: "nat \<Rightarrow> 'w thief"
  last_deq :: "'w option"
  spilled :: "'w list"
  ring_fault :: "fault option"
  gh :: nat
  gt :: nat
  pushed :: "'w list"
  taken :: "'w list"

definition ring_init :: "'w list \<Rightarrow> 'w ring" where
  "ring_init junk =
     \<lparr>rhead = 0, rtail = 0, content = junk, opc = O_idle, spc = (\<lambda>_. S_idle), last_deq = None,
      spilled = [], ring_fault = None, gh = 0, gt = 0, pushed = [], taken = []\<rparr>"

definition ring_slot :: "nat \<Rightarrow> u32 \<Rightarrow> nat" where
  "ring_slot N x = unat x mod N"

text \<open>A successful compare-and-swap of the head, by \<open>n\<close>, after the tasks in \<open>temp\<close> were copied.\<close>

definition advance :: "u32 \<Rightarrow> u32 \<Rightarrow> 'w list \<Rightarrow> 'w ring \<Rightarrow> 'w ring" where
  "advance h n temp s = s\<lparr>rhead := h + n, gh := gh s + unat n, taken := taken s @ temp\<rparr>"

text \<open>
  The owner starts a call.  \<open>__steal\<close> is only called after \<open>__dequeue\<close> found the own ring empty, and
  publishes at most one task less than \<open>__grab\<close> copied.
\<close>

definition owner_begin :: "nat \<Rightarrow> 'w owner \<Rightarrow> 'w ring \<Rightarrow> 'w ring option" where
  "owner_begin N p s =
     (if opc s = O_idle \<and>
         (case p of
            O_head x \<Rightarrow> True
          | O_bhead ws \<Rightarrow> length ws < N div 2 \<and> rhead s = rtail s
          | _ \<Rightarrow> False)
      then Some (s\<lparr>opc := p, last_deq := None\<rparr>) else None)"

definition owner_step :: "nat \<Rightarrow> 'w ring \<Rightarrow> 'w ring option" where
  "owner_step N s =
     (case opc s of
        O_head x \<Rightarrow> Some (s\<lparr>opc := O_tail x (rhead s) (gh s)\<rparr>)
      | O_tail x h hg \<Rightarrow>
          Some (s\<lparr>opc :=
            (case x of
               None \<Rightarrow> (if h = rtail s then O_idle else O_copy x h hg 1 [])
             | Some w \<Rightarrow> (if unat (rtail s - h) < N then O_write [w] 0
                          else O_copy x h hg ((rtail s - h) div 2) []))\<rparr>)
      | O_copy x h hg n temp \<Rightarrow>
          Some (if length temp < unat n
                then s\<lparr>opc := O_copy x h hg n
                         (temp @ [content s ! ring_slot N (h + of_nat (length temp))])\<rparr>
                else if rhead s = h
                then (case x of
                        None \<Rightarrow> (advance h n temp s)\<lparr>opc := O_idle, last_deq := Some (hd temp)\<rparr>
                      | Some w \<Rightarrow> (advance h n temp s)\<lparr>opc := O_idle, spilled := spilled s @ temp @ [w]\<rparr>)
                else s\<lparr>opc := O_head x\<rparr>)
      | O_bhead ws \<Rightarrow> Some (s\<lparr>opc := O_btail ws (rhead s) (gh s)\<rparr>)
      | O_btail ws h hg \<Rightarrow>
          Some (if unat (rtail s - h + of_nat (length ws)) < N then s\<lparr>opc := O_write ws 0\<rparr>
                else s\<lparr>ring_fault := Some Assert_failed\<rparr>)
      | O_write ws j \<Rightarrow>
          Some (if j < length ws
                then s\<lparr>content := (content s)[ring_slot N (rtail s + of_nat j) := ws ! j],
                       opc := O_write ws (Suc j)\<rparr>
                else s\<lparr>rtail := rtail s + of_nat j, opc := O_idle,
                       gt := gt s + j, pushed := pushed s @ ws\<rparr>)
      | O_idle \<Rightarrow> None)"

text \<open>
  \<open>__grab\<close>.  A thief's two loads and its compare-and-swap are enabled while the counters
  advanced by less than \<open>2\<^sup>3\<^sup>2\<close> since it loaded the head: no thread sleeps through a whole
  wrap-around of the counters.
\<close>

definition thief_begin :: "nat \<Rightarrow> 'w ring \<Rightarrow> 'w ring option" where
  "thief_begin i s =
     (case spc s i of
        S_idle \<Rightarrow> Some (s\<lparr>spc := (spc s)(i := S_head)\<rparr>)
      | S_got temp \<Rightarrow> Some (s\<lparr>spc := (spc s)(i := S_idle)\<rparr>)
      | _ \<Rightarrow> None)"

definition thief_step :: "nat \<Rightarrow> nat \<Rightarrow> 'w ring \<Rightarrow> 'w ring option" where
  "thief_step N i s =
     (case spc s i of
        S_head \<Rightarrow> Some (s\<lparr>spc := (spc s)(i := S_tail (rhead s) (gh s))\<rparr>)
      | S_tail h hg \<Rightarrow>
          if gt s < hg + 2 ^ 32 then
            let d = rtail s - h; n = d - d div 2
            in Some (s\<lparr>spc := (spc s)(i :=
                 (if n = 0 then S_got []
                  else if unat n > N div 2 then S_head
                  else S_copy h hg n []))\<rparr>)
          else None
      | S_copy h hg n temp \<Rightarrow>
          if gt s < hg + 2 ^ 32 then
            Some (if length temp < unat n
                  then s\<lparr>spc := (spc s)(i := S_copy h hg n
                           (temp @ [content s ! ring_slot N (h + of_nat (length temp))]))\<rparr>
                  else if rhead s = h
                  then (advance h n temp s)\<lparr>spc := (spc s)(i := S_got temp)\<rparr>
                  else s\<lparr>spc := (spc s)(i := S_head)\<rparr>)
          else None
      | _ \<Rightarrow> None)"

inductive ring_step :: "nat \<Rightarrow> 'w ring \<Rightarrow> 'w ring \<Rightarrow> bool" for N where
  obegin: "owner_begin N p s = Some s' \<Longrightarrow> ring_step N s s'"
| ostep: "owner_step N s = Some s' \<Longrightarrow> ring_step N s s'"
| tbegin: "thief_begin i s = Some s' \<Longrightarrow> ring_step N s s'"
| tstep: "thief_step N i s = Some s' \<Longrightarrow> ring_step N s s'"

section \<open>The invariant\<close>

definition ring_ok :: "nat \<Rightarrow> 'w ring \<Rightarrow> bool" where
  "ring_ok N s \<longleftrightarrow>
     gh s \<le> gt s \<and> gt s \<le> gh s + N \<and> rhead s = of_nat (gh s) \<and> rtail s = of_nat (gt s) \<and>
     length (content s) = N \<and> length (pushed s) = gt s \<and> taken s = take (gh s) (pushed s) \<and>
     ring_fault s = None \<and> (\<forall>k. gh s \<le> k \<longrightarrow> k < gt s \<longrightarrow> content s ! (k mod N) = pushed s ! k)"

text \<open>What a thread that loaded the head at \<open>hg\<close> and copied \<open>temp\<close> knows.\<close>

definition copying :: "'w ring \<Rightarrow> u32 \<Rightarrow> nat \<Rightarrow> u32 \<Rightarrow> 'w list \<Rightarrow> bool" where
  "copying s h hg n temp \<longleftrightarrow>
     h = of_nat hg \<and> hg \<le> gh s \<and> hg + unat n \<le> gt s \<and> length temp \<le> unat n \<and>
     (hg = gh s \<longrightarrow> temp = take (length temp) (drop hg (pushed s)))"

fun oloc :: "nat \<Rightarrow> 'w ring \<Rightarrow> 'w owner \<Rightarrow> bool" where
  "oloc N s (O_tail x h hg) \<longleftrightarrow> h = of_nat hg \<and> hg \<le> gh s \<and> gt s \<le> hg + N"
| "oloc N s (O_copy x h hg n temp) \<longleftrightarrow>
     copying s h hg n temp \<and> gt s \<le> hg + N \<and> (x = None \<longrightarrow> n = 1) \<and> (x \<noteq> None \<longrightarrow> unat n \<le> N div 2)"
| "oloc N s (O_bhead ws) \<longleftrightarrow> length ws < N div 2 \<and> gt s = gh s"
| "oloc N s (O_btail ws h hg) \<longleftrightarrow> length ws < N div 2 \<and> h = of_nat hg \<and> hg = gh s \<and> gt s = gh s"
| "oloc N s (O_write ws j) \<longleftrightarrow>
     gt s + length ws \<le> gh s + N \<and> j \<le> length ws \<and>
     (\<forall>i<j. content s ! ((gt s + i) mod N) = ws ! i)"
| "oloc N s _ \<longleftrightarrow> True"

fun sloc :: "nat \<Rightarrow> 'w ring \<Rightarrow> 'w thief \<Rightarrow> bool" where
  "sloc N s (S_tail h hg) \<longleftrightarrow> h = of_nat hg \<and> hg \<le> gh s"
| "sloc N s (S_copy h hg n temp) \<longleftrightarrow> copying s h hg n temp \<and> unat n \<le> N div 2"
| "sloc N s _ \<longleftrightarrow> True"

definition ring_inv :: "nat \<Rightarrow> 'w ring \<Rightarrow> bool" where
  "ring_inv N s \<longleftrightarrow> ring_ok N s \<and> oloc N s (opc s) \<and> (\<forall>i. sloc N s (spc s i))"

section \<open>Counters that wrap around\<close>

lemma slot_of_nat: "N dvd 2 ^ 32 \<Longrightarrow> ring_slot N (of_nat k) = k mod N"
  by (simp add: ring_slot_def unat_of_nat mod_mod_cancel)

lemma slot_add: "N dvd 2 ^ 32 \<Longrightarrow> ring_slot N (of_nat a + of_nat b) = (a + b) mod N"
  by (metis of_nat_add slot_of_nat)

lemma unat_counter_diff:
  "a \<le> b \<Longrightarrow> b < a + 2 ^ 32 \<Longrightarrow> unat (of_nat b - of_nat a :: u32) = b - a"
  by (simp add: of_nat_diff [symmetric] unat_of_nat del: of_nat_diff)

lemma mod_eq_close:
  assumes "a mod N = b mod N" and "a \<le> b" and "b < a + N"
  shows "a = (b :: nat)"
proof -
  have "N dvd b - a" using assms(1,2) mod_eq_dvd_iff_nat by metis
  then have "b - a = 0" using assms(3) by (metis dvd_imp_le less_diff_conv2 assms(2) not_le neq0_conv add.commute)
  with assms(2) show ?thesis by simp
qed

lemma counter_eq:
  assumes "(of_nat a :: u32) = of_nat b" and "a \<le> b" and "b < a + 2 ^ 32"
  shows "a = b"
  using assms unat_counter_diff [of a b] by simp

section \<open>Preservation\<close>

lemma ring_okD:
  assumes "ring_ok N s"
  shows "gh s \<le> gt s" and "gt s \<le> gh s + N" and "rhead s = of_nat (gh s)" and "rtail s = of_nat (gt s)"
    and "length (content s) = N" and "length (pushed s) = gt s" and "taken s = take (gh s) (pushed s)"
    and "ring_fault s = None"
    and "\<And>k. gh s \<le> k \<Longrightarrow> k < gt s \<Longrightarrow> content s ! (k mod N) = pushed s ! k"
  using assms unfolding ring_ok_def by blast+

lemma copying_step:
  assumes N: "N dvd 2 ^ 32" and ok: "ring_ok N s" and c: "copying s h hg n temp"
    and lt: "length temp < unat n"
  shows "copying s h hg n (temp @ [content s ! ring_slot N (h + of_nat (length temp))])"
proof -
  note R = ring_okD [OF ok]
  let ?k = "hg + length temp"
  have sl: "ring_slot N (h + of_nat (length temp)) = ?k mod N"
    using c slot_add [OF N] unfolding copying_def by blast
  have "temp @ [content s ! (?k mod N)] = take (Suc (length temp)) (drop hg (pushed s))"
    if "hg = gh s"
  proof -
    have k: "gh s \<le> ?k" "?k < gt s" using that c lt unfolding copying_def by auto
    have "take (Suc (length temp)) (drop hg (pushed s)) =
        take (length temp) (drop hg (pushed s)) @ [pushed s ! ?k]"
      using k R(6) by (subst take_Suc_conv_app_nth) auto
    moreover have "temp = take (length temp) (drop hg (pushed s))"
      using that c unfolding copying_def by blast
    ultimately show ?thesis using R(9) [OF k] by simp
  qed
  then have "hg = gh s \<longrightarrow> temp @ [content s ! (?k mod N)] =
      take (length (temp @ [content s ! (?k mod N)])) (drop hg (pushed s))"
    by (metis length_append_singleton)
  moreover have "length (temp @ [content s ! (?k mod N)]) \<le> unat n" using lt by simp
  ultimately show ?thesis using c unfolding sl copying_def by blast
qed

lemma copying_frame:
  assumes "copying s h hg n temp" and "gh s \<le> gh s'" and "gt s \<le> gt s'"
    and "prefix (pushed s) (pushed s')" and "gt s = length (pushed s)"
  shows "copying s' h hg n temp"
proof -
  obtain zs where "pushed s' = pushed s @ zs" using assms(4) by (auto simp: prefix_def)
  with assms show ?thesis unfolding copying_def by (auto simp: drop_append)
qed

lemma sloc_frame:
  assumes "sloc N s p" and "gh s \<le> gh s'" and "gt s \<le> gt s'"
    and "prefix (pushed s) (pushed s')" and "gt s = length (pushed s)"
  shows "sloc N s' p"
  using assms by (cases p) (auto intro: copying_frame)

lemma advance_ok:
  assumes ok: "ring_ok N s" and c: "copying s h hg n temp" and len: "length temp = unat n"
    and hd: "rhead s = h" and close: "gh s < hg + 2 ^ 32"
  shows "ring_ok N (advance h n temp s)"
    and "gh s = hg" and "gh (advance h n temp s) = gh s + unat n"
proof -
  note R = ring_okD [OF ok]
  have C: "h = of_nat hg" "hg \<le> gh s" "hg + unat n \<le> gt s"
    "hg = gh s \<longrightarrow> temp = take (length temp) (drop hg (pushed s))"
    using c unfolding copying_def by blast+
  have "(of_nat hg :: u32) = of_nat (gh s)" using C(1) hd R(3) by (simp only:)
  from counter_eq [OF this C(2) close] show hg: "gh s = hg" by (rule sym)
  have "h + n = of_nat (gh s + unat n)" unfolding C(1) hg by simp
  moreover have "taken s @ temp = take (gh s + unat n) (pushed s)"
    using R(7) C(4) hg len by (metis take_add)
  ultimately show "ring_ok N (advance h n temp s)"
    using R(1-6,8,9) C(3) hg unfolding ring_ok_def advance_def by simp
qed (simp add: advance_def)

lemma write_ok:
  assumes N: "N dvd 2 ^ 32" "0 < N" and ok: "ring_ok N s" and l: "oloc N s (O_write ws j)" and "j < length ws"
  shows "ring_ok N (s\<lparr>content := (content s)[ring_slot N (rtail s + of_nat j) := ws ! j]\<rparr>)"
    and "oloc N (s\<lparr>content := (content s)[ring_slot N (rtail s + of_nat j) := ws ! j]\<rparr>) (O_write ws (Suc j))"
proof -
  note R = ring_okD [OF ok]
  let ?k = "gt s + j"
  have k: "ring_slot N (rtail s + of_nat j) = ?k mod N" using slot_add [OF N(1)] R(4) by simp
  have room: "gt s + length ws \<le> gh s + N" using l by simp
  have "i mod N \<noteq> ?k mod N" if "gh s \<le> i" "i < ?k" for i
    using mod_eq_close [of i N ?k] that room assms(5) by auto
  then have "(content s)[?k mod N := ws ! j] ! (i mod N) = pushed s ! i" if "gh s \<le> i" "i < gt s" for i
    using R(9) [OF that] that by (metis nth_list_update_neq trans_less_add1)
  with R show "ring_ok N (s\<lparr>content := (content s)[ring_slot N (rtail s + of_nat j) := ws ! j]\<rparr>)"
    unfolding ring_ok_def k by simp
  have ne: "(gt s + i) mod N \<noteq> ?k mod N" if "i < j" for i
    using mod_eq_close [of "gt s + i" N ?k] that room assms(5) R(1) by auto
  show "oloc N (s\<lparr>content := (content s)[ring_slot N (rtail s + of_nat j) := ws ! j]\<rparr>) (O_write ws (Suc j))"
  proof -
    have "(content s)[?k mod N := ws ! j] ! ((gt s + i) mod N) = ws ! i" if "i < Suc j" for i
    proof (cases "i = j")
      case True
      then show ?thesis using R(5) N(2) by simp
    next
      case False
      then have "i < j" using that by simp
      with ne [of i] l show ?thesis by (metis nth_list_update_neq oloc.simps(5))
    qed
    then show ?thesis using l assms(5) unfolding k by simp
  qed
qed

lemma publish_ok:
  assumes N: "0 < N" and ok: "ring_ok N s" and l: "oloc N s (O_write ws (length ws))"
  shows "ring_ok N (s\<lparr>rtail := rtail s + of_nat (length ws), opc := O_idle,
     gt := gt s + length ws, pushed := pushed s @ ws\<rparr>)"
proof -
  note R = ring_okD [OF ok]
  have "content s ! (k mod N) = (pushed s @ ws) ! k" if "gh s \<le> k" "k < gt s + length ws" for k
  proof (cases "k < gt s")
    case True
    then show ?thesis using R(6,9) that by (simp add: nth_append)
  next
    case False
    then have lt: "k - gt s < length ws" using that by linarith
    have "content s ! ((gt s + (k - gt s)) mod N) = ws ! (k - gt s)"
      using l lt unfolding oloc.simps by blast
    then show ?thesis using R(6) False by (simp add: nth_append)
  qed
  then show ?thesis using R l unfolding ring_ok_def by simp
qed

lemma ring_invI_owner:
  assumes inv: "ring_inv N s" and "ring_ok N s'" and "oloc N s' (opc s')" and "spc s' = spc s"
    and "gh s \<le> gh s'" and "gt s \<le> gt s'" and "prefix (pushed s) (pushed s')"
  shows "ring_inv N s'"
proof -
  have "gt s = length (pushed s)" using inv ring_okD(6) unfolding ring_inv_def by metis
  then have "sloc N s' (spc s' i)" for i
    using inv assms(4-7) sloc_frame unfolding ring_inv_def by metis
  then show ?thesis using assms(2,3) unfolding ring_inv_def by blast
qed

lemma ring_ok_opc [simp]:
  "ring_ok N (s\<lparr>opc := p\<rparr>) = ring_ok N s" "ring_ok N (s\<lparr>spc := q\<rparr>) = ring_ok N s"
  "ring_ok N (s\<lparr>opc := p, last_deq := d\<rparr>) = ring_ok N s"
  "ring_ok N (s\<lparr>opc := p, spilled := z\<rparr>) = ring_ok N s"
  unfolding ring_ok_def by simp_all

lemma copying_opc [simp]:
  "copying (s\<lparr>opc := p\<rparr>) = copying s" "copying (s\<lparr>spc := q\<rparr>) = copying s"
  unfolding copying_def by (intro ext; simp)+

lemma owner_tail_loc:
  assumes ok: "ring_ok N s" and l: "oloc N s (O_tail x h hg)" and N: "N < 2 ^ 32"
  shows "h \<noteq> rtail s \<Longrightarrow> oloc N s (O_copy None h hg 1 [])"
    and "unat (rtail s - h) < N \<Longrightarrow> oloc N s (O_write [w] 0)"
    and "oloc N s (O_copy (Some w) h hg ((rtail s - h) div 2) [])"
proof -
  note R = ring_okD [OF ok]
  have d: "unat (rtail s - h) = gt s - hg"
    using l R(1,4) N unat_counter_diff [of hg "gt s"] by simp
  have le: "hg \<le> gh s" "hg \<le> gt s" using l R(1) by auto
  show "oloc N s (O_copy None h hg 1 [])" if "h \<noteq> rtail s"
  proof -
    have "hg \<noteq> gt s" using that l R(4) by auto
    then show ?thesis using l le by (simp add: copying_def)
  qed
  show "oloc N s (O_write [w] 0)" if "unat (rtail s - h) < N"
    using that d le by simp
  have "unat ((rtail s - h) div 2) = (gt s - hg) div 2" by (simp add: unat_div d)
  moreover have "hg + (gt s - hg) div 2 \<le> gt s" using le by linarith
  moreover have "(gt s - hg) div 2 \<le> N div 2" using l by (intro div_le_mono) auto
  ultimately show "oloc N s (O_copy (Some w) h hg ((rtail s - h) div 2) [])"
    using l le by (simp add: copying_def)
qed

lemma owner_begin_inv:
  assumes inv: "ring_inv N s" and N: "N < 2 ^ 32" and step: "owner_begin N p s = Some s'"
  shows "ring_inv N s'"
proof -
  have ok: "ring_ok N s" using inv unfolding ring_inv_def by blast
  note R = ring_okD [OF ok]
  have s': "s' = s\<lparr>opc := p, last_deq := None\<rparr>"
    using step by (simp add: owner_begin_def split: if_splits)
  have "gh s = gt s" if "rhead s = rtail s"
    using that R(1-4) N counter_eq [of "gh s" "gt s"] by simp
  then have "oloc N s' p"
    using step unfolding owner_begin_def s' by (cases p) (auto split: if_splits)
  then show ?thesis using s' ok by (intro ring_invI_owner [OF inv]) simp_all
qed

lemma owner_cas_inv:
  assumes inv: "ring_inv N s" and pc: "opc s = O_copy x h hg n temp" and N: "N < 2 ^ 32"
    and len: "\<not> length temp < unat n" and hd: "rhead s = h"
  shows "ring_ok N (advance h n temp s)" and "gh s \<le> gh (advance h n temp s)"
proof -
  have ok: "ring_ok N s" and c: "copying s h hg n temp" "gt s \<le> hg + N"
    using inv pc unfolding ring_inv_def by auto
  have "length temp = unat n" using c(1) len unfolding copying_def by auto
  moreover have "gh s < hg + 2 ^ 32" using c(2) ring_okD(1) [OF ok] N by linarith
  ultimately show "ring_ok N (advance h n temp s)" "gh s \<le> gh (advance h n temp s)"
    using advance_ok [OF ok c(1) _ hd] by simp_all
qed

lemma advance_simps [simp]:
  "opc (advance h n temp s) = opc s" "spc (advance h n temp s) = spc s"
  "gt (advance h n temp s) = gt s" "pushed (advance h n temp s) = pushed s"
  "content (advance h n temp s) = content s" "taken (advance h n temp s) = taken s @ temp"
  by (simp_all add: advance_def)

lemma owner_step_inv:
  assumes inv: "ring_inv N s" and N: "N dvd 2 ^ 32" "0 < N" "N < 2 ^ 32"
    and step: "owner_step N s = Some s'"
  shows "ring_inv N s'"
proof -
  have ok: "ring_ok N s" and l: "oloc N s (opc s)" using inv unfolding ring_inv_def by blast+
  note R = ring_okD [OF ok]
  show ?thesis
  proof (cases "opc s")
    case (O_head x)
    then show ?thesis
      using step R(2,3) ok by (intro ring_invI_owner [OF inv]) (auto simp: owner_step_def)
  next
    case (O_tail x h hg)
    note L = owner_tail_loc [OF ok l [unfolded O_tail] N(3)]
    show ?thesis
      using step O_tail ok L
      by (intro ring_invI_owner [OF inv]) (auto simp: owner_step_def split: option.splits)
  next
    case (O_copy x h hg n temp)
    note C = owner_cas_inv [OF inv O_copy N(3)]
    show ?thesis
      using step O_copy ok l copying_step [OF N(1) ok, of h hg n temp] C
      by (intro ring_invI_owner [OF inv])
        (auto simp: owner_step_def split: option.splits if_splits)
  next
    case (O_bhead ws)
    then show ?thesis
      using step R(3) l ok by (intro ring_invI_owner [OF inv]) (auto simp: owner_step_def)
  next
    case (O_btail ws h hg)
    then have "length ws < N div 2" using l by simp
    then have "length ws < 2 ^ 32" using N(3) by linarith
    then have "unat (rtail s - h + of_nat (length ws)) = length ws"
      using l O_btail R(4) by (simp add: unat_of_nat)
    then show ?thesis
      using step l ok O_btail by (intro ring_invI_owner [OF inv]) (auto simp: owner_step_def)
  next
    case (O_write ws j)
    note W = write_ok [OF N(1,2) ok l [unfolded O_write]]
    show ?thesis
    proof (cases "j < length ws")
      case True
      then show ?thesis
        using step O_write W [OF True] by (intro ring_invI_owner [OF inv]) (auto simp: owner_step_def)
    next
      case False
      then have "j = length ws" using l O_write by simp
      then show ?thesis
        using step O_write False publish_ok [OF N(2) ok, of ws] l
        by (intro ring_invI_owner [OF inv]) (auto simp: owner_step_def)
    qed
  qed (use step in \<open>simp add: owner_step_def\<close>)
qed

lemma oloc_frame:
  assumes "oloc N s p" and "ring_ok N s" and "ring_ok N s'" and "gh s \<le> gh s'" and "gt s' = gt s"
    and "pushed s' = pushed s" and "content s' = content s"
  shows "oloc N s' p"
proof (cases p)
  case (O_copy x h hg n temp)
  have a: "copying s h hg n temp" using assms(1) unfolding O_copy by simp
  have "copying s' h hg n temp"
    using assms(4-6) ring_okD(6) [OF assms(2)] by (intro copying_frame [OF a]) simp_all
  then show ?thesis using assms(1,5) O_copy by simp
next
  case (O_tail x h hg)
  then show ?thesis using assms(1,4,5) by simp
next
  case (O_bhead ws)
  have "gh s' \<le> gt s" using ring_okD(1) [OF assms(3)] assms(5) by simp
  then show ?thesis using assms(1,4,5) unfolding O_bhead by simp
next
  case (O_btail ws h hg)
  have "gh s' \<le> gt s" using ring_okD(1) [OF assms(3)] assms(5) by simp
  then show ?thesis using assms(1,4,5) unfolding O_btail by auto
next
  case (O_write ws j)
  then show ?thesis using assms(1,4,5,7) unfolding O_write by auto
qed simp_all

lemma ring_invI_thief:
  assumes inv: "ring_inv N s" and "ring_ok N s'" and "gh s \<le> gh s'" and "gt s' = gt s"
    and "pushed s' = pushed s" and "content s' = content s" and "opc s' = opc s"
    and "spc s' = (spc s)(i := p)" and "sloc N s' p"
  shows "ring_inv N s'"
proof -
  have ok: "ring_ok N s" using inv unfolding ring_inv_def by blast
  have "oloc N s' (opc s')"
    using inv assms(2-7) oloc_frame [OF _ ok assms(2-6)] unfolding ring_inv_def by simp
  moreover have "sloc N s' (spc s' j)" for j
  proof (cases "j = i")
    case False
    have l: "sloc N s (spc s j)" using inv unfolding ring_inv_def by blast
    have "sloc N s' (spc s j)"
      using assms(3-5) ring_okD(6) [OF ok] by (intro sloc_frame [OF l]) simp_all
    with False show ?thesis by (simp add: assms(8))
  qed (simp add: assms(8,9))
  ultimately show ?thesis using assms(2) unfolding ring_inv_def by blast
qed

lemma thief_tail_loc:
  assumes ok: "ring_ok N s" and l: "sloc N s (S_tail h hg)" and near: "gt s < hg + 2 ^ 32"
    and n: "n = (rtail s - h) - (rtail s - h) div 2" and "unat n \<le> N div 2"
  shows "sloc N s (S_copy h hg n [])"
proof -
  note R = ring_okD [OF ok]
  have d: "unat (rtail s - h) = gt s - hg"
    using l R(1,4) near unat_counter_diff [of hg "gt s"] by simp
  have "(rtail s - h) div 2 \<le> rtail s - h" by (simp add: word_le_nat_alt unat_div)
  then have "unat n = (gt s - hg) - (gt s - hg) div 2"
    unfolding n by (simp add: unat_sub unat_div d)
  then have "hg + unat n \<le> gt s" using l R(1) by (simp del: oloc.simps) linarith
  with l assms(5) show ?thesis by (simp add: copying_def)
qed

lemma thief_step_inv:
  assumes inv: "ring_inv N s" and N: "N dvd 2 ^ 32" and step: "thief_step N i s = Some s'"
  shows "ring_inv N s'"
proof -
  have ok: "ring_ok N s" and l: "sloc N s (spc s i)" using inv unfolding ring_inv_def by blast+
  note R = ring_okD [OF ok]
  show ?thesis
  proof (cases "spc s i")
    case S_head
    then show ?thesis
      using step R(3) ok
      by (intro ring_invI_thief [OF inv, of s' i "S_tail (rhead s) (gh s)"]) (auto simp: thief_step_def)
  next
    case (S_tail h hg)
    let ?n = "(rtail s - h) - (rtail s - h) div 2"
    let ?p = "if ?n = 0 then S_got [] else if unat ?n > N div 2 then S_head else S_copy h hg ?n []"
    have near: "gt s < hg + 2 ^ 32" and s': "s' = s\<lparr>spc := (spc s)(i := ?p)\<rparr>"
      using step S_tail by (simp_all add: thief_step_def Let_def split: if_splits)
    have "sloc N s ?p"
      using thief_tail_loc [OF ok l [unfolded S_tail] near refl] by (simp del: sloc.simps(2))
    then have "sloc N s' ?p" unfolding s' by (auto split: if_splits)
    then show ?thesis using ok by (intro ring_invI_thief [OF inv, of s' i ?p]) (simp_all add: s')
  next
    case (S_copy h hg n temp)
    have c: "copying s h hg n temp" and n: "unat n \<le> N div 2" using l S_copy by simp_all
    have near: "gt s < hg + 2 ^ 32" using step S_copy by (simp add: thief_step_def split: if_splits)
    consider (copy) "length temp < unat n" | (cas) "\<not> length temp < unat n" "rhead s = h"
      | (retry) "\<not> length temp < unat n" "rhead s \<noteq> h" by blast
    then show ?thesis
    proof cases
      case copy
      let ?p = "S_copy h hg n (temp @ [content s ! ring_slot N (h + of_nat (length temp))])"
      have "s' = s\<lparr>spc := (spc s)(i := ?p)\<rparr>"
        using step S_copy near copy by (simp add: thief_step_def)
      then show ?thesis
        using ok n copying_step [OF N ok c copy]
        by (intro ring_invI_thief [OF inv, of s' i ?p]) simp_all
    next
      case cas
      have "length temp = unat n" using c cas(1) unfolding copying_def by simp
      note A = advance_ok [OF ok c this cas(2) le_less_trans [OF R(1) near]]
      have "s' = (advance h n temp s)\<lparr>spc := (spc s)(i := S_got temp)\<rparr>"
        using step S_copy near cas by (simp add: thief_step_def)
      then show ?thesis
        using A by (intro ring_invI_thief [OF inv, of s' i "S_got temp"]) simp_all
    next
      case retry
      have "s' = s\<lparr>spc := (spc s)(i := S_head)\<rparr>"
        using step S_copy near retry by (simp add: thief_step_def)
      then show ?thesis
        using ok by (intro ring_invI_thief [OF inv, of s' i S_head]) simp_all
    qed
  qed (use step in \<open>simp_all add: thief_step_def\<close>)
qed

lemma thief_begin_inv:
  assumes inv: "ring_inv N s" and step: "thief_begin i s = Some s'"
  shows "ring_inv N s'"
proof -
  have ok: "ring_ok N s" using inv unfolding ring_inv_def by blast
  obtain p where "s' = s\<lparr>spc := (spc s)(i := p)\<rparr>" "p = S_head \<or> p = S_idle"
    using step by (auto simp: thief_begin_def split: thief.splits)
  then show ?thesis using ok by (intro ring_invI_thief [OF inv, of s' i p]) auto
qed

lemma ring_init_inv: "length junk = N \<Longrightarrow> ring_inv N (ring_init junk)"
  by (simp add: ring_inv_def ring_init_def ring_ok_def)

lemma ring_reach_inv:
  assumes "(ring_step N)\<^sup>*\<^sup>* (ring_init junk) s" and "length junk = N"
    and N: "N dvd 2 ^ 32" "0 < N" "N < 2 ^ 32"
  shows "ring_inv N s"
  using assms(1)
proof (induction rule: rtranclp_induct)
  case base
  show ?case using assms(2) by (rule ring_init_inv)
next
  case (step s s')
  from step.hyps(2) step.IH show ?case
    by (cases rule: ring_step.cases)
      (auto intro: owner_begin_inv owner_step_inv thief_begin_inv thief_step_inv N)
qed

section \<open>Schedules\<close>

datatype 'w ring_act = Act_owner "'w owner" | Act_o | Act_thief nat | Act_t nat

fun ring_exec :: "nat \<Rightarrow> 'w ring_act \<Rightarrow> 'w ring \<Rightarrow> 'w ring option" where
  "ring_exec N (Act_owner p) s = owner_begin N p s"
| "ring_exec N Act_o s = owner_step N s"
| "ring_exec N (Act_thief i) s = thief_begin i s"
| "ring_exec N (Act_t i) s = thief_step N i s"

fun ring_run :: "nat \<Rightarrow> 'w ring_act list \<Rightarrow> 'w ring \<Rightarrow> 'w ring option" where
  "ring_run N [] s = Some s"
| "ring_run N (l # ls) s = (case ring_exec N l s of None \<Rightarrow> None | Some s' \<Rightarrow> ring_run N ls s')"

lemma ring_exec_step: "ring_exec N l s = Some s' \<Longrightarrow> ring_step N s s'"
  by (cases l) (auto intro: ring_step.intros)

lemma ring_run_steps: "ring_run N ls s = Some s' \<Longrightarrow> (ring_step N)\<^sup>*\<^sup>* s s'"
proof (induction ls arbitrary: s)
  case (Cons l ls)
  then obtain s1 where "ring_exec N l s = Some s1" "ring_run N ls s1 = Some s'"
    by (auto split: option.splits)
  then show ?case using Cons.IH ring_exec_step by (metis converse_rtranclp_into_rtranclp)
qed simp

lemmas ring_run_simps = ring_init_def owner_begin_def owner_step_def thief_begin_def thief_step_def
  ring_slot_def advance_def

section \<open>Properties\<close>





end
