(* ===== verification/Work_Steal.thy ===== *)
theory Work_Steal
  imports Prelude "HOL-Library.Multiset"
begin

text \<open>
  The work-stealing scheduler, \<open>include/mola/work_steal.hpp\<close> and the random numbers of
  \<open>include/mola/scheduler.hpp\<close>.  \<open>WorkStealStrategy::dequeue\<close> is a template method over four
  virtual operations; the locale \<open>steal_strategy\<close> is their contract and carries the proof that
  a round of it hands out exactly one pending task.  \<open>SimpleStrategy\<close> and \<open>LockFreeStrategy\<close>
  are its two instances.  Each call on a worker's queue is atomic here, which the theories of
  the ring and of the linked queue justify.  The last part is the protocol by which idle workers sleep.
\<close>

section \<open>Random numbers\<close>

definition RNGMOD :: nat where "RNGMOD = 2 ^ 32 - 5"

definition RNGMUL :: nat where "RNGMUL = 69070"

definition rng_srand :: "u32 \<Rightarrow> u32" where
  "rng_srand s = (let s = s mod of_nat RNGMOD in s + (if s = 0 then 1 else 0))"

definition rng_random :: "u32 \<Rightarrow> u32" where
  "rng_random seed = ucast ((of_nat RNGMUL * (ucast seed :: u64)) mod of_nat RNGMOD)"

definition seed_ok :: "u32 \<Rightarrow> bool" where
  "seed_ok s \<longleftrightarrow> 0 < unat s \<and> unat s < RNGMOD"

lemma unat_srand: "unat (rng_srand s) = (let r = unat s mod RNGMOD in if r = 0 then 1 else r)"
proof -
  have u: "unat (s mod of_nat RNGMOD) = unat s mod RNGMOD"
    by (simp add: unat_mod RNGMOD_def)
  show ?thesis
  proof (cases "s mod of_nat RNGMOD = 0")
    case True
    then show ?thesis using u by (simp add: rng_srand_def Let_def)
  next
    case False
    then have "unat (s mod of_nat RNGMOD) \<noteq> 0" by (simp add: unat_eq_zero)
    with False u show ?thesis by (simp add: rng_srand_def Let_def)
  qed
qed

lemma unat_random: "unat (rng_random s) = (RNGMUL * unat s) mod RNGMOD"
proof -
  have b: "RNGMUL * unat s < 2 ^ 64"
  proof -
    have "69070 * unat s < 69070 * 2 ^ 32" using unat_lt_u32 [of s] by simp
    then show ?thesis unfolding RNGMUL_def by simp
  qed
  have u: "unat (ucast s :: u64) = unat s"
    by (rule unat_ucast_up) simp
  have "unat (of_nat RNGMUL * (ucast s :: u64)) = RNGMUL * unat s"
    using b by (simp add: unat_word_ariths u RNGMUL_def)
  then have "unat ((of_nat RNGMUL * (ucast s :: u64)) mod of_nat RNGMOD) = (RNGMUL * unat s) mod RNGMOD"
    by (simp add: unat_mod RNGMOD_def)
  moreover have "(RNGMUL * unat s) mod RNGMOD < 2 ^ 32"
    by (rule less_trans [OF mod_less_divisor]) (simp_all add: RNGMOD_def)
  ultimately show ?thesis
    unfolding rng_random_def by (simp add: unat_ucast_mod)
qed

lemma coprime_rng: "coprime RNGMUL RNGMOD"
  unfolding RNGMUL_def RNGMOD_def coprime_iff_gcd_eq_1 by (simp add: gcd_non_0_nat)

lemma random_ok:
  assumes "seed_ok s"
  shows "seed_ok (rng_random s)"
proof -
  have "\<not> RNGMOD dvd RNGMUL * unat s"
    using assms coprime_rng unfolding seed_ok_def
    by (metis coprime_commute coprime_dvd_mult_right_iff dvd_imp_le not_le)
  then show ?thesis
    unfolding seed_ok_def unat_random
    by (simp add: mod_greater_zero_iff_not_dvd) (simp add: RNGMOD_def)
qed

lemma srand_ok: "seed_ok (rng_srand s)"
  unfolding seed_ok_def unat_srand Let_def by (simp add: RNGMOD_def)

section \<open>The strategies\<close>

text \<open>
  An operation that takes a task: it returns one and removes exactly it from the pending tasks, or
  returns null and leaves them as they are.
\<close>

definition takes_one :: "('s \<Rightarrow> bool) \<Rightarrow> ('s \<Rightarrow> 'w multiset) \<Rightarrow> ('s \<Rightarrow> 'w option \<times> 's) \<Rightarrow> bool" where
  "takes_one ok jobs f \<longleftrightarrow>
     (\<forall>s r s'. ok s \<longrightarrow> f s = (r, s') \<longrightarrow>
        ok s' \<and> jobs s = (case r of None \<Rightarrow> jobs s' | Some w \<Rightarrow> add_mset w (jobs s')))"

text \<open>
  \<open>SimpleStrategy\<close>: one queue per thread and a global one behind them.  A queue is the list of its
  tasks.
\<close>

definition simple_new :: "nat \<Rightarrow> 'w list list" where
  "simple_new thr = replicate (thr + 1) []"

definition simple_enqueue :: "nat \<Rightarrow> 'w \<Rightarrow> 'w list list \<Rightarrow> 'w list list" where
  "simple_enqueue i job qs = qs[i := qs ! i @ [job]]"

definition simple_dequeue :: "nat \<Rightarrow> 'w list list \<Rightarrow> 'w option \<times> 'w list list" where
  "simple_dequeue i qs =
     (case qs ! i of [] \<Rightarrow> (None, qs) | w # q \<Rightarrow> (Some w, qs[i := q]))"

definition simple_steal :: "nat \<Rightarrow> nat \<Rightarrow> 'w list list \<Rightarrow> 'w option \<times> 'w list list" where
  "simple_steal i victim qs = simple_dequeue victim qs"

definition simple_global_dequeue :: "nat \<Rightarrow> 'w list list \<Rightarrow> 'w option \<times> 'w list list" where
  "simple_global_dequeue thr qs = simple_dequeue thr qs"

text \<open>
  \<open>LockFreeStrategy\<close>, the variant with a locked deque as global queue: a ring of capacity \<open>N\<close>
  per thread, the deque and its atomic counter.
\<close>

record 'w lockfree =
  rings :: "'w list list"
  m_global_queue :: "'w list"
  m_global_queue_num :: u64

definition lf_new :: "nat \<Rightarrow> 'w lockfree" where
  "lf_new thr = \<lparr>rings = replicate thr [], m_global_queue = [], m_global_queue_num = 0\<rparr>"

definition lf_global_enqueue :: "'w \<Rightarrow> 'w lockfree \<Rightarrow> 'w lockfree" where
  "lf_global_enqueue task s =
     s\<lparr>m_global_queue := m_global_queue s @ [task], m_global_queue_num := m_global_queue_num s + 1\<rparr>"

definition lf_global_enqueue_many :: "'w list \<Rightarrow> 'w lockfree \<Rightarrow> 'w lockfree" where
  "lf_global_enqueue_many tasks s =
     s\<lparr>m_global_queue := m_global_queue s @ tasks,
        m_global_queue_num := m_global_queue_num s + of_nat (length tasks)\<rparr>"

definition lf_enqueue :: "nat \<Rightarrow> nat \<Rightarrow> 'w \<Rightarrow> 'w lockfree \<Rightarrow> 'w lockfree" where
  "lf_enqueue N i task s =
     (let q = rings s ! i
      in if length q < N then s\<lparr>rings := (rings s)[i := q @ [task]]\<rparr>
         else let n = length q div 2
              in lf_global_enqueue_many (take n q @ [task]) (s\<lparr>rings := (rings s)[i := drop n q]\<rparr>))"

definition lf_dequeue :: "nat \<Rightarrow> 'w lockfree \<Rightarrow> 'w option \<times> 'w lockfree" where
  "lf_dequeue i s =
     (case rings s ! i of
        [] \<Rightarrow> (None, s)
      | w # q \<Rightarrow> (Some w, s\<lparr>rings := (rings s)[i := q]\<rparr>))"

definition lf_grab :: "nat \<Rightarrow> 'w lockfree \<Rightarrow> 'w list \<times> 'w lockfree" where
  "lf_grab victim s =
     (let q = rings s ! victim; n = length q - length q div 2
      in (take n q, s\<lparr>rings := (rings s)[victim := drop n q]\<rparr>))"

definition lf_steal :: "nat \<Rightarrow> nat \<Rightarrow> 'w lockfree \<Rightarrow> 'w option \<times> 'w lockfree" where
  "lf_steal me victim s =
     (case lf_grab victim s of
        ([], s1) \<Rightarrow> (None, s1)
      | (temp, s1) \<Rightarrow>
          (Some (last temp), s1\<lparr>rings := (rings s1)[me := rings s1 ! me @ butlast temp]\<rparr>))"

definition lf_global_dequeue :: "'w lockfree \<Rightarrow> 'w option \<times> 'w lockfree" where
  "lf_global_dequeue s =
     (if m_global_queue_num s = 0 then (None, s)
      else case m_global_queue s of
             [] \<Rightarrow> (None, s)
           | w # q \<Rightarrow>
               (Some w, s\<lparr>m_global_queue := q, m_global_queue_num := m_global_queue_num s - 1\<rparr>))"

definition lf_jobs :: "'w lockfree \<Rightarrow> 'w multiset" where
  "lf_jobs s = mset (concat (rings s)) + mset (m_global_queue s)"

definition lf_inv :: "nat \<Rightarrow> 'w lockfree \<Rightarrow> bool" where
  "lf_inv thr s \<longleftrightarrow>
     length (rings s) = thr \<and> m_global_queue_num s = of_nat (length (m_global_queue s))"

text \<open>Replacing one queue, as multisets.\<close>

lemma mset_concat_update:
  assumes "i < length qs"
  shows "mset (concat (qs[i := q])) + mset (qs ! i) = mset (concat qs) + mset q"
proof -
  have "mset (concat qs) = mset (concat (take i qs) @ qs ! i @ concat (drop (Suc i) qs))"
    using concat_nth_split [OF assms] by (rule arg_cong)
  then show ?thesis unfolding concat_update_split [OF assms] by (simp only: mset_append ac_simps)
qed

lemma simple_takes:
  assumes "i < k"
  shows "takes_one (\<lambda>qs. length qs = k) (\<lambda>qs. mset (concat qs)) (simple_dequeue i)"
  unfolding takes_one_def
proof (intro allI impI)
  fix qs :: "'w list list" and r qs'
  assume k: "length qs = k" and d: "simple_dequeue i qs = (r, qs')"
  show "length qs' = k \<and>
    mset (concat qs) = (case r of None \<Rightarrow> mset (concat qs') | Some w \<Rightarrow> add_mset w (mset (concat qs')))"
  proof (cases "qs ! i")
    case Nil
    then show ?thesis using d k by (auto simp: simple_dequeue_def)
  next
    case (Cons w q)
    then show ?thesis
      using d k assms mset_concat_update [of i qs q] by (auto simp: simple_dequeue_def)
  qed
qed

lemma lf_dequeue_takes: "i < thr \<Longrightarrow> takes_one (lf_inv thr) lf_jobs (lf_dequeue i)"
  unfolding takes_one_def
proof (intro allI impI)
  fix s :: "'w lockfree" and r s'
  assume i: "i < thr" and inv: "lf_inv thr s" and d: "lf_dequeue i s = (r, s')"
  show "lf_inv thr s' \<and> lf_jobs s = (case r of None \<Rightarrow> lf_jobs s' | Some w \<Rightarrow> add_mset w (lf_jobs s'))"
  proof (cases "rings s ! i")
    case Nil
    then show ?thesis using d inv by (auto simp: lf_dequeue_def)
  next
    case (Cons w q)
    then show ?thesis
      using d i inv mset_concat_update [of i "rings s" q]
      by (auto simp: lf_dequeue_def lf_inv_def lf_jobs_def)
  qed
qed

lemma lf_grab_jobs:
  assumes "lf_inv thr s" and "victim < thr" and "lf_grab victim s = (temp, s1)"
  shows "lf_inv thr s1" and "lf_jobs s = mset temp + lf_jobs s1"
proof -
  let ?q = "rings s ! victim" let ?n = "length ?q - length ?q div 2"
  have s1: "temp = take ?n ?q" "s1 = s\<lparr>rings := (rings s)[victim := drop ?n ?q]\<rparr>"
    using assms(3) by (simp_all add: lf_grab_def Let_def)
  show "lf_inv thr s1" using assms(1) s1 by (simp add: lf_inv_def)
  have "mset ?q = mset temp + mset (drop ?n ?q)"
    unfolding s1(1) by (metis append_take_drop_id mset_append)
  then show "lf_jobs s = mset temp + lf_jobs s1"
    using mset_concat_update [of victim "rings s" "drop ?n ?q"] assms(1,2) s1(2)
    by (simp add: lf_jobs_def lf_inv_def) (metis add.commute)
qed

lemma lf_steal_takes:
  "i < thr \<Longrightarrow> victim < thr \<Longrightarrow> takes_one (lf_inv thr) lf_jobs (lf_steal i victim)"
  unfolding takes_one_def
proof (intro allI impI)
  fix s :: "'w lockfree" and r s'
  assume i: "i < thr" "victim < thr" and inv: "lf_inv thr s" and d: "lf_steal i victim s = (r, s')"
  obtain temp s1 where g: "lf_grab victim s = (temp, s1)" by (cases "lf_grab victim s")
  note G = lf_grab_jobs [OF inv i(2) g]
  show "lf_inv thr s' \<and> lf_jobs s = (case r of None \<Rightarrow> lf_jobs s' | Some w \<Rightarrow> add_mset w (lf_jobs s'))"
  proof (cases temp rule: rev_cases)
    case Nil
    then show ?thesis using d g G by (simp add: lf_steal_def)
  next
    case (snoc ys y)
    have "lf_steal i victim s =
        (Some (last temp), s1\<lparr>rings := (rings s1)[i := rings s1 ! i @ butlast temp]\<rparr>)"
      if "temp \<noteq> []" using g that by (cases temp) (simp_all add: lf_steal_def)
    then have s': "r = Some y" "s' = s1\<lparr>rings := (rings s1)[i := rings s1 ! i @ ys]\<rparr>"
      using d snoc by simp_all
    have "mset (concat (rings s')) = mset (concat (rings s1)) + mset ys"
      using mset_concat_update [of i "rings s1" "rings s1 ! i @ ys"] i(1) G(1) s'(2)
      by (simp add: lf_inv_def)
    then show ?thesis using G snoc s' by (simp add: lf_inv_def lf_jobs_def)
  qed
qed

lemma lf_global_takes: "takes_one (lf_inv thr) lf_jobs lf_global_dequeue"
  unfolding takes_one_def
proof (intro allI impI)
  fix s :: "'w lockfree" and r s'
  assume inv: "lf_inv thr s" and d: "lf_global_dequeue s = (r, s')"
  show "lf_inv thr s' \<and> lf_jobs s = (case r of None \<Rightarrow> lf_jobs s' | Some w \<Rightarrow> add_mset w (lf_jobs s'))"
    using d inv unfolding lf_global_dequeue_def
    by (cases "m_global_queue s") (auto simp: lf_inv_def lf_jobs_def split: if_splits)
qed

lemma lf_enqueue_jobs:
  assumes inv: "lf_inv thr s" and "i < thr"
  shows "lf_inv thr (lf_enqueue N i task s)"
    and "lf_jobs (lf_enqueue N i task s) = add_mset task (lf_jobs s)"
proof -
  let ?q = "rings s ! i" let ?n = "length ?q div 2"
  have len: "i < length (rings s)" using assms by (simp add: lf_inv_def)
  show "lf_inv thr (lf_enqueue N i task s)"
    using inv by (simp add: lf_enqueue_def lf_inv_def lf_global_enqueue_many_def Let_def)
  have "mset ?q = mset (take ?n ?q) + mset (drop ?n ?q)"
    by (metis append_take_drop_id mset_append)
  then show "lf_jobs (lf_enqueue N i task s) = add_mset task (lf_jobs s)"
    using mset_concat_update [OF len, of "?q @ [task]"] mset_concat_update [OF len, of "drop ?n ?q"]
    by (auto simp: lf_enqueue_def lf_jobs_def lf_global_enqueue_many_def Let_def)
qed

section \<open>The template method\<close>

text \<open>
  \<open>WorkStealStrategy\<close>: the strategy's queues, the number of pending tasks, and the seed of the
  calling worker's random numbers.
\<close>

record 's ws =
  strat :: 's
  m_total_jobs :: u32
  m_seed :: u32

text \<open>Drawing a victim: the loop draws again while it hits the worker itself.\<close>

partial_function (option) pick_victim :: "nat \<Rightarrow> nat \<Rightarrow> u32 \<Rightarrow> (nat \<times> u32) option" where
  "pick_victim me thr seed =
     (let seed' = rng_random seed; victim = unat seed' mod thr
      in if victim = me then pick_victim me thr seed' else Some (victim, seed'))"

fun steal_loop ::
  "(nat \<Rightarrow> nat \<Rightarrow> 's \<Rightarrow> 'w option \<times> 's) \<Rightarrow> nat \<Rightarrow> nat \<Rightarrow> nat \<Rightarrow> u32 \<Rightarrow> 's \<Rightarrow>
   ('w option \<times> u32 \<times> 's) option" where
  "steal_loop steal 0 me thr seed s = Some (None, seed, s)"
| "steal_loop steal (Suc k) me thr seed s =
     (case pick_victim me thr seed of
        None \<Rightarrow> None
      | Some (victim, seed') \<Rightarrow>
          (case steal me victim s of
             (Some w, s') \<Rightarrow> Some (Some w, seed', s')
           | (None, s') \<Rightarrow> steal_loop steal k me thr seed' s'))"

text \<open>
  \<open>dequeue\<close> up to the point where the worker would go to sleep: the own queue, then, while tasks
  are pending, the global queue and one stealing attempt per other thread.
\<close>

definition ws_search ::
  "(nat \<Rightarrow> 's \<Rightarrow> 'w option \<times> 's) \<Rightarrow> ('s \<Rightarrow> 'w option \<times> 's) \<Rightarrow> (nat \<Rightarrow> nat \<Rightarrow> 's \<Rightarrow> 'w option \<times> 's) \<Rightarrow>
   nat \<Rightarrow> nat \<Rightarrow> 's ws \<Rightarrow> ('w option \<times> u32 \<times> 's) option" where
  "ws_search deq global_deq steal me thr st =
     (case deq me (strat st) of
        (Some w, s) \<Rightarrow> Some (Some w, m_seed st, s)
      | (None, s) \<Rightarrow>
          if 0 < m_total_jobs st then
            (case global_deq s of
               (Some w, s') \<Rightarrow> Some (Some w, m_seed st, s')
             | (None, s') \<Rightarrow>
                 if thr = 1 then Some (None, m_seed st, s')
                 else steal_loop steal (thr - 1) me thr (m_seed st) s')
          else Some (None, m_seed st, s))"

definition ws_attempt ::
  "(nat \<Rightarrow> 's \<Rightarrow> 'w option \<times> 's) \<Rightarrow> ('s \<Rightarrow> 'w option \<times> 's) \<Rightarrow> (nat \<Rightarrow> nat \<Rightarrow> 's \<Rightarrow> 'w option \<times> 's) \<Rightarrow>
   nat \<Rightarrow> nat \<Rightarrow> 's ws \<Rightarrow> ('w option \<times> 's ws) option" where
  "ws_attempt deq global_deq steal me thr st =
     (case ws_search deq global_deq steal me thr st of
        None \<Rightarrow> None
      | Some (r, seed, s) \<Rightarrow>
          Some (r, st\<lparr>strat := s, m_seed := seed,
                      m_total_jobs := (if r = None then m_total_jobs st else m_total_jobs st - 1)\<rparr>))"

text \<open>\<open>enqueue\<close> of either strategy: the task goes into a queue, then \<open>wakeup\<close> counts it.\<close>

definition ws_enqueue :: "('w \<Rightarrow> 's \<Rightarrow> 's) \<Rightarrow> 'w \<Rightarrow> 's ws \<Rightarrow> 's ws" where
  "ws_enqueue enq w st = st\<lparr>strat := enq w (strat st), m_total_jobs := m_total_jobs st + 1\<rparr>"

text \<open>The redraw loops of one search end.\<close>

fun can_draw :: "nat \<Rightarrow> nat \<Rightarrow> nat \<Rightarrow> u32 \<Rightarrow> bool" where
  "can_draw 0 me thr seed \<longleftrightarrow> True"
| "can_draw (Suc k) me thr seed \<longleftrightarrow>
     (case pick_victim me thr seed of None \<Rightarrow> False | Some (v, seed') \<Rightarrow> can_draw k me thr seed')"

lemma pick_victim_range:
  assumes "pick_victim me thr seed = Some (v, seed')" and "0 < thr"
  shows "v < thr" and "v \<noteq> me"
proof -
  have "fst r < thr \<and> fst r \<noteq> me" if "pick_victim me thr seed = Some r" "0 < thr" for r me thr seed
  proof -
    have "0 < thr \<longrightarrow> fst r < thr \<and> fst r \<noteq> me"
      by (rule pick_victim.raw_induct [where P = "\<lambda>me thr seed r. 0 < thr \<longrightarrow> fst r < thr \<and> fst r \<noteq> me",
            OF _ that(1)])
        (auto simp: Let_def split: if_splits)
    with that(2) show ?thesis by blast
  qed
  from this [OF assms] show "v < thr" "v \<noteq> me" by simp_all
qed

locale steal_strategy =
  fixes ok :: "'s \<Rightarrow> bool"
    and jobs :: "'s \<Rightarrow> 'w multiset"
    and deq :: "nat \<Rightarrow> 's \<Rightarrow> 'w option \<times> 's"
    and global_deq :: "'s \<Rightarrow> 'w option \<times> 's"
    and steal :: "nat \<Rightarrow> nat \<Rightarrow> 's \<Rightarrow> 'w option \<times> 's"
    and thr :: nat
  assumes deq_takes: "i < thr \<Longrightarrow> takes_one ok jobs (deq i)"
    and global_takes: "takes_one ok jobs global_deq"
    and steal_takes: "i < thr \<Longrightarrow> v < thr \<Longrightarrow> i \<noteq> v \<Longrightarrow> takes_one ok jobs (steal i v)"
begin

definition counted :: "'s ws \<Rightarrow> bool" where
  "counted st \<longleftrightarrow> ok (strat st) \<and> m_total_jobs st = of_nat (size (jobs (strat st)))"

definition took :: "'s \<Rightarrow> 'w option \<Rightarrow> 's \<Rightarrow> bool" where
  "took s r s' \<longleftrightarrow>
     ok s' \<and> jobs s = (case r of None \<Rightarrow> jobs s' | Some w \<Rightarrow> add_mset w (jobs s'))"

lemma tookI: "takes_one ok jobs f \<Longrightarrow> ok s \<Longrightarrow> f s = (r, s') \<Longrightarrow> took s r s'"
  unfolding takes_one_def took_def by blast

lemma took_none: "took s None s' \<Longrightarrow> took s' r s'' \<Longrightarrow> took s r s''"
  unfolding took_def by simp

lemma steal_loop_took:
  assumes "ok s" and "me < thr" and "can_draw k me thr seed"
  shows "\<exists>r seed' s'. steal_loop steal k me thr seed s = Some (r, seed', s') \<and> took s r s'"
  using assms
proof (induction k arbitrary: seed s)
  case 0
  then show ?case by (simp add: took_def)
next
  case (Suc k)
  then obtain v seed' where v: "pick_victim me thr seed = Some (v, seed')" "can_draw k me thr seed'"
    by (auto split: option.splits)
  have "v < thr" "v \<noteq> me" using pick_victim_range [OF v(1)] Suc.prems(2) by auto
  then have st: "takes_one ok jobs (steal me v)" using steal_takes [OF Suc.prems(2)] by blast
  obtain r s' where r: "steal me v s = (r, s')" by (cases "steal me v s")
  note T = tookI [OF st Suc.prems(1) r]
  show ?case
  proof (cases r)
    case None
    with T have "ok s'" by (simp add: took_def)
    from Suc.IH [OF this Suc.prems(2) v(2)] show ?thesis
      using None r v(1) T took_none by auto
  qed (use r v(1) T in auto)
qed

lemma search_took:
  assumes "ok (strat st)" and "me < thr" and "can_draw (thr - 1) me thr (m_seed st)"
  shows "\<exists>r seed s. ws_search deq global_deq steal me thr st = Some (r, seed, s) \<and> took (strat st) r s"
proof -
  obtain r s where d: "deq me (strat st) = (r, s)" by (cases "deq me (strat st)")
  note D = tookI [OF deq_takes [OF assms(2)] assms(1) d]
  show ?thesis
  proof (cases r)
    case None
    have "ok s" using D by (simp add: took_def)
    obtain r' s' where g: "global_deq s = (r', s')" by (cases "global_deq s")
    note G = took_none [OF D [unfolded None] tookI [OF global_takes \<open>ok s\<close> g]]
    have "ok s'" using G by (simp add: took_def)
    then show ?thesis
      using steal_loop_took [OF _ assms(2,3), of s'] None d g D G
      by (cases r') (auto simp: ws_search_def intro: took_none)
  qed (use d D in \<open>auto simp: ws_search_def\<close>)
qed

lemma attempt_took:
  assumes "counted st" and "me < thr" and "can_draw (thr - 1) me thr (m_seed st)"
  shows "\<exists>r st'. ws_attempt deq global_deq steal me thr st = Some (r, st') \<and> counted st' \<and>
    took (strat st) r (strat st')"
proof -
  have "ok (strat st)" using assms(1) by (simp add: counted_def)
  from search_took [OF this assms(2,3)] obtain r seed s where
    "ws_search deq global_deq steal me thr st = Some (r, seed, s)" and T: "took (strat st) r s" by blast
  moreover have "of_nat (size (jobs (strat st))) - (1 :: u32) = of_nat (size (jobs s))" if "r = Some w" for w
    using T that by (simp add: took_def)
  ultimately show ?thesis
    using assms(1) by (cases r) (auto simp: ws_attempt_def counted_def took_def)
qed

lemma enqueue_counted:
  assumes "counted st" and "ok (enq w (strat st))" and "jobs (enq w (strat st)) = add_mset w (jobs (strat st))"
  shows "counted (ws_enqueue enq w st)"
  using assms by (simp add: counted_def ws_enqueue_def)

end

interpretation simple: steal_strategy "\<lambda>qs. length qs = thr + 1" "\<lambda>qs. mset (concat qs)"
  simple_dequeue "simple_global_dequeue thr" simple_steal thr for thr
  by unfold_locales
    (simp_all add: simple_takes simple_global_dequeue_def [abs_def] simple_steal_def [abs_def])

interpretation lf: steal_strategy "lf_inv thr" lf_jobs lf_dequeue lf_global_dequeue lf_steal thr for thr
  by unfold_locales (simp_all add: lf_dequeue_takes lf_global_takes lf_steal_takes)

section \<open>Idle workers\<close>

text \<open>
  The end of the loop of \<open>dequeue\<close> and \<open>wakeup\<close>.  A worker is running, waits without or with a
  timeout on the condition variable, or has been woken and still holds its place in \<open>m_sleep_num\<close>.
  The increment, the choice of the wait and the decrement happen under \<open>m_mutex\<close>.  The test of
  \<open>m_total_jobs\<close> against the busy workers before it is not under the mutex, so a worker may go to
  sleep whatever the counters are by then.
\<close>

datatype sleep_state = Running | Waiting | Waiting_10ms | Woken

record sleep_sys =
  m_workers_num :: nat
  m_sleep_num :: nat
  pending :: u32
  wstate :: "nat \<Rightarrow> sleep_state"

definition worker_sleep :: "nat \<Rightarrow> sleep_sys \<Rightarrow> sleep_sys option" where
  "worker_sleep i s =
     (if i < m_workers_num s \<and> wstate s i = Running
      then
        let n = m_sleep_num s + 1
        in Some (s\<lparr>m_sleep_num := n,
                   wstate := (wstate s)(i := (if n < m_workers_num s then Waiting
                                              else if pending s = 0 then Waiting_10ms
                                              else Woken))\<rparr>)
      else None)"

definition worker_resume :: "nat \<Rightarrow> sleep_sys \<Rightarrow> sleep_sys option" where
  "worker_resume i s =
     (if wstate s i = Woken
      then Some (s\<lparr>m_sleep_num := m_sleep_num s - 1, wstate := (wstate s)(i := Running)\<rparr>)
      else None)"

definition worker_timeout :: "nat \<Rightarrow> sleep_sys \<Rightarrow> sleep_sys option" where
  "worker_timeout i s =
     (if wstate s i = Waiting_10ms then Some (s\<lparr>wstate := (wstate s)(i := Woken)\<rparr>) else None)"

text \<open>\<open>wakeup\<close> counts the task and notifies one waiting worker, if any, when the load asks for it.\<close>

definition wakeup :: "nat option \<Rightarrow> sleep_sys \<Rightarrow> sleep_sys option" where
  "wakeup chosen s =
     (let s = s\<lparr>pending := pending s + 1\<rparr>; busy = m_workers_num s - m_sleep_num s
      in if m_workers_num s > busy \<and> unat (pending s) > busy then
           (case chosen of
              Some i \<Rightarrow>
                if wstate s i = Waiting \<or> wstate s i = Waiting_10ms
                then Some (s\<lparr>wstate := (wstate s)(i := Woken)\<rparr>) else None
            | None \<Rightarrow>
                if \<forall>i<m_workers_num s. wstate s i \<noteq> Waiting \<and> wstate s i \<noteq> Waiting_10ms
                then Some s else None)
         else Some s)"

inductive sleep_step :: "sleep_sys \<Rightarrow> sleep_sys \<Rightarrow> bool" where
  "worker_sleep i s = Some s' \<Longrightarrow> sleep_step s s'"
| "worker_resume i s = Some s' \<Longrightarrow> sleep_step s s'"
| "worker_timeout i s = Some s' \<Longrightarrow> sleep_step s s'"
| "wakeup c s = Some s' \<Longrightarrow> sleep_step s s'"
| "pending s > 0 \<Longrightarrow> sleep_step s (s\<lparr>pending := pending s - 1\<rparr>)"

definition sleep_init :: "nat \<Rightarrow> sleep_sys" where
  "sleep_init n = \<lparr>m_workers_num = n, m_sleep_num = 0, pending = 0, wstate = (\<lambda>_. Running)\<rparr>"

definition asleep :: "sleep_sys \<Rightarrow> nat set" where
  "asleep s = {i. wstate s i \<noteq> Running}"

definition waiting :: "sleep_sys \<Rightarrow> nat set" where
  "waiting s = {i. wstate s i = Waiting}"

definition sleep_inv :: "sleep_sys \<Rightarrow> bool" where
  "sleep_inv s \<longleftrightarrow>
     asleep s \<subseteq> {..<m_workers_num s} \<and> m_sleep_num s = card (asleep s) \<and>
     (asleep s \<noteq> {} \<longrightarrow> card (waiting s) < m_workers_num s)"

lemma asleep_finite: "sleep_inv s \<Longrightarrow> finite (asleep s)"
  unfolding sleep_inv_def using finite_subset by blast

lemma waiting_asleep: "sleep_inv s \<Longrightarrow> card (waiting s) \<le> card (asleep s)"
  by (intro card_mono asleep_finite) (auto simp: asleep_def waiting_def)

lemma waiting_finite: "sleep_inv s \<Longrightarrow> finite (waiting s)"
  by (rule finite_subset [OF _ asleep_finite]) (auto simp: asleep_def waiting_def)

lemma sleep_inv_wake:
  assumes inv: "sleep_inv s" and "wstate s i \<noteq> Running" and "x \<noteq> Waiting" "x \<noteq> Running"
  shows "sleep_inv (s\<lparr>wstate := (wstate s)(i := x)\<rparr>)"
proof -
  have a: "asleep (s\<lparr>wstate := (wstate s)(i := x)\<rparr>) = asleep s"
    using assms(2,4) by (auto simp: asleep_def)
  have sub: "waiting (s\<lparr>wstate := (wstate s)(i := x)\<rparr>) \<subseteq> waiting s"
    using assms(3) by (auto simp: waiting_def)
  from card_mono [OF waiting_finite [OF inv] sub] show ?thesis
    using inv a unfolding sleep_inv_def by auto
qed

lemma sleep_step_inv:
  assumes "sleep_step s s'" and inv: "sleep_inv s"
  shows "sleep_inv s'"
  using assms(1)
proof (cases rule: sleep_step.cases)
  case (1 i)
  then have i: "i < m_workers_num s" "wstate s i = Running"
    by (auto simp: worker_sleep_def split: if_splits)
  let ?n = "m_sleep_num s + 1"
  let ?x = "if ?n < m_workers_num s then Waiting else if pending s = 0 then Waiting_10ms else Woken"
  have s': "s' = s\<lparr>m_sleep_num := ?n, wstate := (wstate s)(i := ?x)\<rparr>"
    using 1 i by (simp add: worker_sleep_def Let_def split: if_splits)
  have a: "asleep s' = insert i (asleep s)" unfolding s' by (auto simp: asleep_def)
  have card: "card (asleep s') = ?n"
    using i(2) asleep_finite [OF inv] inv unfolding a sleep_inv_def by (simp add: asleep_def)
  have "card (waiting s') < m_workers_num s"
  proof (cases "?n < m_workers_num s")
    case True
    then have "waiting s' = insert i (waiting s)"
      unfolding s' waiting_def by auto
    then have "card (waiting s') \<le> Suc (card (waiting s))"
      using waiting_finite [OF inv] by (simp add: card_insert_if)
    also have "\<dots> \<le> ?n" using waiting_asleep [OF inv] inv by (simp add: sleep_inv_def)
    finally show ?thesis using True by simp
  next
    case False
    then have "waiting s' = waiting s - {i}"
      unfolding s' waiting_def by auto
    moreover have "waiting s \<subseteq> {..<m_workers_num s} - {i}"
    proof -
      have "waiting s \<subseteq> asleep s - {i}" using i(2) by (auto simp: asleep_def waiting_def)
      then show ?thesis using inv unfolding sleep_inv_def by blast
    qed
    ultimately have "card (waiting s') \<le> card ({..<m_workers_num s} - {i})"
      by (intro card_mono) auto
    then show ?thesis using i(1) by simp
  qed
  then show ?thesis using inv i(1) card a unfolding sleep_inv_def s' by auto
next
  case (2 i)
  then have i: "wstate s i = Woken"
    and s': "s' = s\<lparr>m_sleep_num := m_sleep_num s - 1, wstate := (wstate s)(i := Running)\<rparr>"
    by (auto simp: worker_resume_def split: if_splits)
  have a: "asleep s' = asleep s - {i}" unfolding s' by (auto simp: asleep_def)
  have w: "waiting s' = waiting s" unfolding s' waiting_def using i by auto
  have "i \<in> asleep s" using i by (simp add: asleep_def)
  then show ?thesis using inv a w unfolding sleep_inv_def s' by auto
next
  case (3 i)
  then show ?thesis using sleep_inv_wake [OF inv, of i Woken]
    by (auto simp: worker_timeout_def split: if_splits)
next
  case (4 c)
  have p: "sleep_inv (s\<lparr>pending := x\<rparr>)" for x using inv by (simp add: sleep_inv_def asleep_def waiting_def)
  show ?thesis
    using 4 p sleep_inv_wake [OF p, where x = Woken]
    by (auto simp: wakeup_def Let_def split: if_splits option.splits)
next
  case 5
  then show ?thesis using inv by (simp add: sleep_inv_def asleep_def waiting_def)
qed

lemma sleep_reach_inv: "sleep_step\<^sup>*\<^sup>* (sleep_init n) s \<Longrightarrow> sleep_inv s \<and> m_workers_num s = n"
proof (induction rule: rtranclp_induct)
  case base
  then show ?case by (simp add: sleep_inv_def sleep_init_def asleep_def)
next
  case (step s s')
  moreover have "m_workers_num s' = m_workers_num s"
    using step.hyps(2)
    by (cases rule: sleep_step.cases)
      (auto simp: worker_sleep_def worker_resume_def worker_timeout_def wakeup_def Let_def
        split: if_splits option.splits)
  ultimately show ?case using sleep_step_inv by auto
qed

section \<open>Properties\<close>

text \<open>
  The generator that picks victims never gets stuck: from any seed set by \<open>srand\<close> every number
  lies between 1 and \<open>RNGMOD - 1\<close>, and distinct states have distinct successors, although the product
  is computed in 64 bits and cut to 32.
\<close>

theorem rng_never_stuck:
  assumes "seed_ok x" and "seed_ok y"
  shows "seed_ok (rng_srand s) \<and> seed_ok ((rng_random ^^ k) (rng_srand s)) \<and>
    (rng_random x = rng_random y \<longleftrightarrow> x = y)"
proof -
  have "seed_ok ((rng_random ^^ k) (rng_srand s))"
    by (induction k) (auto intro: random_ok srand_ok)
  moreover have "x = y" if "rng_random x = rng_random y"
  proof -
    have "(RNGMUL * unat x) mod RNGMOD = (RNGMUL * unat y) mod RNGMOD"
      using arg_cong [OF that, of unat] by (simp add: unat_random)
    moreover have "a = b" if "a \<le> b" "b < RNGMOD" "(RNGMUL * a) mod RNGMOD = (RNGMUL * b) mod RNGMOD" for a b
    proof -
      have "RNGMOD dvd RNGMUL * b - RNGMUL * a"
        using that(1,3) mod_eq_dvd_iff_nat [of "RNGMUL * a" "RNGMUL * b" RNGMOD] by simp
      then have "RNGMOD dvd b - a"
        using coprime_rng by (metis coprime_commute coprime_dvd_mult_right_iff right_diff_distrib')
      then show ?thesis using that(1,2) by (metis dvd_imp_le diff_le_self le_antisym not_less
          le_trans zero_less_diff linorder_not_le nat_dvd_not_less less_imp_diff_less)
    qed
    ultimately have "unat x = unat y"
      using assms by (metis nat_le_linear seed_ok_def)
    then show ?thesis by (simp add: word_unat_eq_iff)
  qed
  ultimately show ?thesis using srand_ok by blast
qed

theorem rng_never_stuck_witness:
  "seed_ok (rng_random (rng_srand 0)) \<and> rng_random 1 \<noteq> rng_random 2"
proof -
  have ok: "seed_ok 1" "seed_ok 2" by (simp_all add: seed_ok_def RNGMOD_def)
  show ?thesis using rng_never_stuck [OF ok, of 0 1] by simp
qed

text \<open>
  C11.  One search of \<open>WorkStealStrategy::dequeue\<close> with the lock-free strategy returns, provided its
  redraw loops end; it takes exactly the task it returns out of the rings and the global queue, or
  takes nothing, and \<open>m_total_jobs\<close> stays the number of pending tasks.
\<close>

theorem lockfree_dequeue_once:
  assumes "lf_inv thr (strat st)" and "m_total_jobs st = of_nat (size (lf_jobs (strat st)))"
    and "me < thr" and "can_draw (thr - 1) me thr (m_seed st)"
  shows "\<exists>r st'. ws_attempt lf_dequeue lf_global_dequeue lf_steal me thr st = Some (r, st') \<and>
    lf_inv thr (strat st') \<and> m_total_jobs st' = of_nat (size (lf_jobs (strat st'))) \<and>
    lf_jobs (strat st) = (case r of None \<Rightarrow> lf_jobs (strat st') | Some w \<Rightarrow> add_mset w (lf_jobs (strat st')))"
  using lf.attempt_took [of thr st me] assms unfolding lf.counted_def lf.took_def by blast

theorem lockfree_dequeue_once_witness:
  "\<exists>r st'. ws_attempt lf_dequeue lf_global_dequeue lf_steal 0 2
      \<lparr>strat = \<lparr>rings = [[], [5, 6, 7 :: nat]], m_global_queue = [], m_global_queue_num = 0\<rparr>,
       m_total_jobs = 3, m_seed = 1\<rparr> = Some (r, st') \<and>
     m_total_jobs st' = of_nat (size (lf_jobs (strat st')))"
proof -
  have r: "unat (rng_random x) = (69070 * unat x) mod 4294967291" for x
    by (simp add: unat_random RNGMUL_def RNGMOD_def)
  have "pick_victim 0 2 1 \<noteq> None"
    by (subst pick_victim.simps, subst pick_victim.simps, subst pick_victim.simps,
        subst pick_victim.simps) (simp add: r Let_def)
  then have "can_draw (2 - 1) 0 2 1" by (auto split: option.splits)
  then show ?thesis
    using lockfree_dequeue_once [of 2 "\<lparr>strat = \<lparr>rings = [[], [5, 6, 7 :: nat]], m_global_queue = [],
        m_global_queue_num = 0\<rparr>, m_total_jobs = 3, m_seed = 1\<rparr>" 0]
    by (auto simp: lf_inv_def lf_jobs_def)
qed

text \<open>
  C12.  However workers fall asleep and are woken, \<open>m_sleep_num\<close> counts exactly the sleeping workers,
  and the workers never all wait without a timeout: one of them is running or wakes up within ten
  milliseconds, so a pending task is always looked for.
\<close>

theorem worker_always_awake:
  assumes "sleep_step\<^sup>*\<^sup>* (sleep_init n) s" and "0 < n"
  shows "m_sleep_num s = card {i. wstate s i \<noteq> Running} \<and> m_sleep_num s \<le> n \<and>
    (\<exists>i<n. wstate s i \<noteq> Waiting)"
proof -
  have inv: "sleep_inv s" and n: "m_workers_num s = n" using sleep_reach_inv [OF assms(1)] by auto
  have "card (asleep s) \<le> n"
    using inv n card_mono [of "{..<n}" "asleep s"] by (simp add: sleep_inv_def)
  moreover have "\<exists>i<n. wstate s i \<noteq> Waiting"
  proof (rule ccontr)
    assume "\<not> ?thesis"
    then have sub: "{..<n} \<subseteq> waiting s" by (auto simp: waiting_def)
    then have "n \<le> card (waiting s)" using card_mono [OF waiting_finite [OF inv] sub] by simp
    moreover have "0 \<in> waiting s" using sub assms(2) by blast
    then have "0 \<in> asleep s" by (simp add: asleep_def waiting_def)
    then have "asleep s \<noteq> {}" by blast
    ultimately show False using inv n by (simp add: sleep_inv_def)
  qed
  ultimately show ?thesis using inv unfolding sleep_inv_def asleep_def by simp
qed

theorem worker_always_awake_witness:
  "\<exists>s. sleep_step\<^sup>*\<^sup>* (sleep_init 2) s \<and> wstate s 0 = Waiting \<and> (\<exists>i<2. wstate s i \<noteq> Waiting)"
proof -
  let ?s = "(sleep_init 2)\<lparr>m_sleep_num := 1, wstate := (wstate (sleep_init 2))(0 := Waiting)\<rparr>"
  have "sleep_step (sleep_init 2) ?s"
    by (rule sleep_step.intros(1) [of 0]) (simp add: worker_sleep_def sleep_init_def)
  then have r: "sleep_step\<^sup>*\<^sup>* (sleep_init 2) ?s" by blast
  show ?thesis using r worker_always_awake [OF r] by (intro exI [of _ ?s]) simp
qed

end
