(* ===== verification/Message.thy ===== *)
theory Message
  imports Prelude
begin

text \<open>
  Actor identifiers and message metadata: \<open>include/mola/actor_id.hpp\<close>, \<open>src/actor_id.cpp\<close>, the
  structures and macros of \<open>include/mola/c/mola_message.h\<close>, the identifiers that \<open>src/actor.cpp\<close>
  hands to user code, and \<open>MessageWrapper\<close> of \<open>include/mola/message.hpp\<close> with its serialisation in
  \<open>src/message.cpp\<close>.  The callbacks of a message type (\<open>mola_message_vtab_t\<close>) are generated code
  and are parameters.
\<close>

section \<open>Identifiers\<close>

record actor_id =
  dnode_id :: u32
  dmodule_id :: u16
  dintf_id :: u16
  dinst_id :: u32

definition ANY :: u32 where "ANY = 0x0000ffff"

definition LOCAL :: u32 where "LOCAL = 0"

definition CLIENT :: u32 where "CLIENT = 0xffffffff"

text \<open>The constructor takes node, module, instance and interface, in this order.\<close>

definition ActorID :: "u32 \<Rightarrow> u32 \<Rightarrow> u32 \<Rightarrow> u32 \<Rightarrow> actor_id" where
  "ActorID nid mid iid ifid =
     \<lparr>dnode_id = nid, dmodule_id = ucast mid, dintf_id = ucast ifid, dinst_id = iid\<rparr>"

definition module_id :: "actor_id \<Rightarrow> u32" where "module_id a = ucast (dmodule_id a)"

definition instance_id :: "actor_id \<Rightarrow> u32" where "instance_id a = dinst_id a"

definition node_id :: "actor_id \<Rightarrow> u32" where "node_id a = dnode_id a"

definition intf_id :: "actor_id \<Rightarrow> u32" where "intf_id a = ucast (dintf_id a)"

definition set_module_id :: "u32 \<Rightarrow> actor_id \<Rightarrow> actor_id" where
  "set_module_id m a = a\<lparr>dmodule_id := ucast m\<rparr>"

definition set_inst_id :: "u32 \<Rightarrow> actor_id \<Rightarrow> actor_id" where
  "set_inst_id i a = a\<lparr>dinst_id := i\<rparr>"

definition set_node_id :: "u32 \<Rightarrow> actor_id \<Rightarrow> actor_id" where
  "set_node_id n a = a\<lparr>dnode_id := n\<rparr>"

definition set_intf_id :: "u32 \<Rightarrow> actor_id \<Rightarrow> actor_id" where
  "set_intf_id f a = a\<lparr>dintf_id := ucast f\<rparr>"

definition hash_key :: "actor_id \<Rightarrow> u32" where
  "hash_key a = push_bit 16 (ucast (dmodule_id a)) OR dinst_id a"

text \<open>\<open>is_local\<close>; the local node's identifier comes from the node manager.\<close>

definition is_local :: "u32 \<Rightarrow> actor_id \<Rightarrow> bool" where
  "is_local local_node a \<longleftrightarrow> node_id a = LOCAL \<or> node_id a = local_node"

text \<open>The 64-bit instance identifiers of user code.\<close>

definition TO_INST_ID :: "u32 \<Rightarrow> actor_id \<Rightarrow> u32 \<Rightarrow> u64" where
  "TO_INST_ID local_node a reqid =
     (let nid = (if node_id a = LOCAL then local_node else node_id a)
      in push_bit 32 (ucast reqid) OR ucast (push_bit 16 nid) OR ucast (instance_id a))"

definition GET_NODE_ID :: "u64 \<Rightarrow> u32" where
  "GET_NODE_ID x = ucast (drop_bit 16 x)"

definition GET_INST_ID :: "u64 \<Rightarrow> u32" where
  "GET_INST_ID x = ucast (x AND 0xFFFF)"

definition GET_REQ_ID :: "u64 \<Rightarrow> u32" where
  "GET_REQ_ID x = ucast (drop_bit 32 x)"

section \<open>Metadata\<close>

record metadata =
  mtype :: u16
  data_type :: u16
  msize :: u32
  sender :: actor_id
  target :: actor_id
  reqid :: u32

definition T_REQUEST :: u16 where "T_REQUEST = 1"
definition T_RESPONSE :: u16 where "T_RESPONSE = 2"
definition T_SCATTER :: u16 where "T_SCATTER = 4"
definition T_GATHER :: u16 where "T_GATHER = 8"
definition T_ERROR :: u16 where "T_ERROR = 0x8000"

lemmas type_codes = T_REQUEST_def T_RESPONSE_def T_SCATTER_def T_GATHER_def T_ERROR_def

definition TYPE_STREAM :: u16 where "TYPE_STREAM = 1"
definition TYPE_USER_LITTLE :: u16 where "TYPE_USER_LITTLE = 2"
definition TYPE_USER_NORMAL :: u16 where "TYPE_USER_NORMAL = 3"

definition set_metatype :: "u16 \<Rightarrow> metadata \<Rightarrow> metadata" where
  "set_metatype t m = m\<lparr>mtype := t\<rparr>"

definition has_type :: "u16 \<Rightarrow> metadata \<Rightarrow> bool" where
  "has_type t m \<longleftrightarrow> mtype m AND t \<noteq> 0"

abbreviation is_request :: "metadata \<Rightarrow> bool" where "is_request \<equiv> has_type T_REQUEST"
abbreviation is_response :: "metadata \<Rightarrow> bool" where "is_response \<equiv> has_type T_RESPONSE"
abbreviation is_scatter :: "metadata \<Rightarrow> bool" where "is_scatter \<equiv> has_type T_SCATTER"
abbreviation is_gather :: "metadata \<Rightarrow> bool" where "is_gather \<equiv> has_type T_GATHER"
abbreviation is_error :: "metadata \<Rightarrow> bool" where "is_error \<equiv> has_type T_ERROR"

definition is_oneway :: "metadata \<Rightarrow> bool" where
  "is_oneway m \<longleftrightarrow> \<not> is_request m \<and> \<not> is_gather m"

text \<open>Byte order.  \<open>htobe\<close> on a little-endian host reverses the bytes, on a big-endian one it is the
  identity; \<open>htole\<close> the other way round.\<close>

definition bswap16 :: "u16 \<Rightarrow> u16" where
  "bswap16 x = push_bit 8 x OR drop_bit 8 x"

definition bswap32 :: "u32 \<Rightarrow> u32" where
  "bswap32 x = push_bit 24 x OR push_bit 16 (take_bit 8 (drop_bit 8 x))
     OR push_bit 8 (take_bit 8 (drop_bit 16 x)) OR drop_bit 24 x"

definition swap_id :: "actor_id \<Rightarrow> actor_id" where
  "swap_id a =
     \<lparr>dnode_id = bswap32 (dnode_id a), dmodule_id = bswap16 (dmodule_id a),
      dintf_id = bswap16 (dintf_id a), dinst_id = bswap32 (dinst_id a)\<rparr>"

definition swap_meta :: "metadata \<Rightarrow> metadata" where
  "swap_meta m =
     \<lparr>mtype = bswap16 (mtype m), data_type = bswap16 (data_type m), msize = bswap32 (msize m),
      sender = swap_id (sender m), target = swap_id (target m), reqid = bswap32 (reqid m)\<rparr>"

text \<open>
  \<open>metatole\<close> and \<open>metatobe\<close>: \<open>macro\<close> tells whether the compiler defines \<open>__LITTLE_ENDIAN__\<close>, on
  which both depend, \<open>le\<close> whether the host is little-endian.
\<close>

definition metatole :: "bool \<Rightarrow> bool \<Rightarrow> metadata \<Rightarrow> metadata" where
  "metatole macro le m = (if macro then m else if le then m else swap_meta m)"

definition metatobe :: "bool \<Rightarrow> bool \<Rightarrow> metadata \<Rightarrow> metadata" where
  "metatobe macro le m = (if macro then (if le then swap_meta m else m) else m)"

lemma bswap16_invol [simp]: "bswap16 (bswap16 x) = x"
  by (rule bit_word_eqI) (auto simp: bswap16_def bit_simps)

lemma bit_bswap32:
  "n < 8 \<Longrightarrow> bit (bswap32 x) n = bit x (n + 24)"
  "8 \<le> n \<Longrightarrow> n < 16 \<Longrightarrow> bit (bswap32 x) n = bit x (n + 8)"
  "16 \<le> n \<Longrightarrow> n < 24 \<Longrightarrow> bit (bswap32 x) n = bit x (n - 8)"
  "24 \<le> n \<Longrightarrow> n < 32 \<Longrightarrow> bit (bswap32 x) n = bit x (n - 24)"
  by (auto simp: bswap32_def bit_or_iff bit_push_bit_iff bit_drop_bit_eq bit_take_bit_iff
      add.commute dest: bit_imp_le_length)

lemma bswap32_invol [simp]: "bswap32 (bswap32 x) = x"
proof (rule bit_word_eqI)
  fix n assume "n < LENGTH(32)"
  then consider "n < 8" | "8 \<le> n" "n < 16" | "16 \<le> n" "n < 24" | "24 \<le> n" "n < 32" by fastforce
  then show "bit (bswap32 (bswap32 x)) n = bit x n"
    by cases (simp_all add: bit_bswap32)
qed

lemma swap_id_invol [simp]: "swap_id (swap_id a) = a"
  by (simp add: swap_id_def)

lemma swap_meta_invol [simp]: "swap_meta (swap_meta m) = m"
  by (simp add: swap_meta_def)

section \<open>The metadata on the wire\<close>

text \<open>
  The bytes of a \<open>mola_message_metadata_t\<close> in the memory of a little-endian host, which is what is
  copied in front of a message: the fields in order, the two 16-bit fields of an identifier in one
  32-bit unit.
\<close>

definition le16 :: "u16 \<Rightarrow> u8 list" where
  "le16 x = [ucast x, ucast (drop_bit 8 x)]"

definition le32 :: "u32 \<Rightarrow> u8 list" where
  "le32 x = [ucast x, ucast (drop_bit 8 x), ucast (drop_bit 16 x), ucast (drop_bit 24 x)]"

fun of_le16 :: "u8 list \<Rightarrow> u16" where
  "of_le16 [a, b] = ucast a OR push_bit 8 (ucast b)"
| "of_le16 _ = 0"

fun of_le32 :: "u8 list \<Rightarrow> u32" where
  "of_le32 [a, b, c, d] =
     ucast a OR push_bit 8 (ucast b) OR push_bit 16 (ucast c) OR push_bit 24 (ucast d)"
| "of_le32 _ = 0"

definition id_bytes :: "actor_id \<Rightarrow> u8 list" where
  "id_bytes a = le32 (dnode_id a) @ le16 (dmodule_id a) @ le16 (dintf_id a) @ le32 (dinst_id a)"

definition id_of_bytes :: "u8 list \<Rightarrow> actor_id" where
  "id_of_bytes bs =
     \<lparr>dnode_id = of_le32 (take 4 bs), dmodule_id = of_le16 (take 2 (drop 4 bs)),
      dintf_id = of_le16 (take 2 (drop 6 bs)), dinst_id = of_le32 (take 4 (drop 8 bs))\<rparr>"

definition meta_bytes :: "metadata \<Rightarrow> u8 list" where
  "meta_bytes m =
     le16 (mtype m) @ le16 (data_type m) @ le32 (msize m) @ id_bytes (sender m) @
     id_bytes (target m) @ le32 (reqid m)"

definition meta_of_bytes :: "u8 list \<Rightarrow> metadata" where
  "meta_of_bytes bs =
     \<lparr>mtype = of_le16 (take 2 bs), data_type = of_le16 (take 2 (drop 2 bs)),
      msize = of_le32 (take 4 (drop 4 bs)), sender = id_of_bytes (take 12 (drop 8 bs)),
      target = id_of_bytes (take 12 (drop 20 bs)), reqid = of_le32 (take 4 (drop 32 bs))\<rparr>"

definition META_SIZE :: nat where "META_SIZE = 36"

lemma length_le [simp]: "length (le16 x) = 2" "length (le32 y) = 4"
  by (simp_all add: le16_def le32_def)

lemma of_le16_le16 [simp]: "of_le16 (le16 x) = x"
  unfolding le16_def of_le16.simps by (rule bit_word_eqI) (auto simp: bit_simps)

lemma of_le32_le32 [simp]: "of_le32 (le32 x) = x"
  unfolding le32_def of_le32.simps
proof (rule bit_word_eqI)
  fix n assume "n < LENGTH(32)"
  then consider "n < 8" | "8 \<le> n" "n < 16" | "16 \<le> n" "n < 24" | "24 \<le> n" "n < 32" by fastforce
  then show "bit (ucast (ucast x :: u8) OR push_bit 8 (ucast (ucast (drop_bit 8 x) :: u8)) OR
      push_bit 16 (ucast (ucast (drop_bit 16 x) :: u8)) OR
      push_bit 24 (ucast (ucast (drop_bit 24 x) :: u8)) :: u32) n = bit x n"
    by cases (auto simp: bit_simps)
qed

lemma length_id_bytes [simp]: "length (id_bytes a) = 12"
  by (simp add: id_bytes_def)

lemma length_meta_bytes [simp]: "length (meta_bytes m) = META_SIZE"
  by (simp add: meta_bytes_def META_SIZE_def)

lemma id_of_bytes_id [simp]: "id_of_bytes (id_bytes a) = a"
  by (simp add: id_of_bytes_def id_bytes_def)

lemma meta_of_bytes_meta: "meta_of_bytes (meta_bytes m @ bs) = m"
  by (simp add: meta_of_bytes_def meta_bytes_def)

section \<open>Wrapped messages\<close>

text \<open>
  The callbacks of a message type.  A type without \<open>unpack\<close> is a \<^emph>\<open>little\<close> message, sent as the
  image of its memory (header and user data), of which the receiver keeps the user data.
\<close>

record 'u vtab =
  vt_size :: u32
  vt_has_unpack :: bool
  vt_pack_size :: "'u \<Rightarrow> nat"
  vt_pack :: "'u \<Rightarrow> u8 list"
  vt_unpack :: "u8 list \<Rightarrow> 'u option"
  vt_image :: "'u \<Rightarrow> u8 list"
  vt_of_image :: "u8 list \<Rightarrow> 'u"

datatype 'u payload = Stream_data "u8 list option" | User_data "'u option"

record 'u wrapper =
  w_meta :: metadata
  w_data :: "'u payload"

definition zero_id :: actor_id where
  "zero_id = \<lparr>dnode_id = 0, dmodule_id = 0, dintf_id = 0, dinst_id = 0\<rparr>"

definition zero_meta :: metadata where
  "zero_meta = \<lparr>mtype = 0, data_type = 0, msize = 0, sender = zero_id, target = zero_id, reqid = 0\<rparr>"

text \<open>The two constructors; \<open>hdr\<close> is \<open>sizeof(mola_message_t)\<close>.\<close>

definition wrap_message :: "u32 \<Rightarrow> 'u vtab \<Rightarrow> 'u \<Rightarrow> 'u wrapper" where
  "wrap_message hdr vt u =
     \<lparr>w_meta = zero_meta\<lparr>data_type := (if vt_has_unpack vt then TYPE_USER_NORMAL else TYPE_USER_LITTLE),
                         msize := vt_size vt + hdr\<rparr>,
      w_data = User_data (Some u)\<rparr>"

definition wrap_stream :: "u8 list option \<Rightarrow> u32 \<Rightarrow> 'u wrapper" where
  "wrap_stream bs sz =
     \<lparr>w_meta = zero_meta\<lparr>data_type := TYPE_STREAM, msize := sz\<rparr>, w_data = Stream_data bs\<rparr>"

definition set_sender :: "actor_id \<Rightarrow> 'u wrapper \<Rightarrow> 'u wrapper" where
  "set_sender a w = w\<lparr>w_meta := (w_meta w)\<lparr>sender := a\<rparr>\<rparr>"

definition set_target :: "actor_id \<Rightarrow> 'u wrapper \<Rightarrow> 'u wrapper" where
  "set_target a w = w\<lparr>w_meta := (w_meta w)\<lparr>target := a\<rparr>\<rparr>"

definition set_target4 :: "u32 \<Rightarrow> u32 \<Rightarrow> u32 \<Rightarrow> u32 \<Rightarrow> 'u wrapper \<Rightarrow> 'u wrapper" where
  "set_target4 node mid intf inst w =
     set_target (set_inst_id inst (set_intf_id intf (set_module_id mid
       (set_node_id node (target (w_meta w)))))) w"

definition set_reqid :: "u32 \<Rightarrow> 'u wrapper \<Rightarrow> 'u wrapper" where
  "set_reqid r w = w\<lparr>w_meta := (w_meta w)\<lparr>reqid := r\<rparr>\<rparr>"

definition set_type :: "u16 \<Rightarrow> 'u wrapper \<Rightarrow> 'u wrapper" where
  "set_type t w = w\<lparr>w_meta := set_metatype t (w_meta w)\<rparr>"

definition set_stream_data :: "u8 list option \<Rightarrow> 'u wrapper \<Rightarrow> 'u wrapper" where
  "set_stream_data bs w =
     w\<lparr>w_meta := (w_meta w)\<lparr>data_type := TYPE_STREAM\<rparr>, w_data := Stream_data bs\<rparr>"

definition get_stream_data :: "'u wrapper \<Rightarrow> u8 list option" where
  "get_stream_data w =
     (if data_type (w_meta w) = TYPE_STREAM
      then (case w_data w of Stream_data bs \<Rightarrow> bs | User_data _ \<Rightarrow> None) else None)"

text \<open>
  \<open>serialize\<close>: whether the buffer is newly allocated, the bytes, and the wrapper left behind, whose
  metadata has the byte order of the receiver.  A normal message is packed into a buffer of
  \<open>pack_size\<close> bytes (\<open>junk\<close> is what \<open>malloc\<close> left in it) and dropped.
\<close>

definition to_order :: "bool \<Rightarrow> bool \<Rightarrow> bool \<Rightarrow> metadata \<Rightarrow> metadata" where
  "to_order macro le be m = (if be then metatobe macro le m else metatole macro le m)"

definition serialize ::
  "bool \<Rightarrow> bool \<Rightarrow> bool \<Rightarrow> u8 list \<Rightarrow> 'u vtab \<Rightarrow> 'u wrapper \<Rightarrow> (bool \<times> u8 list \<times> 'u wrapper) res" where
  "serialize macro le be junk vt w =
     (if data_type (w_meta w) = TYPE_USER_NORMAL then
        (case w_data w of
           User_data (Some u) \<Rightarrow>
             let sz = vt_pack_size vt u; m = (w_meta w)\<lparr>msize := of_nat sz\<rparr>
             in if length (vt_pack vt u) \<le> sz
                then Inr (True, take sz (vt_pack vt u @ junk),
                       w\<lparr>w_meta := to_order macro le be m, w_data := User_data None\<rparr>)
                else Inl Assert_failed
         | _ \<Rightarrow> Inl Wild_deref)
      else
        let w' = w\<lparr>w_meta := to_order macro le be (w_meta w)\<rparr>
        in (case w_data w of
              Stream_data (Some bs) \<Rightarrow> Inr (False, bs, w')
            | Stream_data None \<Rightarrow> Inr (False, [], w')
            | User_data (Some u) \<Rightarrow> Inr (False, vt_image vt u, w')
            | User_data None \<Rightarrow> Inr (False, [], w')))"

definition deserialize :: "'u vtab \<Rightarrow> 'u wrapper \<Rightarrow> ('u \<times> 'u wrapper) res" where
  "deserialize vt w =
     (if data_type (w_meta w) \<noteq> TYPE_STREAM then
        (case w_data w of
           User_data (Some u) \<Rightarrow> Inr (u, w\<lparr>w_data := User_data None\<rparr>)
         | _ \<Rightarrow> Inl Wild_deref)
      else
        (case w_data w of
           Stream_data (Some bs) \<Rightarrow>
             if \<not> vt_has_unpack vt
             then Inr (vt_of_image vt bs,
                       w\<lparr>w_meta := (w_meta w)\<lparr>data_type := TYPE_USER_LITTLE\<rparr>,
                         w_data := User_data None\<rparr>)
             else (case vt_unpack vt (take (unat (msize (w_meta w))) bs) of
                     None \<Rightarrow> Inl Assert_failed
                   | Some u \<Rightarrow> Inr (u, w\<lparr>w_meta := (w_meta w)\<lparr>data_type := TYPE_USER_NORMAL\<rparr>,
                                        w_data := User_data None\<rparr>))
         | _ \<Rightarrow> Inl Wild_deref))"

lemma data_types_distinct [simp]:
  "TYPE_USER_NORMAL \<noteq> TYPE_STREAM" "TYPE_USER_LITTLE \<noteq> TYPE_STREAM"
  "TYPE_USER_LITTLE \<noteq> TYPE_USER_NORMAL" "TYPE_STREAM \<noteq> TYPE_USER_NORMAL"
  by (simp_all add: TYPE_USER_NORMAL_def TYPE_USER_LITTLE_def TYPE_STREAM_def)

section \<open>Properties\<close>

text \<open>
  The 36 bytes of metadata that precede every message determine it: reading them back gives the
  same metadata, whatever follows; and converting to the other byte order twice gives the original.
\<close>

theorem metadata_roundtrip:
  "meta_of_bytes (meta_bytes m @ bs) = m \<and> length (meta_bytes m) = META_SIZE \<and>
   metatobe macro le (metatobe macro le m) = m \<and> metatole macro le (metatole macro le m) = m"
  by (simp add: meta_of_bytes_meta metatobe_def metatole_def)


definition byte_vtab :: "bool \<Rightarrow> u8 vtab" where
  "byte_vtab packed =
     \<lparr>vt_size = 1, vt_has_unpack = packed, vt_pack_size = (\<lambda>_. 1), vt_pack = (\<lambda>u. [u]),
      vt_unpack = (\<lambda>bs. case bs of [u] \<Rightarrow> Some u | _ \<Rightarrow> None), vt_image = (\<lambda>u. [0, u]),
      vt_of_image = (\<lambda>bs. bs ! 1)\<rparr>"


lemma small_bits:
  assumes "unat (x :: 'a::len word) < 2 ^ k" and "bit x n"
  shows "n < k"
proof -
  have "unat (take_bit k x) = unat x"
    using assms(1) by (simp add: unsigned_take_bit_eq take_bit_nat_eq_self)
  then have "take_bit k x = x" by (simp add: word_unat_eq_iff)
  with assms(2) show ?thesis by (metis bit_take_bit_iff)
qed

lemma mask_ffff: "(x :: u64) AND 0xFFFF = take_bit 16 x"
  by (simp add: take_bit_eq_mask mask_eq_exp_minus_1)

lemma inst_id_bits:
  fixes nid inst r :: u32
  assumes "unat nid < 2 ^ 16" and "unat inst < 2 ^ 16" and "n < 32"
  shows "bit (GET_INST_ID (push_bit 32 (ucast r) OR ucast (push_bit 16 nid) OR ucast inst)) n = bit inst n"
    and "bit (GET_REQ_ID (push_bit 32 (ucast r) OR ucast (push_bit 16 nid) OR ucast inst)) n = bit r n"
    and "bit (GET_NODE_ID (push_bit 32 (ucast r) OR ucast (push_bit 16 nid) OR ucast inst)) n =
       (bit nid n \<or> 16 \<le> n \<and> bit r (n - 16))"
proof -
  note d = small_bits [OF assms(1)] small_bits [OF assms(2)] bit_imp_le_length [of r]
  show "bit (GET_INST_ID (push_bit 32 (ucast r) OR ucast (push_bit 16 nid) OR ucast inst)) n = bit inst n"
    using assms(3) by (auto simp: GET_INST_ID_def mask_ffff bit_simps dest: d)
  show "bit (GET_REQ_ID (push_bit 32 (ucast r) OR ucast (push_bit 16 nid) OR ucast inst)) n = bit r n"
    using assms(3) by (auto simp: GET_REQ_ID_def bit_simps dest: d)
  show "bit (GET_NODE_ID (push_bit 32 (ucast r) OR ucast (push_bit 16 nid) OR ucast inst)) n =
       (bit nid n \<or> 16 \<le> n \<and> bit r (n - 16))"
    using assms(3) by (auto simp: GET_NODE_ID_def bit_simps dest: d)
qed

text \<open>
  The identifier that user code gets for an actor gives back its instance and its request when
  node and instance fit 16 bits.  \<open>GET_NODE_ID\<close> gives back the node for request 0 only: the lower half
  of the request shows up in the upper half of its result.
\<close>

theorem inst_id_roundtrip:
  assumes "unat local_node < 2 ^ 16" and "unat (node_id a) < 2 ^ 16" and "unat (instance_id a) < 2 ^ 16"
  shows "GET_INST_ID (TO_INST_ID local_node a r) = instance_id a \<and>
    GET_REQ_ID (TO_INST_ID local_node a r) = r \<and>
    GET_NODE_ID (TO_INST_ID local_node a r) =
      (if node_id a = LOCAL then local_node else node_id a) OR push_bit 16 r"
proof -
  let ?nid = "if node_id a = LOCAL then local_node else node_id a"
  have n: "unat ?nid < 2 ^ 16" using assms by simp
  note B = inst_id_bits [OF n assms(3), of _ r]
  show ?thesis
    unfolding TO_INST_ID_def Let_def
    by (intro conjI bit_word_eqI) (simp_all add: B bit_or_iff bit_push_bit_iff)
qed

theorem inst_id_roundtrip_witness:
  "GET_NODE_ID (TO_INST_ID 3 (ActorID 0 5 9 2) 0) = 3 \<and> GET_NODE_ID (TO_INST_ID 3 (ActorID 0 5 9 2) 1) = 0x10003"
proof -
  have "unat (3 :: u32) < 2 ^ 16" "unat (node_id (ActorID 0 5 9 2)) < 2 ^ 16"
    "unat (instance_id (ActorID 0 5 9 2)) < 2 ^ 16"
    by (simp_all add: ActorID_def node_id_def instance_id_def)
  from inst_id_roundtrip [OF this, of 0] inst_id_roundtrip [OF this, of 1] show ?thesis
    by (simp add: ActorID_def node_id_def LOCAL_def)
qed

lemma hash_key_bits:
  assumes "unat (dinst_id a) < 2 ^ 16"
  shows "ucast (drop_bit 16 (hash_key a)) = dmodule_id a" and "take_bit 16 (hash_key a) = dinst_id a"
proof -
  note d = small_bits [OF assms] bit_imp_le_length [of "dmodule_id a"]
  show "ucast (drop_bit 16 (hash_key a)) = dmodule_id a"
    by (rule bit_word_eqI) (auto simp: hash_key_def bit_simps dest: d)
  show "take_bit 16 (hash_key a) = dinst_id a"
    by (rule bit_word_eqI) (auto simp: hash_key_def bit_simps dest: d)
qed

text \<open>
  The keys under which workers and actors cache instances are distinct for distinct pairs of
  module and instance as long as instances stay below \<open>2\<^sup>1\<^sup>6\<close>.
\<close>

theorem hash_key_injective:
  assumes "unat (dinst_id a) < 2 ^ 16" and "unat (dinst_id b) < 2 ^ 16"
  shows "hash_key a = hash_key b \<longleftrightarrow> dmodule_id a = dmodule_id b \<and> dinst_id a = dinst_id b"
  using hash_key_bits [OF assms(1)] hash_key_bits [OF assms(2)] by (metis hash_key_def)

theorem hash_key_injective_witness: "hash_key (ActorID 1 2 3 4) \<noteq> hash_key (ActorID 1 3 2 4)"
  using hash_key_injective [of "ActorID 1 2 3 4" "ActorID 1 3 2 4"] by (simp add: ActorID_def)

end
