(* ===== verification/Safe_Ptr.thy ===== *)
theory Safe_Ptr
  imports Prelude
begin

text \<open>
  Reference counting: \<open>include/mola/c/mola_refcnt.h\<close>, the allocation functions of
  \<open>src/message.cpp\<close>, and the pointers \<open>MessageSafePtr\<close> to reference-counted \<open>MessageWrapper\<close>s of
  \<open>include/mola/message.hpp\<close>.  An access to an object that was freed is a fault.  The main
  result is that any sequence of pointer operations neither faults nor leaks.
\<close>

section \<open>Counted messages\<close>

text \<open>
  A message with its counter, whether a release handler and a destructor are installed, and the
  user data.  \<open>dtor_calls\<close> records the destructor calls in order.
\<close>

record 'u mobj =
  count :: u32
  handler :: bool
  dtor :: bool
  content :: 'u

record 'u mem =
  objs :: "addr \<Rightarrow> 'u mobj option"
  dtor_calls :: "addr list"

definition mola_refcnt_get :: "addr \<Rightarrow> 'u mem \<Rightarrow> 'u mem res" where
  "mola_refcnt_get a h =
     (case objs h a of
        None \<Rightarrow> Inl Use_after_free
      | Some x \<Rightarrow>
          if 0 < count x then Inr (h\<lparr>objs := (objs h)(a \<mapsto> x\<lparr>count := count x + 1\<rparr>)\<rparr>)
          else Inl Assert_failed)"

definition mola_refcnt_dec :: "addr \<Rightarrow> 'u mem \<Rightarrow> ('u mobj \<times> 'u mem) res" where
  "mola_refcnt_dec a h =
     (case objs h a of
        None \<Rightarrow> Inl Use_after_free
      | Some x \<Rightarrow>
          if 0 < count x
          then (let y = x\<lparr>count := count x - 1\<rparr> in Inr (y, h\<lparr>objs := (objs h)(a \<mapsto> y)\<rparr>))
          else Inl Assert_failed)"

text \<open>
  \<open>mola_refcnt_put\<close> runs the release handler at zero and frees the object.  The handler
  \<open>__dealloc_unpacked_message\<close> calls the destructor and then \<open>free_unpacked\<close>, which calls
  \<open>__deallocate\<close> on the object again.  The first argument bounds the depth of that recursion.
\<close>

fun put_depth :: "nat \<Rightarrow> addr \<Rightarrow> 'u mem \<Rightarrow> (bool \<times> 'u mem) res"
and deallocate_depth :: "nat \<Rightarrow> addr \<Rightarrow> 'u mem \<Rightarrow> 'u mem res"
where
  "put_depth 0 a h = Inl Diverges"
| "put_depth (Suc n) a h =
     bind_res (mola_refcnt_dec a h) (\<lambda>(x, h1).
       if count x = 0 then
         bind_res
           (if handler x
            then deallocate_depth n a (if dtor x then h1\<lparr>dtor_calls := dtor_calls h1 @ [a]\<rparr> else h1)
            else Inr h1)
           (\<lambda>h2. Inr (True, h2\<lparr>objs := (objs h2)(a := None)\<rparr>))
       else Inr (False, h1))"
| "deallocate_depth 0 a h = Inl Diverges"
| "deallocate_depth (Suc n) a h =
     (case objs h a of
        None \<Rightarrow> Inl Use_after_free
      | Some x \<Rightarrow> if 0 < count x then bind_res (put_depth n a h) (\<lambda>(_, h'). Inr h') else Inr h)"

text \<open>The re-entry stops at once, so that these depths are enough (lemmas \<open>put_live\<close> and \<open>deallocate_live\<close>).\<close>

definition mola_refcnt_put :: "addr \<Rightarrow> 'u mem \<Rightarrow> (bool \<times> 'u mem) res" where
  "mola_refcnt_put = put_depth 2"

definition deallocate :: "addr \<Rightarrow> 'u mem \<Rightarrow> 'u mem res" where
  "deallocate = deallocate_depth 3"

definition mola_refcnt_unique :: "addr \<Rightarrow> 'u mem \<Rightarrow> bool res" where
  "mola_refcnt_unique a h =
     (case objs h a of
        None \<Rightarrow> Inl Use_after_free
      | Some x \<Rightarrow> if 0 < count x then Inr (count x = 1) else Inl Assert_failed)"

definition mola_alloc_message :: "addr \<Rightarrow> bool \<Rightarrow> 'u \<Rightarrow> 'u mem \<Rightarrow> 'u mem" where
  "mola_alloc_message a d u h =
     h\<lparr>objs := (objs h)(a \<mapsto> \<lparr>count = 1, handler = True, dtor = d, content = u\<rparr>)\<rparr>"

definition mola_alloc :: "addr \<Rightarrow> bool \<Rightarrow> 'u \<Rightarrow> 'u mem \<Rightarrow> 'u mem" where
  "mola_alloc a d u h =
     h\<lparr>objs := (objs h)(a \<mapsto> \<lparr>count = 1, handler = False, dtor = d, content = u\<rparr>)\<rparr>"

text \<open>
  \<open>mola_message_cow\<close>: the message itself when it is unique, else a copy at a fresh address, the
  reference to the original being given up.  \<open>copy\<close> is the type's copy callback, or \<open>memcpy\<close>.
\<close>

definition mola_message_cow :: "('u \<Rightarrow> 'u) \<Rightarrow> addr \<Rightarrow> addr \<Rightarrow> 'u mem \<Rightarrow> (addr \<times> 'u mem) res" where
  "mola_message_cow copy fresh a h =
     bind_res (mola_refcnt_unique a h) (\<lambda>unique.
       if unique then Inr (a, h)
       else (case objs h a of
               None \<Rightarrow> Inl Use_after_free
             | Some x \<Rightarrow>
                 bind_res (mola_refcnt_put a (mola_alloc_message fresh (dtor x) (copy (content x)) h))
                   (\<lambda>(_, h'). Inr (fresh, h'))))"

text \<open>The result of giving up one reference to a live message.\<close>

definition give_up :: "addr \<Rightarrow> 'u mobj \<Rightarrow> 'u mem \<Rightarrow> 'u mem" where
  "give_up a x h =
     (if count x = 1
      then h\<lparr>objs := (objs h)(a := None),
             dtor_calls := dtor_calls h @ (if handler x \<and> dtor x then [a] else [])\<rparr>
      else h\<lparr>objs := (objs h)(a \<mapsto> x\<lparr>count := count x - 1\<rparr>)\<rparr>)"

lemma minus_one_zero_iff: "x - 1 = (0 :: 'a::len word) \<longleftrightarrow> x = 1"
  by (metis add.left_neutral diff_add_cancel diff_self)

lemma put_live:
  assumes "objs h a = Some x" and "0 < count x"
  shows "mola_refcnt_put a h = Inr (count x = 1, give_up a x h)"
  using assms
  by (auto simp: mola_refcnt_put_def mola_refcnt_dec_def numeral_2_eq_2 give_up_def Let_def
    minus_one_zero_iff fun_upd_idem)

lemma deallocate_live:
  assumes "objs h a = Some x" and "0 < count x"
  shows "deallocate a h = Inr (give_up a x h)"
proof -
  have "deallocate a h = bind_res (mola_refcnt_put a h) (\<lambda>(_, h'). Inr h')"
    using assms by (simp add: deallocate_def mola_refcnt_put_def eval_nat_numeral)
  then show ?thesis using put_live [OF assms] by simp
qed

lemma deallocate_eq:
  "deallocate a h =
     (case objs h a of
        None \<Rightarrow> Inl Use_after_free
      | Some x \<Rightarrow> Inr (if 0 < count x then give_up a x h else h))"
proof (cases "objs h a")
  case (Some x)
  then show ?thesis using deallocate_live [OF Some]
    by (cases "0 < count x") (auto simp: deallocate_def numeral_3_eq_3)
qed (simp add: deallocate_def numeral_3_eq_3)

lemma give_up_objs:
  "objs (give_up a x h) = (objs h)(a := (if count x = 1 then None else Some (x\<lparr>count := count x - 1\<rparr>)))"
  by (simp add: give_up_def)

section \<open>Safe pointers\<close>

text \<open>
  What a wrapper refers to: a stream buffer, or a message (null after \<open>drop_\<close> or \<open>pass_\<close>).
  The state holds the pointer variables, the wrappers with their counters, the references that
  the C code of a module holds directly (to messages and to stream buffers), the live stream
  buffers and the messages.
\<close>

datatype wdata = W_stream "addr option" | W_msg "addr option"

record 'u sp_state =
  vars :: "addr option list"
  wrappers :: "addr \<Rightarrow> (u32 \<times> wdata) option"
  raws :: "addr list"
  bufs :: "addr list"
  streams :: "addr \<Rightarrow> bool"
  mem :: "'u mem"

definition inc_ref :: "addr \<Rightarrow> 'u sp_state \<Rightarrow> 'u sp_state res" where
  "inc_ref w s =
     (case wrappers s w of
        None \<Rightarrow> Inl Use_after_free
      | Some (c, d) \<Rightarrow> Inr (s\<lparr>wrappers := (wrappers s)(w \<mapsto> (c + 1, d))\<rparr>))"

text \<open>The destructor of \<open>MessageWrapper\<close>.\<close>

fun destroy_data :: "wdata \<Rightarrow> 'u sp_state \<Rightarrow> 'u sp_state res" where
  "destroy_data (W_stream (Some a)) s =
     (if streams s a then Inr (s\<lparr>streams := (streams s)(a := False)\<rparr>) else Inl Use_after_free)"
| "destroy_data (W_msg (Some m)) s = bind_res (deallocate m (mem s)) (\<lambda>h. Inr (s\<lparr>mem := h\<rparr>))"
| "destroy_data (W_stream None) s = Inr s"
| "destroy_data (W_msg None) s = Inr s"

definition dec_ref :: "addr \<Rightarrow> 'u sp_state \<Rightarrow> 'u sp_state res" where
  "dec_ref w s =
     (case wrappers s w of
        None \<Rightarrow> Inl Use_after_free
      | Some (c, d) \<Rightarrow>
          if c - 1 = 0
          then bind_res (destroy_data d s) (\<lambda>s'. Inr (s'\<lparr>wrappers := (wrappers s')(w := None)\<rparr>))
          else Inr (s\<lparr>wrappers := (wrappers s)(w \<mapsto> (c - 1, d))\<rparr>))"

definition sp_drop :: "nat \<Rightarrow> 'u sp_state \<Rightarrow> 'u sp_state res" where
  "sp_drop i s =
     (case vars s ! i of
        None \<Rightarrow> Inr s
      | Some w \<Rightarrow> bind_res (dec_ref w s) (\<lambda>s'. Inr (s'\<lparr>vars := (vars s')[i := None]\<rparr>)))"

text \<open>Assignment from an lvalue, from an rvalue, and of a message the C code holds.\<close>

definition sp_assign :: "nat \<Rightarrow> nat \<Rightarrow> 'u sp_state \<Rightarrow> 'u sp_state res" where
  "sp_assign i j s =
     bind_res (sp_drop i s) (\<lambda>s1.
       case vars s1 ! j of
         None \<Rightarrow> Inr s1
       | Some w \<Rightarrow> bind_res (inc_ref w s1) (\<lambda>s2. Inr (s2\<lparr>vars := (vars s2)[i := Some w]\<rparr>)))"

definition sp_move :: "nat \<Rightarrow> nat \<Rightarrow> 'u sp_state \<Rightarrow> 'u sp_state res" where
  "sp_move i j s =
     bind_res (sp_drop i s) (\<lambda>s1. Inr (s1\<lparr>vars := (vars s1)[j := None, i := vars s1 ! j]\<rparr>))"

definition sp_raw :: "nat \<Rightarrow> addr \<Rightarrow> addr \<Rightarrow> 'u sp_state \<Rightarrow> 'u sp_state res" where
  "sp_raw i w m s =
     bind_res (sp_drop i s) (\<lambda>s1.
       Inr (s1\<lparr>vars := (vars s1)[i := Some w], wrappers := (wrappers s1)(w \<mapsto> (1, W_msg (Some m))),
               raws := remove1 m (raws s1)\<rparr>))"

text \<open>
  A wrapper for a stream buffer, and a copy of another wrapper (the copy constructor), each put
  into an unused variable.
\<close>

definition sp_stream :: "nat \<Rightarrow> addr \<Rightarrow> addr \<Rightarrow> 'u sp_state \<Rightarrow> 'u sp_state res" where
  "sp_stream i w a s =
     Inr (s\<lparr>vars := (vars s)[i := Some w], wrappers := (wrappers s)(w \<mapsto> (1, W_stream (Some a))),
            bufs := remove1 a (bufs s)\<rparr>)"

definition sp_clone :: "nat \<Rightarrow> nat \<Rightarrow> addr \<Rightarrow> 'u sp_state \<Rightarrow> 'u sp_state res" where
  "sp_clone i j w s =
     (case vars s ! j of
        None \<Rightarrow> Inl Wild_deref
      | Some v \<Rightarrow>
          (case wrappers s v of
             None \<Rightarrow> Inl Use_after_free
           | Some (c, d) \<Rightarrow>
               bind_res (case d of
                           W_msg (Some m) \<Rightarrow> mola_refcnt_get m (mem s)
                         | _ \<Rightarrow> Inr (mem s)) (\<lambda>h.
                 Inr (s\<lparr>vars := (vars s)[i := Some w], wrappers := (wrappers s)(w \<mapsto> (1, d)), mem := h\<rparr>))))"

text \<open>\<open>pass_\<close>: the wrapper hands its message to the C code.\<close>

definition sp_pass :: "nat \<Rightarrow> 'u sp_state \<Rightarrow> 'u sp_state res" where
  "sp_pass i s =
     (case vars s ! i of
        None \<Rightarrow> Inl Wild_deref
      | Some w \<Rightarrow>
          (case wrappers s w of
             Some (c, W_msg (Some m)) \<Rightarrow>
               Inr (s\<lparr>wrappers := (wrappers s)(w \<mapsto> (c, W_msg None)), raws := m # raws s\<rparr>)
           | None \<Rightarrow> Inl Use_after_free
           | _ \<Rightarrow> Inr s))"

text \<open>
  Operations of pointers, and of C code: to allocate, share and release a message, and to allocate
  a stream buffer.
\<close>

datatype 'u sp_op =
    Drop nat
  | Assign nat nat
  | Move nat nat
  | Raw nat addr addr
  | Stream nat addr addr
  | Clone nat nat addr
  | Pass nat
  | Alloc addr bool 'u
  | Get addr
  | Put addr
  | Buf addr

fun sp_exec :: "'u sp_op \<Rightarrow> 'u sp_state \<Rightarrow> 'u sp_state res" where
  "sp_exec (Drop i) s = sp_drop i s"
| "sp_exec (Assign i j) s = sp_assign i j s"
| "sp_exec (Move i j) s = sp_move i j s"
| "sp_exec (Raw i w m) s = sp_raw i w m s"
| "sp_exec (Stream i w a) s = sp_stream i w a s"
| "sp_exec (Clone i j w) s = sp_clone i j w s"
| "sp_exec (Pass i) s = sp_pass i s"
| "sp_exec (Alloc m d u) s = Inr (s\<lparr>mem := mola_alloc_message m d u (mem s), raws := m # raws s\<rparr>)"
| "sp_exec (Get m) s = bind_res (mola_refcnt_get m (mem s)) (\<lambda>h. Inr (s\<lparr>mem := h, raws := m # raws s\<rparr>))"
| "sp_exec (Put m) s = bind_res (deallocate m (mem s)) (\<lambda>h. Inr (s\<lparr>mem := h, raws := remove1 m (raws s)\<rparr>))"
| "sp_exec (Buf a) s = Inr (s\<lparr>streams := (streams s)(a := True), bufs := a # bufs s\<rparr>)"

text \<open>
  What callers and the allocator guarantee: variables exist, new addresses are those of no live
  object, C code gives away only what it holds, a wrapper that owns a stream buffer is not copied,
  and there are fewer than \<open>2 ^ 32\<close> references altogether.
\<close>

fun sp_pre :: "'u sp_op \<Rightarrow> 'u sp_state \<Rightarrow> bool" where
  "sp_pre (Drop i) s \<longleftrightarrow> i < length (vars s)"
| "sp_pre (Assign i j) s \<longleftrightarrow> i < length (vars s) \<and> j < length (vars s)"
| "sp_pre (Move i j) s \<longleftrightarrow> i < length (vars s) \<and> j < length (vars s)"
| "sp_pre (Raw i w m) s \<longleftrightarrow> i < length (vars s) \<and> wrappers s w = None \<and> m \<in> set (raws s)"
| "sp_pre (Stream i w a) s \<longleftrightarrow>
     i < length (vars s) \<and> vars s ! i = None \<and> wrappers s w = None \<and> a \<in> set (bufs s)"
| "sp_pre (Clone i j w) s \<longleftrightarrow>
     i < length (vars s) \<and> j < length (vars s) \<and> vars s ! i = None \<and> wrappers s w = None \<and>
     (case vars s ! j of
        None \<Rightarrow> False
      | Some v \<Rightarrow> (case wrappers s v of Some (c, W_stream (Some a)) \<Rightarrow> False | _ \<Rightarrow> True))"
| "sp_pre (Pass i) s \<longleftrightarrow>
     i < length (vars s) \<and> vars s ! i \<noteq> None \<and> length (vars s) + length (raws s) + 1 < 2 ^ 32"
| "sp_pre (Alloc m d u) s \<longleftrightarrow> objs (mem s) m = None \<and> length (vars s) + length (raws s) + 1 < 2 ^ 32"
| "sp_pre (Get m) s \<longleftrightarrow> m \<in> set (raws s) \<and> length (vars s) + length (raws s) + 1 < 2 ^ 32"
| "sp_pre (Put m) s \<longleftrightarrow> m \<in> set (raws s)"
| "sp_pre (Buf a) s \<longleftrightarrow> \<not> streams s a"

fun sp_run :: "'u sp_op list \<Rightarrow> 'u sp_state \<Rightarrow> 'u sp_state res" where
  "sp_run [] s = Inr s"
| "sp_run (p # ps) s = bind_res (sp_exec p s) (sp_run ps)"

fun sp_runs :: "'u sp_op list \<Rightarrow> 'u sp_state \<Rightarrow> bool" where
  "sp_runs [] s \<longleftrightarrow> True"
| "sp_runs (p # ps) s \<longleftrightarrow> sp_pre p s \<and> (case sp_exec p s of Inl _ \<Rightarrow> True | Inr s' \<Rightarrow> sp_runs ps s')"

definition sp_init :: "nat \<Rightarrow> 'u sp_state" where
  "sp_init n =
     \<lparr>vars = replicate n None, wrappers = (\<lambda>_. None), raws = [], bufs = [], streams = (\<lambda>_. False),
      mem = \<lparr>objs = (\<lambda>_. None), dtor_calls = []\<rparr>\<rparr>"

section \<open>Counters are exact\<close>

text \<open>\<open>mem_ok h R\<close>: the counter of every message is its number of references \<open>R\<close>.\<close>

definition mem_ok :: "'u mem \<Rightarrow> (addr \<Rightarrow> nat) \<Rightarrow> bool" where
  "mem_ok h R \<longleftrightarrow>
     (\<forall>m. objs h m = None \<longrightarrow> R m = 0) \<and>
     (\<forall>m x. objs h m = Some x \<longrightarrow> unat (count x) = R m \<and> 0 < R m)"

abbreviation wref :: "'u sp_state \<Rightarrow> addr \<Rightarrow> nat" where
  "wref s w \<equiv> count_list (vars s) (Some w)"

definition holders :: "(addr \<Rightarrow> (u32 \<times> wdata) option) \<Rightarrow> wdata \<Rightarrow> addr set" where
  "holders W d = {w. \<exists>c. W w = Some (c, d)}"

definition refs :: "(addr \<Rightarrow> (u32 \<times> wdata) option) \<Rightarrow> addr list \<Rightarrow> addr \<Rightarrow> nat" where
  "refs W rs m = card (holders W (W_msg (Some m))) + count_list rs m"

definition wrappers_ok :: "addr option list \<Rightarrow> (addr \<Rightarrow> (u32 \<times> wdata) option) \<Rightarrow> bool" where
  "wrappers_ok vs W \<longleftrightarrow>
     (\<forall>w. W w = None \<longrightarrow> count_list vs (Some w) = 0) \<and>
     (\<forall>w c d. W w = Some (c, d) \<longrightarrow> unat c = count_list vs (Some w) \<and> 0 < count_list vs (Some w))"

definition streams_ok :: "(addr \<Rightarrow> (u32 \<times> wdata) option) \<Rightarrow> addr list \<Rightarrow> (addr \<Rightarrow> bool) \<Rightarrow> bool" where
  "streams_ok W bs live \<longleftrightarrow>
     (\<forall>a. card (holders W (W_stream (Some a))) + count_list bs a = (if live a then 1 else 0))"

definition sp_ok :: "'u sp_state \<Rightarrow> bool" where
  "sp_ok s \<longleftrightarrow>
     length (vars s) + length (raws s) < 2 ^ 32 \<and> wrappers_ok (vars s) (wrappers s) \<and>
     mem_ok (mem s) (refs (wrappers s) (raws s)) \<and> streams_ok (wrappers s) (bufs s) (streams s)"

lemma count_list_update:
  "i < length xs \<Longrightarrow>
   count_list (xs[i := v]) y + (if xs ! i = y then 1 else 0) = count_list xs y + (if v = y then 1 else 0)"
proof (induction xs arbitrary: i)
  case (Cons x xs)
  show ?case
  proof (cases i)
    case (Suc k)
    then have "k < length xs" using Cons.prems by simp
    from Cons.IH [OF this] Suc show ?thesis by (cases "x = y") simp_all
  qed simp
qed simp

lemma count_list_remove1: "count_list (remove1 x xs) y = count_list xs y - (if x = y then 1 else 0)"
  by (induction xs) (auto simp: count_list_0_iff)

lemma count_pos: "x \<in> set xs \<Longrightarrow> 0 < count_list xs x"
  by (metis count_list_0_iff gr0I)

lemma live_wrapper_var:
  assumes "wrappers_ok vs W" "W w = Some p"
  shows "Some w \<in> set vs"
proof -
  have "0 < count_list vs (Some w)"
    using assms by (cases p) (auto simp: wrappers_ok_def)
  then show ?thesis by (metis count_list_0_iff less_numeral_extra(3))
qed

lemma holders_bound:
  assumes "wrappers_ok vs W"
  shows "finite (holders W d)" "card (holders W d) \<le> length vs"
proof -
  have *: "holders W d \<subseteq> the ` set vs"
    using live_wrapper_var [OF assms] by (force simp: holders_def)
  then show "finite (holders W d)" by (rule finite_subset) simp
  show "card (holders W d) \<le> length vs"
    using * by (meson card_image_le card_length card_mono finite_imageI finite_set le_trans)
qed

lemma mem_okD:
  assumes "mem_ok h R" "0 < R m"
  shows "\<exists>x. objs h m = Some x \<and> unat (count x) = R m \<and> 0 < count x"
proof -
  obtain x where x: "objs h m = Some x" using assms by (cases "objs h m") (auto simp: mem_ok_def)
  then have "unat (count x) = R m" using assms(1) by (auto simp: mem_ok_def)
  with x assms(2) show ?thesis by (metis unat_gt_0 word_greater_zero_iff)
qed

lemma mem_ok_upd:
  assumes "mem_ok h R" "objs h' = (objs h)(m := y)"
    and "case y of None \<Rightarrow> r = 0 | Some x \<Rightarrow> unat (count x) = r \<and> 0 < r"
  shows "mem_ok h' (R(m := r))"
  using assms by (auto simp: mem_ok_def split: option.splits if_splits)

lemma mem_ok_deallocate:
  assumes "mem_ok h R" "0 < R m"
  shows "\<exists>h'. deallocate m h = Inr h' \<and> mem_ok h' (R(m := R m - 1))"
proof -
  obtain x where x: "objs h m = Some x" "unat (count x) = R m" "0 < count x"
    using mem_okD [OF assms] by blast
  have "count x = 1 \<longleftrightarrow> R m = 1" using x(2) by (metis unat_1 word_unat_eq_iff)
  moreover have "unat (count x - 1) = R m - 1" using x by (simp add: unat_minus_one)
  ultimately have "mem_ok (give_up m x h) (R(m := R m - 1))"
    using assms(2) by (intro mem_ok_upd [OF assms(1) give_up_objs]) auto
  then show ?thesis using deallocate_live [OF x(1,3)] by blast
qed

lemma mem_ok_get:
  assumes "mem_ok h R" "0 < R m" "R m + 1 < 2 ^ 32"
  shows "\<exists>h'. mola_refcnt_get m h = Inr h' \<and> mem_ok h' (R(m := R m + 1))"
proof -
  obtain x where x: "objs h m = Some x" "unat (count x) = R m" "0 < count x"
    using mem_okD [OF assms(1,2)] by blast
  have "unat (count x + 1) = R m + 1"
    using x(2) assms(3) by (simp add: unat_word_ariths)
  then have "mem_ok (h\<lparr>objs := (objs h)(m \<mapsto> x\<lparr>count := count x + 1\<rparr>)\<rparr>) (R(m := R m + 1))"
    by (intro mem_ok_upd [OF assms(1)]) auto
  then show ?thesis using x by (simp add: mola_refcnt_get_def)
qed

lemma mem_ok_alloc:
  assumes "mem_ok h R" "objs h m = None"
  shows "mem_ok (mola_alloc_message m d u h) (R(m := R m + 1))"
proof -
  have "R m = 0" using assms by (auto simp: mem_ok_def)
  then show ?thesis by (intro mem_ok_upd [OF assms(1)]) (auto simp: mola_alloc_message_def)
qed

text \<open>How the references change when a wrapper is written or deleted.\<close>

lemma holders_upd:
  "holders (W(w \<mapsto> (c, d))) d' = (if d' = d then insert w (holders W d') else holders W d' - {w})"
  by (auto simp: holders_def)

lemma holders_del: "holders (W(w := None)) d' = holders W d' - {w}"
  by (auto simp: holders_def)

lemma holders_count: "W w = Some (c, d) \<Longrightarrow> holders (W(w \<mapsto> (c', d))) = holders W"
  by (auto simp: holders_def fun_eq_iff)

lemma refs_count: "W w = Some (c, d) \<Longrightarrow> refs (W(w \<mapsto> (c', d))) = refs W"
  by (simp add: refs_def fun_eq_iff holders_count)

lemma streams_count: "W w = Some (c, d) \<Longrightarrow> streams_ok (W(w \<mapsto> (c', d))) = streams_ok W"
  by (simp add: streams_ok_def fun_eq_iff holders_count)

lemma holders_mem: "w \<in> holders W d \<longleftrightarrow> (\<exists>c. W w = Some (c, d))"
  by (simp add: holders_def)

lemma wrappers_ok_upd:
  assumes "wrappers_ok vs W" "\<And>v. v \<noteq> w \<Longrightarrow> count_list vs' (Some v) = count_list vs (Some v)"
    and "case p of None \<Rightarrow> count_list vs' (Some w) = 0
         | Some (c, d) \<Rightarrow> unat c = count_list vs' (Some w) \<and> 0 < count_list vs' (Some w)"
  shows "wrappers_ok vs' (W(w := p))"
  using assms by (auto simp: wrappers_ok_def split: option.splits if_splits)

lemma wrappers_okD:
  assumes "wrappers_ok vs W" "i < length vs" "vs ! i = Some w"
  shows "\<exists>c d. W w = Some (c, d) \<and> unat c = count_list vs (Some w) \<and> 0 < count_list vs (Some w)"
proof -
  have "0 < count_list vs (Some w)" using assms(2,3) by (metis count_pos nth_mem)
  with assms(1) show ?thesis by (cases "W w") (auto simp: wrappers_ok_def)
qed

lemma count_update_ne:
  "i < length xs \<Longrightarrow> xs ! i \<noteq> y \<Longrightarrow> v \<noteq> y \<Longrightarrow> count_list (xs[i := v]) y = count_list xs y"
  using count_list_update [of i xs v y] by simp

lemma count_update_clear:
  "i < length xs \<Longrightarrow> xs ! i = y \<Longrightarrow> v \<noteq> y \<Longrightarrow> count_list (xs[i := v]) y = count_list xs y - 1"
  using count_list_update [of i xs v y] by simp

lemma count_update_set:
  "i < length xs \<Longrightarrow> xs ! i \<noteq> y \<Longrightarrow> count_list (xs[i := y]) y = count_list xs y + 1"
  using count_list_update [of i xs y y] by simp

text \<open>Dropping a pointer keeps the counters exact and clears only that variable.\<close>

lemma refs_del_msg:
  assumes "finite (holders W (W_msg (Some m)))" "W w = Some (c, W_msg (Some m))"
  shows "refs (W(w := None)) rs = (refs W rs)(m := refs W rs m - 1)"
proof
  fix m'
  have "w \<in> holders W (W_msg (Some m))" using assms(2) by (simp add: holders_mem)
  then have "0 < card (holders W (W_msg (Some m)))" using assms(1) card_gt_0_iff by blast
  moreover have "m' \<noteq> m \<Longrightarrow> w \<notin> holders W (W_msg (Some m'))" using assms(2) by (simp add: holders_mem)
  ultimately show "refs (W(w := None)) rs m' = ((refs W rs)(m := refs W rs m - 1)) m'"
    using \<open>w \<in> holders W _\<close> by (auto simp: refs_def holders_del)
qed

lemma refs_del_other:
  "W w = Some (c, d) \<Longrightarrow> (\<forall>m. d \<noteq> W_msg (Some m)) \<Longrightarrow> refs (W(w := None)) rs = refs W rs"
  by (auto simp: refs_def holders_del holders_mem fun_eq_iff)

lemma streams_del_stream:
  assumes "streams_ok W bs L" "W w = Some (c, W_stream (Some a))" "finite (holders W (W_stream (Some a)))"
  shows "L a \<and> streams_ok (W(w := None)) bs (L(a := False))"
proof -
  have w: "w \<in> holders W (W_stream (Some a))" using assms(2) by (simp add: holders_mem)
  then have "0 < card (holders W (W_stream (Some a)))" using assms(3) card_gt_0_iff by blast
  moreover have "card (holders W (W_stream (Some a))) + count_list bs a = (if L a then 1 else 0)"
    using assms(1) by (simp add: streams_ok_def)
  ultimately have "L a" "card (holders W (W_stream (Some a))) = 1" "count_list bs a = 0"
    by (auto split: if_splits)
  moreover have "b \<noteq> a \<Longrightarrow> w \<notin> holders W (W_stream (Some b))" for b
    using assms(2) by (simp add: holders_mem)
  ultimately show ?thesis using assms(1) w
    by (auto simp: streams_ok_def holders_del simp del: add_is_0 add_eq_0_iff_both_eq_0)
qed

lemma streams_del_other:
  "W w = Some (c, d) \<Longrightarrow> (\<forall>a. d \<noteq> W_stream (Some a)) \<Longrightarrow>
   streams_ok (W(w := None)) bs L = streams_ok W bs L"
  by (auto simp: streams_ok_def holders_del holders_mem)

lemma wrappers_ok_drop:
  assumes "wrappers_ok vs W" "i < length vs" "vs ! i = Some w" "W w = Some (c, d)"
  shows "wrappers_ok (vs[i := None]) (W(w := (if c = 1 then None else Some (c - 1, d))))"
proof (rule wrappers_ok_upd [OF assms(1)])
  fix v assume "v \<noteq> w"
  then show "count_list (vs[i := None]) (Some v) = count_list vs (Some v)"
    using assms(2,3) by (simp add: count_update_ne)
next
  have c: "unat c = count_list vs (Some w)" "0 < count_list vs (Some w)"
    using assms(1,4) by (auto simp: wrappers_ok_def)
  have "count_list (vs[i := None]) (Some w) = unat c - 1"
    using assms(2,3) c by (simp add: count_update_clear)
  moreover have "c = 1 \<longleftrightarrow> unat c = 1" by (metis unat_1 word_unat_eq_iff)
  moreover have "c \<noteq> 0" using c by auto
  ultimately show "case (if c = 1 then None else Some (c - 1, d)) of
      None \<Rightarrow> count_list (vs[i := None]) (Some w) = 0
    | Some (c, d) \<Rightarrow> unat c = count_list (vs[i := None]) (Some w) \<and> 0 < count_list (vs[i := None]) (Some w)"
    using c by (auto simp: unat_minus_one)
qed

lemma refs_pos:
  assumes "wrappers_ok vs W" "W w = Some (c, W_msg (Some m))"
  shows "0 < refs W rs m"
proof -
  have "w \<in> holders W (W_msg (Some m))" using assms(2) by (simp add: holders_mem)
  then have "0 < card (holders W (W_msg (Some m)))" using holders_bound(1) [OF assms(1)] card_gt_0_iff by blast
  then show ?thesis by (simp add: refs_def)
qed

lemma destroy_ok:
  assumes "wrappers_ok vs (wrappers s)" "wrappers s w = Some (c, d)"
    and "mem_ok (mem s) (refs (wrappers s) (raws s))" "streams_ok (wrappers s) (bufs s) (streams s)"
  shows "\<exists>s'. destroy_data d s = Inr s' \<and>
     vars s' = vars s \<and> wrappers s' = wrappers s \<and> raws s' = raws s \<and> bufs s' = bufs s \<and>
     mem_ok (mem s') (refs ((wrappers s)(w := None)) (raws s)) \<and>
     streams_ok ((wrappers s)(w := None)) (bufs s) (streams s')"
proof (cases d)
  case (W_stream p)
  then show ?thesis
    using streams_del_stream [OF assms(4)] assms streams_del_other [of "wrappers s", OF assms(2)] refs_del_other [of "wrappers s", OF assms(2)]
      holders_bound(1) [OF assms(1)]
    by (cases p) auto
next
  case (W_msg p)
  show ?thesis
  proof (cases p)
    case None
    then show ?thesis
      using W_msg assms streams_del_other [of "wrappers s", OF assms(2)] refs_del_other [of "wrappers s", OF assms(2)] by auto
  next
    case (Some m)
    note fin = holders_bound(1) [OF assms(1)]
    have "0 < refs (wrappers s) (raws s) m" using refs_pos [OF assms(1)] assms(2) W_msg Some by simp
    from mem_ok_deallocate [OF assms(3) this] show ?thesis
      using assms W_msg Some fin streams_del_other [of "wrappers s", OF assms(2)] refs_del_msg [OF fin]
      by auto
  qed
qed

lemma sp_drop_ok:
  assumes ok: "sp_ok s" and i: "i < length (vars s)"
  shows "\<exists>s'. sp_drop i s = Inr s' \<and> sp_ok s' \<and> vars s' = (vars s)[i := None] \<and> raws s' = raws s \<and>
     bufs s' = bufs s \<and> (\<forall>w. wrappers s w = None \<longrightarrow> wrappers s' w = None)"
proof (cases "vars s ! i")
  case None
  moreover from None have "(vars s)[i := None] = vars s" by (metis list_update_id)
  ultimately show ?thesis using ok i by (auto simp: sp_drop_def)
next
  case (Some w)
  have ok': "wrappers_ok (vars s) (wrappers s)" "mem_ok (mem s) (refs (wrappers s) (raws s))"
    "streams_ok (wrappers s) (bufs s) (streams s)" "length (vars s) + length (raws s) < 2 ^ 32"
    using ok by (auto simp: sp_ok_def)
  obtain c d where w: "wrappers s w = Some (c, d)" using wrappers_okD [OF ok'(1) i Some] by blast
  note wok = wrappers_ok_drop [OF ok'(1) i Some w]
  show ?thesis
  proof (cases "c = 1")
    case True
    from destroy_ok [OF ok'(1) w ok'(2,3)] show ?thesis
      using True Some w wok ok'(4) by (auto simp: sp_drop_def dec_ref_def sp_ok_def)
  next
    case False
    then show ?thesis
      using Some w wok ok' refs_count [of "wrappers s", OF w] streams_count [of "wrappers s", OF w]
      by (auto simp: sp_drop_def dec_ref_def sp_ok_def minus_one_zero_iff)
  qed
qed

text \<open>A new wrapper in an unused variable.\<close>

lemma wrappers_ok_new:
  assumes "wrappers_ok vs W" "i < length vs" "vs ! i = None" "W w = None"
  shows "wrappers_ok (vs[i := Some w]) (W(w \<mapsto> (1, d)))"
proof (rule wrappers_ok_upd [OF assms(1)])
  fix v assume "v \<noteq> w"
  then show "count_list (vs[i := Some w]) (Some v) = count_list vs (Some v)"
    using assms(2,3) by (simp add: count_update_ne)
next
  have "count_list vs (Some w) = 0" using assms(1,4) by (auto simp: wrappers_ok_def)
  then have "count_list (vs[i := Some w]) (Some w) = 1" using assms(2,3) by (simp add: count_update_set)
  then show "case Some (1, d) of
      None \<Rightarrow> count_list (vs[i := Some w]) (Some w) = 0
    | Some (c, d) \<Rightarrow> unat c = count_list (vs[i := Some w]) (Some w) \<and> 0 < count_list (vs[i := Some w]) (Some w)"
    by simp
qed

lemma holders_new:
  assumes "wrappers_ok vs W" "W w = None"
  shows "card (holders (W(w \<mapsto> (c, d))) d') = card (holders W d') + (if d' = d then 1 else 0)"
  using assms(2) holders_bound(1) [OF assms(1)] by (auto simp: holders_upd holders_mem)

lemma refs_new:
  assumes "wrappers_ok vs W" "W w = None"
  shows "refs (W(w \<mapsto> (c, d))) rs m = refs W rs m + (if d = W_msg (Some m) then 1 else 0)"
  using holders_new [OF assms] by (auto simp: refs_def)

lemma streams_new_other:
  assumes "wrappers_ok vs W" "W w = None" "\<forall>a. d \<noteq> W_stream (Some a)"
  shows "streams_ok (W(w \<mapsto> (c, d))) bs L = streams_ok W bs L"
proof -
  have "card (holders (W(w \<mapsto> (c, d))) (W_stream (Some a))) = card (holders W (W_stream (Some a)))" for a
    using holders_new [OF assms(1,2), of c d "W_stream (Some a)"] assms(3) by (auto split: if_splits)
  then show ?thesis by (simp add: streams_ok_def)
qed

lemma refs_remove:
  "m \<in> set rs \<Longrightarrow> refs W (remove1 m rs) m' + (if m' = m then 1 else 0) = refs W rs m'"
  using count_pos [of m rs] by (auto simp: refs_def count_list_remove1)

lemma refs_Cons: "refs W (m # rs) = (refs W rs)(m := refs W rs m + 1)"
  by (auto simp: refs_def)

lemma refs_le:
  "wrappers_ok vs W \<Longrightarrow> refs W rs m \<le> length vs + length rs"
  unfolding refs_def by (intro add_mono holders_bound count_le_length)

lemma raws_pos: "m \<in> set rs \<Longrightarrow> 0 < refs W rs m"
  by (simp add: refs_def count_pos)

lemma sp_okD:
  assumes "sp_ok s"
  shows "length (vars s) + length (raws s) < 2 ^ 32" "wrappers_ok (vars s) (wrappers s)"
    "mem_ok (mem s) (refs (wrappers s) (raws s))" "streams_ok (wrappers s) (bufs s) (streams s)"
  using assms by (auto simp: sp_ok_def)

lemma sp_assign_ok:
  assumes "sp_ok s" "i < length (vars s)" "j < length (vars s)"
  shows "\<exists>s'. sp_assign i j s = Inr s' \<and> sp_ok s'"
proof -
  obtain s1 where s1: "sp_drop i s = Inr s1" "sp_ok s1" "vars s1 = (vars s)[i := None]"
    using sp_drop_ok [OF assms(1,2)] by blast
  show ?thesis
  proof (cases "vars s1 ! j")
    case (Some w)
    have i: "i < length (vars s1)" "vars s1 ! i = None" and j: "j < length (vars s1)"
      using s1(3) assms by auto
    note ok = sp_okD [OF s1(2)]
    obtain c d where w: "wrappers s1 w = Some (c, d)" "unat c = wref s1 w"
      using wrappers_okD [OF ok(2) j Some] by blast
    have n: "count_list ((vars s1)[i := Some w]) (Some w) = wref s1 w + 1"
      using i by (simp add: count_update_set)
    moreover have "count_list ((vars s1)[i := Some w]) (Some w) \<le> length (vars s1)"
      by (metis count_le_length length_list_update)
    ultimately have "unat (c + 1) = wref s1 w + 1" using w(2) ok(1) by (simp add: unat_word_ariths)
    then have "wrappers_ok ((vars s1)[i := Some w]) ((wrappers s1)(w \<mapsto> (c + 1, d)))"
      using n i by (intro wrappers_ok_upd [OF ok(2)]) (auto simp: count_update_ne)
    then show ?thesis
      using s1(1) Some w ok refs_count [of "wrappers s1", OF w(1)] streams_count [of "wrappers s1", OF w(1)]
      by (auto simp: sp_assign_def inc_ref_def sp_ok_def)
  qed (use s1 in \<open>auto simp: sp_assign_def\<close>)
qed

lemma sp_move_ok:
  assumes "sp_ok s" "i < length (vars s)" "j < length (vars s)"
  shows "\<exists>s'. sp_move i j s = Inr s' \<and> sp_ok s'"
proof -
  obtain s1 where s1: "sp_drop i s = Inr s1" "sp_ok s1" "vars s1 = (vars s)[i := None]"
    using sp_drop_ok [OF assms(1,2)] by blast
  have i: "i < length (vars s1)" "vars s1 ! i = None" and j: "j < length (vars s1)"
    using s1(3) assms by auto
  have "count_list ((vars s1)[j := None, i := vars s1 ! j]) (Some w) = wref s1 w" for w
    using i j count_list_update [of j "vars s1" None "Some w"]
      count_list_update [of i "(vars s1)[j := None]" "vars s1 ! j" "Some w"]
    by (cases "i = j") (auto simp: nth_list_update split: if_splits)
  then show ?thesis using s1 sp_okD [OF s1(2)] by (auto simp: sp_move_def sp_ok_def wrappers_ok_def)
qed

lemma sp_raw_ok:
  assumes "sp_ok s" "i < length (vars s)" "wrappers s w = None" "m \<in> set (raws s)"
  shows "\<exists>s'. sp_raw i w m s = Inr s' \<and> sp_ok s'"
proof -
  obtain s1 where s1: "sp_drop i s = Inr s1" "sp_ok s1" "vars s1 = (vars s)[i := None]" "raws s1 = raws s"
    "wrappers s1 w = None"
    using sp_drop_ok [OF assms(1,2)] assms(3) by blast
  have i: "i < length (vars s1)" "vars s1 ! i = None" using s1(3) assms by auto
  note ok = sp_okD [OF s1(2)]
  let ?W = "(wrappers s1)(w \<mapsto> (1, W_msg (Some m)))"
  have "refs ?W (remove1 m (raws s1)) = refs (wrappers s1) (raws s1)"
  proof
    fix m'
    show "refs ?W (remove1 m (raws s1)) m' = refs (wrappers s1) (raws s1) m'"
      using refs_remove [of m "raws s1" "wrappers s1" m'] refs_new [OF ok(2) s1(5)] assms(4) s1(4)
      by (auto split: if_splits)
  qed
  moreover have "streams_ok ?W (bufs s1) (streams s1)"
    using ok(4) streams_new_other [OF ok(2) s1(5)] by simp
  moreover have "length (remove1 m (raws s1)) \<le> length (raws s1)" by (simp add: length_remove1)
  ultimately show ?thesis
    using s1(1) ok wrappers_ok_new [OF ok(2) i s1(5)] by (auto simp: sp_raw_def sp_ok_def)
qed

lemma sp_stream_ok:
  assumes "sp_ok s" "i < length (vars s)" "vars s ! i = None" "wrappers s w = None" "a \<in> set (bufs s)"
  shows "\<exists>s'. sp_stream i w a s = Inr s' \<and> sp_ok s'"
proof -
  note ok = sp_okD [OF assms(1)]
  let ?W = "(wrappers s)(w \<mapsto> (1, W_stream (Some a)))"
  have "refs ?W (raws s) = refs (wrappers s) (raws s)"
    using refs_new [OF ok(2) assms(4)] by (auto simp: fun_eq_iff)
  moreover have "card (holders ?W (W_stream (Some b))) + count_list (remove1 a (bufs s)) b =
      card (holders (wrappers s) (W_stream (Some b))) + count_list (bufs s) b" for b
    using holders_new [OF ok(2) assms(4)] count_pos [OF assms(5)] by (simp add: count_list_remove1)
  then have "streams_ok ?W (remove1 a (bufs s)) (streams s)"
    using ok(4) by (simp add: streams_ok_def)
  ultimately show ?thesis
    using ok wrappers_ok_new [OF ok(2) assms(2,3,4)] by (auto simp: sp_stream_def sp_ok_def)
qed

lemma sp_clone_ok:
  assumes "sp_ok s" "sp_pre (Clone i j w) s"
  shows "\<exists>s'. sp_clone i j w s = Inr s' \<and> sp_ok s'"
proof -
  note ok = sp_okD [OF assms(1)]
  from assms(2) have pre: "i < length (vars s)" "vars s ! i = None" "wrappers s w = None" by auto
  from assms(2) obtain v where v: "j < length (vars s)" "vars s ! j = Some v" by (auto split: option.splits)
  obtain c d where d: "wrappers s v = Some (c, d)" using wrappers_okD [OF ok(2) v] by blast
  let ?W = "(wrappers s)(w \<mapsto> (1, d))"
  have "\<forall>a. d \<noteq> W_stream (Some a)" using assms(2) v d by auto
  then have st: "streams_ok ?W (bufs s) (streams s)"
    using ok(4) streams_new_other [OF ok(2) pre(3)] by simp
  note new = wrappers_ok_new [OF ok(2) pre]
  have "\<exists>h. (case d of W_msg (Some m) \<Rightarrow> mola_refcnt_get m (mem s) | _ \<Rightarrow> Inr (mem s)) = Inr h \<and>
     mem_ok h (refs ?W (raws s))"
  proof (cases "\<exists>m. d = W_msg (Some m)")
    case True
    then obtain m where m: "d = W_msg (Some m)" by blast
    have "refs ?W (raws s) = (refs (wrappers s) (raws s))(m := refs (wrappers s) (raws s) m + 1)"
      using refs_new [OF ok(2) pre(3)] m by (auto simp: fun_eq_iff)
    moreover have "refs ?W (raws s) m \<le> length (vars s) + length (raws s)"
      using refs_le [OF new, of d "raws s" m] by simp
    moreover have "0 < refs (wrappers s) (raws s) m" using refs_pos [OF ok(2)] d m by simp
    ultimately show ?thesis using mem_ok_get [OF ok(3), of m] ok(1) m by auto
  next
    case False
    then have "refs ?W (raws s) = refs (wrappers s) (raws s)"
      using refs_new [OF ok(2) pre(3)] by (auto simp: fun_eq_iff)
    then show ?thesis using False ok(3) by (auto split: wdata.splits option.splits)
  qed
  then show ?thesis using v d ok new st by (auto simp: sp_clone_def sp_ok_def)
qed

lemma sp_pass_ok:
  assumes "sp_ok s" "sp_pre (Pass i) s"
  shows "\<exists>s'. sp_pass i s = Inr s' \<and> sp_ok s'"
proof -
  note ok = sp_okD [OF assms(1)]
  from assms(2) obtain w where w: "i < length (vars s)" "vars s ! i = Some w" by auto
  obtain c d where d: "wrappers s w = Some (c, d)" using wrappers_okD [OF ok(2) w] by blast
  show ?thesis
  proof (cases "\<exists>m. d = W_msg (Some m)")
    case True
    then obtain m where m: "d = W_msg (Some m)" by blast
    let ?W = "(wrappers s)(w \<mapsto> (c, W_msg None))" and ?D = "(wrappers s)(w := None)"
    have "refs ?W = refs ?D" by (auto simp: refs_def fun_eq_iff holders_upd holders_del)
    moreover have "0 < refs (wrappers s) (raws s) m" using refs_pos [OF ok(2)] d m by simp
    ultimately have "refs ?W (m # raws s) = refs (wrappers s) (raws s)"
      using refs_del_msg [OF holders_bound(1) [OF ok(2)]] d m by (auto simp: refs_Cons)
    moreover have "streams_ok ?W = streams_ok ?D" by (auto simp: streams_ok_def fun_eq_iff holders_upd holders_del)
    then have "streams_ok ?W (bufs s) (streams s)"
      using ok(4) streams_del_other [of "wrappers s", OF d] m by simp
    moreover have "wrappers_ok (vars s) ?W"
      using ok(2) d by (auto simp: wrappers_ok_def)
    ultimately show ?thesis using w d m ok assms(2) by (auto simp: sp_pass_def sp_ok_def)
  next
    case False
    then show ?thesis using w d assms(1) by (auto simp: sp_pass_def split: wdata.splits option.splits)
  qed
qed

lemma sp_exec_ok:
  assumes ok: "sp_ok s" and pre: "sp_pre p s"
  shows "\<exists>s'. sp_exec p s = Inr s' \<and> sp_ok s'"
proof (cases p)
  case (Drop i)
  then show ?thesis using sp_drop_ok [OF ok] pre by fastforce
next
  case (Alloc m d u)
  then show ?thesis using pre sp_okD [OF ok] mem_ok_alloc by (auto simp: sp_ok_def refs_Cons)
next
  case (Get m)
  have "0 < refs (wrappers s) (raws s) m" "refs (wrappers s) (raws s) m + 1 < 2 ^ 32"
    using pre Get raws_pos refs_le [OF sp_okD(2) [OF ok], of "raws s" m] by auto
  from mem_ok_get [OF sp_okD(3) [OF ok] this] show ?thesis
    using Get pre sp_okD [OF ok] by (auto simp: sp_ok_def refs_Cons)
next
  case (Put m)
  have "0 < refs (wrappers s) (raws s) m" using pre Put raws_pos by auto
  from mem_ok_deallocate [OF sp_okD(3) [OF ok] this] obtain h where h: "deallocate m (mem s) = Inr h"
    "mem_ok h ((refs (wrappers s) (raws s))(m := refs (wrappers s) (raws s) m - 1))" by blast
  moreover have "refs (wrappers s) (remove1 m (raws s)) =
      (refs (wrappers s) (raws s))(m := refs (wrappers s) (raws s) m - 1)"
  proof
    fix m'
    show "refs (wrappers s) (remove1 m (raws s)) m' =
        ((refs (wrappers s) (raws s))(m := refs (wrappers s) (raws s) m - 1)) m'"
      using refs_remove [of m "raws s" "wrappers s" m'] pre Put by (auto split: if_splits)
  qed
  moreover have "length (remove1 m (raws s)) \<le> length (raws s)" by (simp add: length_remove1)
  ultimately show ?thesis using Put sp_okD [OF ok] by (auto simp: sp_ok_def)
next
  case (Buf a)
  have "card (holders (wrappers s) (W_stream (Some a))) + count_list (bufs s) a = 0"
    using pre Buf sp_okD(4) [OF ok] by (simp add: streams_ok_def)
  then show ?thesis using Buf sp_okD [OF ok]
    by (auto simp: sp_ok_def streams_ok_def simp del: add_is_0 add_eq_0_iff_both_eq_0)
qed (use assms sp_assign_ok sp_move_ok sp_raw_ok sp_stream_ok sp_clone_ok [OF ok]
    sp_pass_ok [OF ok] in \<open>auto simp del: sp_pre.simps(6,7)\<close>)

lemma sp_run_ok: "sp_ok s \<Longrightarrow> sp_runs ps s \<Longrightarrow> \<exists>s'. sp_run ps s = Inr s' \<and> sp_ok s'"
proof (induction ps arbitrary: s)
  case (Cons p ps)
  then obtain s1 where "sp_exec p s = Inr s1" "sp_ok s1" using sp_exec_ok by fastforce
  with Cons show ?case by auto
qed simp

lemma sp_init_ok: "n < 2 ^ 32 \<Longrightarrow> sp_ok (sp_init n)"
  by (simp add: sp_ok_def sp_init_def wrappers_ok_def mem_ok_def refs_def holders_def streams_ok_def
    count_list_0_iff)

section \<open>Properties\<close>


lemmas sp_eval = sp_init_def sp_drop_def dec_ref_def sp_assign_def inc_ref_def sp_move_def sp_raw_def
  sp_stream_def sp_clone_def sp_pass_def mola_refcnt_get_def mola_alloc_message_def
  deallocate_eq give_up_def

definition sp_demo :: "nat sp_op list" where
  "sp_demo =
     [Alloc 5 True 7, Get 5, Raw 0 1 5, Assign 1 0, Clone 2 0 8, Move 0 1, Buf 3, Stream 1 9 3, Drop 1,
      Put 5, Pass 2, Drop 0, Put 5, Drop 2]"



definition cow_demo :: "nat mem" where
  "cow_demo = \<lparr>objs = [4 \<mapsto> \<lparr>count = 2, handler = True, dtor = False, content = 9\<rparr>], dtor_calls = []\<rparr>"


text \<open>
  The copy constructor of \<open>MessageWrapper\<close> copies the pointer to a stream buffer without
  counting it: when both the original and the copy go, the buffer is freed twice.
\<close>

theorem clone_stream_double_free:
  "sp_run [Buf a, Stream 0 w a, Clone 1 0 v, Drop 0, Drop 1] (sp_init 2) = Inl Use_after_free"
  if "v \<noteq> w"
  using that
  by (simp add: sp_init_def sp_stream_def sp_clone_def sp_drop_def dec_ref_def numeral_2_eq_2 fun_upd_def)

theorem clone_stream_double_free_witness:
  "sp_run [Buf 3, Stream 0 1 3, Clone 1 0 2, Drop 0, Drop 1] (sp_init 2) = Inl Use_after_free"
  by (rule clone_stream_double_free) simp

text \<open>Assigning a safe pointer to itself drops the reference and leaves it null.\<close>

lemma self_assignment_drops:
  assumes "sp_ok s" "i < length (vars s)"
  shows "\<exists>s'. sp_assign i i s = Inr s' \<and> sp_drop i s = Inr s' \<and> vars s' ! i = None"
  using sp_drop_ok [OF assms] assms(2) by (auto simp: sp_assign_def)

end
