(* ===== verification/Actor.thy ===== *)
theory Actor
  imports Mailbox Message
begin

text \<open>
  Actors (\<open>include/mola/actor.hpp\<close>): request identifiers, saved request contexts, delivery of a
  message to the mailbox, and the execution of an actor by a worker.  The mailbox is used through
  the specification of its operations proved in \<^theory_text>\<open>Mailbox\<close> (\<open>abs_dequeue\<close>): a stack of the messages
  sent, newest first, the private queues by priority, and the mark of the stack when it is empty.
\<close>

section \<open>State\<close>

datatype box_mark = Box_open | Box_blocked | Box_closed

record 'u abox =
  bx_stack :: "'u wrapper list"
  bx_queues :: "'u wrapper list list"
  bx_mark :: box_mark

text \<open>
  \<open>RequestContext\<close> and its subclass \<open>GatherGroup\<close> (with \<open>m_done\<close>, \<open>m_size\<close> and the messages gathered);
  the contexts of an actor are objects on the heap, and \<open>a_ctxs\<close> is the part of it that is alive.
\<close>

datatype 'u ctx_kind = Plain | Gather bool u32 "'u wrapper list"

record 'u req_ctx =
  c_reqid :: u32
  c_initiator :: "'u wrapper option"
  c_ctx :: "addr option"
  c_kind :: "'u ctx_kind"

datatype actor_state = ACTOR_STARTUP | ACTOR_RUNNING | ACTOR_SUSPEND

record 'u actor =
  a_id :: actor_id
  a_status :: actor_state
  a_box :: "'u abox"
  a_current_ctx :: "addr option"
  a_ctx_map :: "u32 \<rightharpoonup> addr"
  a_ctxs :: "addr \<rightharpoonup> 'u req_ctx"
  a_fresh :: addr
  a_recycle :: "u32 list"
  a_generator :: u32
  a_message :: "'u wrapper option"
  a_cache :: "u32 \<rightharpoonup> addr"

definition Actor_new :: "actor_id \<Rightarrow> 'u actor" where
  "Actor_new i =
     \<lparr>a_id = i, a_status = ACTOR_STARTUP,
      a_box = \<lparr>bx_stack = [], bx_queues = [[], []], bx_mark = Box_blocked\<rparr>,
      a_current_ctx = None, a_ctx_map = Map.empty, a_ctxs = Map.empty, a_fresh = 0, a_recycle = [],
      a_generator = 0, a_message = None, a_cache = Map.empty\<rparr>"

definition GetMsgPriority :: "'u wrapper \<Rightarrow> nat" where
  "GetMsgPriority w = (if is_response (w_meta w) \<or> is_gather (w_meta w) then 0 else 1)"

section \<open>The mailbox of an actor\<close>

definition box_enqueue :: "'u wrapper \<Rightarrow> 'u abox \<Rightarrow> enqueue_status \<times> 'u abox" where
  "box_enqueue w b =
     (case bx_mark b of
        Box_closed \<Rightarrow> (MAILBOX_FAILURE, b)
      | Box_blocked \<Rightarrow> (MAILBOX_UNBLOCKED, b\<lparr>bx_stack := w # bx_stack b, bx_mark := Box_open\<rparr>)
      | Box_open \<Rightarrow> (MAILBOX_SUCCESS, b\<lparr>bx_stack := w # bx_stack b\<rparr>))"

definition box_dequeue :: "'u abox \<Rightarrow> 'u wrapper option \<times> 'u abox" where
  "box_dequeue b =
     (case abs_dequeue GetMsgPriority (bx_stack b) (bx_queues b) of
        (r, st, qs) \<Rightarrow> (r, b\<lparr>bx_stack := st, bx_queues := qs\<rparr>))"

definition box_try_block :: "'u abox \<Rightarrow> bool \<times> 'u abox" where
  "box_try_block b =
     (if concat (bx_queues b) = [] \<and> bx_stack b = [] \<and> bx_mark b = Box_open
      then (True, b\<lparr>bx_mark := Box_blocked\<rparr>) else (False, b))"

definition pending :: "'u abox \<Rightarrow> 'u wrapper list" where
  "pending b = bx_stack b @ concat (bx_queues b)"

text \<open>
  \<open>deliver_message\<close>: whether the actor must be handed to the scheduler; it returns true.  When the
  mailbox refuses the message, the trace macro for fatal errors ends the process.
\<close>

definition deliver_message :: "'u wrapper \<Rightarrow> 'u actor \<Rightarrow> (bool \<times> 'u actor) res" where
  "deliver_message w a =
     (case box_enqueue w (a_box a) of
        (r, b) \<Rightarrow>
          if r = MAILBOX_FAILURE then Inl Assert_failed
          else Inr (r = MAILBOX_UNBLOCKED, a\<lparr>a_box := b\<rparr>))"

definition get_message :: "'u actor \<Rightarrow> 'u actor" where
  "get_message a =
     (case box_dequeue (a_box a) of
        (None, b) \<Rightarrow> a\<lparr>a_box := b\<rparr>
      | (Some w, b) \<Rightarrow> a\<lparr>a_box := b, a_message := Some w\<rparr>)"

section \<open>Request identifiers and contexts\<close>

definition new_reqid :: "'u actor \<Rightarrow> u32 \<times> 'u actor" where
  "new_reqid a =
     (if a_recycle a \<noteq> [] then (last (a_recycle a), a\<lparr>a_recycle := butlast (a_recycle a)\<rparr>)
      else (a_generator a + 1, a\<lparr>a_generator := a_generator a + 1\<rparr>))"

definition release_reqid :: "u32 \<Rightarrow> 'u actor \<Rightarrow> 'u actor" where
  "release_reqid r a = a\<lparr>a_recycle := a_recycle a @ [r]\<rparr>"

definition find_req_ctx :: "u32 \<Rightarrow> 'u actor \<Rightarrow> addr option" where
  "find_req_ctx r a = a_ctx_map a r"

text \<open>A context as a new object of the heap.\<close>

definition new_ctx :: "'u req_ctx \<Rightarrow> 'u actor \<Rightarrow> addr \<times> 'u actor" where
  "new_ctx c a = (a_fresh a, a\<lparr>a_ctxs := (a_ctxs a)(a_fresh a \<mapsto> c), a_fresh := a_fresh a + 1\<rparr>)"

definition insert_req_ctx :: "addr \<Rightarrow> 'u actor \<Rightarrow> 'u actor res" where
  "insert_req_ctx p a =
     (case a_ctxs a p of
        None \<Rightarrow> Inl Use_after_free
      | Some c \<Rightarrow>
          if find_req_ctx (c_reqid c) a = None
          then Inr (a\<lparr>a_ctx_map := (a_ctx_map a)(c_reqid c \<mapsto> p)\<rparr>) else Inl Assert_failed)"

fun ctx_done :: "'u ctx_kind \<Rightarrow> bool" where
  "ctx_done Plain = True"
| "ctx_done (Gather d n ms) = d"

definition delete_req_ctx :: "addr \<Rightarrow> 'u actor \<Rightarrow> 'u actor res" where
  "delete_req_ctx p a =
     (case a_ctxs a p of
        None \<Rightarrow> Inl Use_after_free
      | Some c \<Rightarrow>
          if \<not> ctx_done (c_kind c) then Inr a
          else Inr ((release_reqid (c_reqid c) a)
                 \<lparr>a_ctx_map := (a_ctx_map a)(c_reqid c := None), a_ctxs := (a_ctxs a)(p := None)\<rparr>))"

definition delete_req_ctx_id :: "u32 \<Rightarrow> 'u actor \<Rightarrow> 'u actor res" where
  "delete_req_ctx_id r a = (case find_req_ctx r a of None \<Rightarrow> Inr a | Some p \<Rightarrow> delete_req_ctx p a)"

text \<open>The message that a new context is to answer: the initiator of the current one, if there is one.\<close>

definition ctx_initiator :: "'u actor \<Rightarrow> 'u wrapper option res" where
  "ctx_initiator a =
     (case a_current_ctx a of
        None \<Rightarrow> Inr (a_message a)
      | Some p \<Rightarrow> (case a_ctxs a p of None \<Rightarrow> Inl Use_after_free | Some c \<Rightarrow> Inr (c_initiator c)))"

definition add_ctx :: "u32 \<Rightarrow> addr option \<Rightarrow> 'u ctx_kind \<Rightarrow> 'u actor \<Rightarrow> (addr \<times> 'u actor) res" where
  "add_ctx r x k a =
     bind_res (ctx_initiator a) (\<lambda>i.
       Inr (new_ctx \<lparr>c_reqid = r, c_initiator = i, c_ctx = x, c_kind = k\<rparr> a))"

definition on_scatter_done :: "u32 \<Rightarrow> nat \<Rightarrow> addr option \<Rightarrow> 'u actor \<Rightarrow> 'u actor res" where
  "on_scatter_done r n x a =
     bind_res (add_ctx r x (Gather False (of_nat n) []) a) (\<lambda>(p, a'). insert_req_ctx p a')"

definition on_async_send_done :: "'u wrapper \<Rightarrow> addr option \<Rightarrow> 'u actor \<Rightarrow> 'u actor res" where
  "on_async_send_done w x a =
     bind_res (add_ctx (reqid (w_meta w)) x Plain a) (\<lambda>(p, a'). insert_req_ctx p a')"

definition save_return_state :: "addr option \<Rightarrow> 'u actor \<Rightarrow> (addr \<times> 'u actor) res" where
  "save_return_state x a = add_ctx 0 x Plain a"

definition set_current_ctx :: "addr option \<Rightarrow> 'u actor \<Rightarrow> 'u actor" where
  "set_current_ctx p a = a\<lparr>a_current_ctx := p\<rparr>"

definition get_current_reqid :: "'u actor \<Rightarrow> u32 res" where
  "get_current_reqid a =
     (case a_current_ctx a of
        None \<Rightarrow> Inr 0
      | Some p \<Rightarrow> (case a_ctxs a p of None \<Rightarrow> Inl Use_after_free | Some c \<Rightarrow> Inr (c_reqid c)))"

definition find_cached_actor :: "actor_id \<Rightarrow> 'u actor \<Rightarrow> addr option" where
  "find_cached_actor i a = a_cache a (hash_key i)"

text \<open>\<open>emplace\<close> leaves an existing entry alone.\<close>

definition cache_an_actor :: "actor_id \<Rightarrow> addr \<Rightarrow> 'u actor \<Rightarrow> 'u actor" where
  "cache_an_actor i p a =
     (if a_cache a (hash_key i) = None then a\<lparr>a_cache := (a_cache a)(hash_key i \<mapsto> p)\<rparr> else a)"

section \<open>Execution\<close>

text \<open>
  The handler stands for \<open>Module::invoke_message\<close>: it gets the message and the actor, and gives the
  actor back, with \<open>Inl\<close> when it threw.  The loop of \<open>execute\<close> takes the loop counter \<open>i\<close> and the
  module's threshold as the 32-bit numbers they are, and returns the messages it handled, whether
  an exception ended it, and the actor; \<open>None\<close> is a loop that needs more than \<open>fuel\<close> rounds.
\<close>

type_synonym 'u handler = "'u wrapper \<Rightarrow> 'u actor \<Rightarrow> ('u actor + 'u actor)"

definition is_reply :: "'u wrapper \<Rightarrow> bool" where
  "is_reply w \<longleftrightarrow> is_response (w_meta w) \<or> is_gather (w_meta w)"

definition enter_ctx :: "'u wrapper \<Rightarrow> 'u actor \<Rightarrow> 'u actor" where
  "enter_ctx w a =
     set_current_ctx (if is_reply w \<and> reqid (w_meta w) \<noteq> 0 then find_req_ctx (reqid (w_meta w)) a else None) a"

definition leave_ctx :: "'u actor \<Rightarrow> 'u actor res" where
  "leave_ctx a =
     (case a_current_ctx a of
        None \<Rightarrow> Inr (a\<lparr>a_message := None\<rparr>)
      | Some p \<Rightarrow> delete_req_ctx p (a\<lparr>a_message := None\<rparr>))"

fun exec_loop ::
  "nat \<Rightarrow> 'u handler \<Rightarrow> u32 \<Rightarrow> u32 \<Rightarrow> 'u actor \<Rightarrow> ('u wrapper list \<times> bool \<times> 'u actor) res option" where
  "exec_loop 0 h thr i a = None"
| "exec_loop (Suc fuel) h thr i a =
     (if i \<le> thr then
        let a1 = get_message a in
        (case a_message a1 of
           None \<Rightarrow> Some (Inr ([], False, a1))
         | Some w \<Rightarrow>
             let i' = (if is_reply w then i - 1 else i) in
             (case h w (enter_ctx w a1) of
                Inl a2 \<Rightarrow> Some (Inr ([w], True, a2))
              | Inr a2 \<Rightarrow>
                  (case leave_ctx a2 of
                     Inl e \<Rightarrow> Some (Inl e)
                   | Inr a3 \<Rightarrow>
                       map_option (\<lambda>r. bind_res r (\<lambda>(ws, x, a4). Inr (w # ws, x, a4)))
                         (exec_loop fuel h thr (i' + 1) a3))))
      else Some (Inr ([], False, a)))"

datatype exec_status = RESUMABLE | BLOCKED | EXIT

definition execute ::
  "nat \<Rightarrow> 'u handler \<Rightarrow> ('u actor \<Rightarrow> 'u actor) \<Rightarrow> u32 \<Rightarrow> 'u actor \<Rightarrow>
   ('u wrapper list \<times> exec_status \<times> 'u actor) res option" where
  "execute fuel h init thr a =
     (let a1 = (if a_status a = ACTOR_STARTUP then (init a)\<lparr>a_status := ACTOR_RUNNING\<rparr> else a) in
      map_option (\<lambda>r. bind_res r (\<lambda>(ws, thrown, a2).
          if thrown then Inr (ws, EXIT, a2\<lparr>a_box := (a_box a2)\<lparr>bx_mark := Box_closed\<rparr>\<rparr>)
          else if bx_mark (a_box a2) = Box_blocked then Inr (ws, BLOCKED, a2)
          else (case box_try_block (a_box a2) of
                  (True, b) \<Rightarrow> Inr (ws, BLOCKED, a2\<lparr>a_box := b\<rparr>)
                | (False, b) \<Rightarrow> Inr (ws, RESUMABLE, a2\<lparr>a_box := b\<rparr>))))
        (exec_loop fuel h thr 1 a1))"

section \<open>The mailbox, abstractly\<close>

definition box_ok :: "'u abox \<Rightarrow> bool" where
  "box_ok b \<longleftrightarrow> length (bx_queues b) = 2 \<and> (bx_mark b = Box_blocked \<longrightarrow> pending b = [])"

lemma prio_less [simp]: "GetMsgPriority w < 2"
  by (simp add: GetMsgPriority_def)

lemma mset_distribute:
  "\<forall>a\<in>set st. f a < length qs \<Longrightarrow> mset (concat (distribute f st qs)) = mset st + mset (concat qs)"
  by (induction st arbitrary: qs) (simp_all add: mset_concat_push del: mset_concat)

lemma mset_pop_queues:
  "pop_queues qs = Some (a, qs') \<Longrightarrow> mset (concat qs) = add_mset a (mset (concat qs')) \<and> length qs' = length qs"
  by (induction qs arbitrary: qs' rule: pop_queues.induct) auto

lemma box_dequeue_some:
  assumes "box_ok b" "pending b \<noteq> []"
  shows "\<exists>w b'. box_dequeue b = (Some w, b') \<and> box_ok b' \<and> bx_mark b' = bx_mark b \<and>
    mset (pending b) = add_mset w (mset (pending b'))"
proof -
  let ?d = "distribute GetMsgPriority (bx_stack b) (bx_queues b)"
  have len: "length (bx_queues b) = 2" and mk: "bx_mark b \<noteq> Box_blocked"
    using assms by (auto simp: box_ok_def)
  have d: "mset (concat ?d) = mset (pending b)"
    unfolding pending_def using len by (subst mset_distribute) simp_all
  show ?thesis
  proof (cases "pop_queues (bx_queues b)")
    case None
    then have "concat ?d \<noteq> []" using d assms(2) by (metis mset_zero_iff)
    then obtain w qs where w: "pop_queues ?d = Some (w, qs)"
      using pop_queues_None [of ?d] by (cases "pop_queues ?d") auto
    show ?thesis
      using mset_pop_queues [OF w] None w len d mk
      by (auto simp: box_dequeue_def abs_dequeue_def box_ok_def pending_def simp del: mset_concat)
  next
    case (Some r)
    then obtain w qs where w: "pop_queues (bx_queues b) = Some (w, qs)" by (cases r) auto
    show ?thesis
      using mset_pop_queues [OF w] w len mk
      by (auto simp: box_dequeue_def abs_dequeue_def box_ok_def pending_def simp del: mset_concat)
  qed
qed

lemma box_dequeue_empty: "pending b = [] \<Longrightarrow> box_dequeue b = (None, b)"
  by (auto simp: box_dequeue_def abs_dequeue_def pending_def pop_queues_None [symmetric]
    simp del: concat_eq_Nil_conv)

section \<open>Request identifiers\<close>

text \<open>
  The identifiers waiting for reuse and those of saved contexts are disjoint, nonzero and were
  issued; every saved context is alive, under its own identifier, and no later allocation hits it.
\<close>

definition ids_ok :: "'u actor \<Rightarrow> bool" where
  "ids_ok a \<longleftrightarrow>
     distinct (a_recycle a) \<and>
     0 \<notin> set (a_recycle a) \<and> a_ctx_map a 0 = None \<and>
     (\<forall>r\<in>set (a_recycle a). r \<le> a_generator a \<and> a_ctx_map a r = None) \<and>
     (\<forall>r. a_generator a < r \<longrightarrow> a_ctx_map a r = None)"

definition ctxs_ok :: "'u actor \<Rightarrow> bool" where
  "ctxs_ok a \<longleftrightarrow>
     (\<forall>r p. a_ctx_map a r = Some p \<longrightarrow> (\<exists>c. a_ctxs a p = Some c \<and> c_reqid c = r)) \<and>
     (\<forall>p. a_ctxs a p \<noteq> None \<longrightarrow> p < a_fresh a) \<and>
     (\<forall>p c. a_ctxs a p = Some c \<longrightarrow> c_reqid c \<noteq> 0 \<longrightarrow> a_ctx_map a (c_reqid c) = Some p)"

definition actor_ok :: "'u actor \<Rightarrow> bool" where
  "actor_ok a \<longleftrightarrow> ids_ok a \<and> ctxs_ok a"

definition ctx_live :: "'u actor \<Rightarrow> bool" where
  "ctx_live a \<longleftrightarrow> (\<forall>p. a_current_ctx a = Some p \<longrightarrow> (\<exists>r. a_ctx_map a r = Some p))"

lemma Actor_new_ok: "actor_ok (Actor_new i)" "box_ok (a_box (Actor_new i))"
  by (auto simp: Actor_new_def actor_ok_def ids_ok_def ctxs_ok_def box_ok_def pending_def)

lemma unat_succ: "x \<noteq> -1 \<Longrightarrow> unat (x + (1 :: 'a::len word)) = unat x + 1"
proof -
  assume "x \<noteq> -1"
  then have "1 + x \<noteq> 0" by (metis add.commute add_eq_0_iff2 minus_minus)
  then show ?thesis using unatSuc [of x] by (simp add: add.commute)
qed

lemma word_less_succ: "x \<noteq> -1 \<Longrightarrow> x < x + (1 :: 'a::len word)"
  by (simp add: word_less_nat_alt unat_succ)

text \<open>A new identifier is not that of a saved context, and will not be handed out again.\<close>

lemma new_reqid_fresh:
  assumes "actor_ok a" "a_generator a \<noteq> -1" "new_reqid a = (r, a')"
  shows "r \<noteq> 0 \<and> a_ctx_map a r = None \<and> r \<notin> set (a_recycle a') \<and> r \<le> a_generator a' \<and> actor_ok a' \<and>
    a_ctx_map a' = a_ctx_map a \<and> a_ctxs a' = a_ctxs a \<and> a_fresh a' = a_fresh a \<and>
    a_current_ctx a' = a_current_ctx a"
proof (cases "a_recycle a = []")
  case True
  have g: "a_generator a < a_generator a + 1" using assms(2) by (rule word_less_succ)
  then have "a_generator a + 1 \<noteq> 0" by auto
  moreover have "\<And>r. a_generator a + 1 < r \<Longrightarrow> a_generator a < r" using g by (rule less_trans)
  ultimately show ?thesis
    using assms(1,3) True g by (auto simp: new_reqid_def actor_ok_def ids_ok_def ctxs_ok_def)
next
  case False
  then have rec: "a_recycle a = butlast (a_recycle a) @ [last (a_recycle a)]" by simp
  have "distinct (butlast (a_recycle a) @ [last (a_recycle a)])"
    using assms(1) rec by (simp add: actor_ok_def ids_ok_def)
  then have "last (a_recycle a) \<notin> set (butlast (a_recycle a))" "distinct (butlast (a_recycle a))" by auto
  moreover have "\<And>x. x \<in> set (butlast (a_recycle a)) \<Longrightarrow> x \<in> set (a_recycle a)" by (rule in_set_butlastD)
  ultimately show ?thesis
    using assms(1,3) False last_in_set [OF False]
    by (auto simp: new_reqid_def actor_ok_def ids_ok_def ctxs_ok_def)
qed

text \<open>Saving a context under a new identifier never violates the assertion of \<open>insert_req_ctx\<close>.\<close>

lemma add_insert_ctx:
  assumes "actor_ok a" "ctx_live a" "r \<noteq> 0" "a_ctx_map a r = None" "r \<notin> set (a_recycle a)" "r \<le> a_generator a"
  shows "\<exists>a' p c. bind_res (add_ctx r x k a) (\<lambda>(p, a'). insert_req_ctx p a') = Inr a' \<and> actor_ok a' \<and>
    find_req_ctx r a' = Some p \<and> a_ctxs a' p = Some c \<and> c_reqid c = r \<and> c_kind c = k \<and> c_ctx c = x \<and>
    Inr (c_initiator c) = ctx_initiator a \<and> a_box a' = a_box a \<and> ctx_live a'"
proof -
  obtain i where i: "ctx_initiator a = Inr i"
    using assms(1,2) by (fastforce simp: ctx_initiator_def ctx_live_def actor_ok_def ctxs_ok_def split: option.splits)
  have fr: "a_ctxs a (a_fresh a) = None" using assms(1) by (auto simp: actor_ok_def ctxs_ok_def)
  have nm: "\<And>r. a_ctx_map a r \<noteq> Some (a_fresh a)" using assms(1) fr by (fastforce simp: actor_ok_def ctxs_ok_def)
  let ?c = "\<lparr>c_reqid = r, c_initiator = i, c_ctx = x, c_kind = k\<rparr>"
  let ?a = "a\<lparr>a_ctxs := (a_ctxs a)(a_fresh a \<mapsto> ?c), a_fresh := a_fresh a + 1, a_ctx_map := (a_ctx_map a)(r \<mapsto> a_fresh a)\<rparr>"
  have "bind_res (add_ctx r x k a) (\<lambda>(p, a'). insert_req_ctx p a') = Inr ?a"
    using i assms(4) by (simp add: add_ctx_def new_ctx_def insert_req_ctx_def find_req_ctx_def)
  moreover have "ids_ok ?a" using assms by (auto simp: actor_ok_def ids_ok_def)
  moreover have "ctxs_ok ?a"
    using assms(1,4) fr nm by (fastforce simp: actor_ok_def ctxs_ok_def less_Suc_eq)
  moreover have "ctx_live ?a"
    using assms(2,4) unfolding ctx_live_def by simp (metis option.distinct(1))
  ultimately show ?thesis using i by (auto simp: actor_ok_def find_req_ctx_def)
qed

lemma delete_req_ctx_ok:
  assumes "actor_ok a" "a_ctx_map a r = Some p"
  shows "\<exists>a' c. delete_req_ctx p a = Inr a' \<and> actor_ok a' \<and> a_ctxs a p = Some c \<and> c_reqid c = r \<and>
    a_box a' = a_box a \<and> a_message a' = a_message a \<and>
    (if ctx_done (c_kind c) then find_req_ctx r a' = None \<and> last (a_recycle a') = r \<and> a_recycle a' \<noteq> [] else a' = a)"
proof -
  obtain c where c: "a_ctxs a p = Some c" "c_reqid c = r"
    using assms by (auto simp: actor_ok_def ctxs_ok_def)
  show ?thesis
  proof (cases "ctx_done (c_kind c)")
    case True
    let ?a = "(release_reqid r a)\<lparr>a_ctx_map := (a_ctx_map a)(r := None), a_ctxs := (a_ctxs a)(p := None)\<rparr>"
    have r: "r \<noteq> 0" "r \<le> a_generator a" "r \<notin> set (a_recycle a)"
      using assms by (auto simp: actor_ok_def ids_ok_def not_less [symmetric])
    then have "ids_ok ?a" using assms(1) by (auto simp: actor_ok_def ids_ok_def release_reqid_def)
    moreover have "ctxs_ok ?a" using assms c by (fastforce simp: actor_ok_def ctxs_ok_def release_reqid_def)
    ultimately show ?thesis using c True
      by (simp add: delete_req_ctx_def actor_ok_def find_req_ctx_def release_reqid_def)
  next
    case False
    then show ?thesis using c assms by (simp add: delete_req_ctx_def)
  qed
qed

section \<open>Execution returns\<close>

text \<open>
  A handler that does not send to its own actor, keeps the bookkeeping of contexts intact, and
  does not end the context it runs in.
\<close>

definition good_handler :: "'u handler \<Rightarrow> bool" where
  "good_handler h \<longleftrightarrow>
     (\<forall>w a. actor_ok a \<longrightarrow> ctx_live a \<longrightarrow>
        (case h w a of
           Inl a' \<Rightarrow> a_box a' = a_box a
         | Inr a' \<Rightarrow> a_box a' = a_box a \<and> actor_ok a' \<and> ctx_live a'))"

lemma good_handlerD:
  assumes "good_handler h" "actor_ok a" "ctx_live a"
  shows "h w a = Inl a' \<Longrightarrow> a_box a' = a_box a"
    and "h w a = Inr a' \<Longrightarrow> a_box a' = a_box a \<and> actor_ok a' \<and> ctx_live a'"
proof -
  have "case h w a of Inl a' \<Rightarrow> a_box a' = a_box a
      | Inr a' \<Rightarrow> a_box a' = a_box a \<and> actor_ok a' \<and> ctx_live a'"
    using assms unfolding good_handler_def by blast
  then show "h w a = Inl a' \<Longrightarrow> a_box a' = a_box a"
    and "h w a = Inr a' \<Longrightarrow> a_box a' = a_box a \<and> actor_ok a' \<and> ctx_live a'" by simp_all
qed

lemma actor_ok_frame [simp]:
  "actor_ok (a\<lparr>a_box := b\<rparr>) = actor_ok a" "actor_ok (a\<lparr>a_message := w\<rparr>) = actor_ok a"
  "actor_ok (a\<lparr>a_current_ctx := p\<rparr>) = actor_ok a" "actor_ok (a\<lparr>a_status := st\<rparr>) = actor_ok a"
  by (simp_all add: actor_ok_def ids_ok_def ctxs_ok_def)

lemma enter_ctx_ok:
  "actor_ok a \<Longrightarrow> actor_ok (enter_ctx w a) \<and> ctx_live (enter_ctx w a) \<and> a_box (enter_ctx w a) = a_box a"
  by (auto simp: enter_ctx_def set_current_ctx_def ctx_live_def find_req_ctx_def)

lemma leave_ctx_ok:
  assumes "actor_ok a" "ctx_live a"
  shows "\<exists>a'. leave_ctx a = Inr a' \<and> actor_ok a' \<and> a_box a' = a_box a \<and> a_message a' = None"
proof (cases "a_current_ctx a")
  case None
  then show ?thesis using assms(1) by (simp add: leave_ctx_def)
next
  case (Some p)
  let ?a = "a\<lparr>a_message := None\<rparr>"
  obtain r where "a_ctx_map ?a r = Some p" using assms(2) Some by (auto simp: ctx_live_def)
  from delete_req_ctx_ok [OF _ this] assms(1) obtain a' where
    "delete_req_ctx p ?a = Inr a'" "actor_ok a'" "a_box a' = a_box a" "a_message a' = None" by auto
  then show ?thesis using Some by (simp add: leave_ctx_def)
qed

text \<open>The requests among the messages, which are what the threshold counts.\<close>

definition requests :: "'u wrapper list \<Rightarrow> nat" where
  "requests ws = length (filter (\<lambda>w. \<not> is_reply w) ws)"

lemma exec_loop_returns:
  assumes "good_handler h" "thr \<noteq> -1"
  shows "\<lbrakk>actor_ok a; box_ok (a_box a); a_message a = None; length (pending (a_box a)) < fuel;
    1 \<le> i; unat i \<le> unat thr + 1\<rbrakk> \<Longrightarrow>
   \<exists>ws x a'. exec_loop fuel h thr i a = Some (Inr (ws, x, a')) \<and> box_ok (a_box a') \<and>
     mset (pending (a_box a)) = mset ws + mset (pending (a_box a')) \<and>
     requests ws \<le> unat thr + 1 - unat i \<and>
     (x \<or> pending (a_box a') = [] \<or> requests ws = unat thr + 1 - unat i) \<and>
     bx_mark (a_box a') = bx_mark (a_box a)"
proof (induction fuel arbitrary: i a)
  case (Suc fuel)
  show ?case
  proof (cases "i \<le> thr")
    case False
    then have "unat thr + 1 = unat i" using Suc.prems(6) by (simp add: word_le_nat_alt)
    then show ?thesis using False Suc.prems by (auto simp: requests_def)
  next
    case i: True
    show ?thesis
    proof (cases "pending (a_box a) = []")
      case True
      then show ?thesis using i Suc.prems by (auto simp: get_message_def box_dequeue_empty requests_def)
    next
      case False
      obtain w b where w: "box_dequeue (a_box a) = (Some w, b)" "box_ok b" "bx_mark b = bx_mark (a_box a)"
        "mset (pending (a_box a)) = add_mset w (mset (pending b))"
        using box_dequeue_some [OF Suc.prems(2) False] by blast
      let ?a1 = "a\<lparr>a_box := b, a_message := Some w\<rparr>"
      have a1: "get_message a = ?a1" using w by (simp add: get_message_def)
      have ok: "actor_ok (enter_ctx w ?a1)" "ctx_live (enter_ctx w ?a1)" "a_box (enter_ctx w ?a1) = b"
        using enter_ctx_ok [of ?a1 w] Suc.prems(1) by auto
      show ?thesis
      proof (cases "h w (enter_ctx w ?a1)")
        case (Inl a2)
        then have "a_box a2 = b" using good_handlerD(1) [OF assms(1) ok(1,2)] ok(3) by simp
        moreover have "requests [w] \<le> unat thr + 1 - unat i"
          using i by (auto simp: requests_def word_le_nat_alt)
        ultimately show ?thesis using Inl i a1 w by (auto simp: Let_def)
      next
        case (Inr a2)
        then have a2: "a_box a2 = b" "actor_ok a2" "ctx_live a2"
          using good_handlerD(2) [OF assms(1) ok(1,2)] ok(3) by simp_all
        obtain a3 where a3: "leave_ctx a2 = Inr a3" "actor_ok a3" "a_box a3 = b" "a_message a3 = None"
          using leave_ctx_ok [OF a2(2,3)] a2(1) by auto
        let ?i = "(if is_reply w then i - 1 else i) + 1"
        have ui: "unat ?i = (if is_reply w then unat i else unat i + 1)"
          using unat_succ [of i] i assms(2) word_order.extremum_uniqueI by auto
        have "length (pending b) < fuel"
          using Suc.prems(4) w(4) by (metis Suc_less_eq less_Suc_eq_le not_less_eq size_add_mset size_mset)
        moreover have "1 \<le> ?i" "unat ?i \<le> unat thr + 1"
          using ui i Suc.prems(5) by (auto simp: word_le_nat_alt)
        ultimately obtain ws x a' where IH: "exec_loop fuel h thr ?i a3 = Some (Inr (ws, x, a'))"
          "box_ok (a_box a')" "mset (pending b) = mset ws + mset (pending (a_box a'))"
          "requests ws \<le> unat thr + 1 - unat ?i"
          "x \<or> pending (a_box a') = [] \<or> requests ws = unat thr + 1 - unat ?i" "bx_mark (a_box a') = bx_mark b"
          using Suc.IH [of a3 ?i] a3 w(2) by auto
        have "requests (w # ws) = (if is_reply w then requests ws else requests ws + 1)"
          by (simp add: requests_def)
        then have "requests (w # ws) \<le> unat thr + 1 - unat i"
          "x \<or> pending (a_box a') = [] \<or> requests (w # ws) = unat thr + 1 - unat i"
          using IH(4,5) ui i by (auto simp: word_le_nat_alt split: if_splits)
        then show ?thesis using Inr i a1 a3 IH(1,2,3,6) w(3,4) by (auto simp: Let_def)
      qed
    qed
  qed
qed simp

section \<open>The mailbox of an actor is the mailbox\<close>

fun mark_of :: "slot \<Rightarrow> box_mark" where
  "mark_of Dummy_blocked = Box_blocked"
| "mark_of Dummy_closed = Box_closed"
| "mark_of Dummy_empty = Box_open"
| "mark_of (Item a) = Box_open"

definition box_of :: "'u wrapper mailbox \<Rightarrow> addr list \<Rightarrow> addr list list \<Rightarrow> 'u abox" where
  "box_of s st qs =
     \<lparr>bx_stack = map (vals s) st, bx_queues = map (map (vals s)) qs, bx_mark = mark_of (m_stack s)\<rparr>"

lemma distribute_map:
  "\<forall>a\<in>set st. f (v a) < length qs \<Longrightarrow>
   map (map v) (distribute (\<lambda>a. f (v a)) st qs) = distribute f (map v st) (map (map v) qs)"
  by (induction st arbitrary: qs) (simp_all add: map_update)

lemma pop_queues_map:
  "pop_queues (map (map v) qs) = map_option (\<lambda>(a, qs'). (v a, map (map v) qs')) (pop_queues qs)"
  by (induction qs rule: pop_queues.induct) (auto simp: option.map_comp comp_def split_def)

lemma abs_dequeue_map:
  assumes "\<forall>a\<in>set st. f (v a) < length qs"
  shows "abs_dequeue f (map v st) (map (map v) qs) =
    (case abs_dequeue (\<lambda>a. f (v a)) st qs of (r, st', qs') \<Rightarrow> (map_option v r, map v st', map (map v) qs'))"
  using distribute_map [of st f v qs, OF assms]
  by (auto simp: abs_dequeue_def pop_queues_map simp flip: distribute_map [of st f v qs, OF assms]
    split: option.splits)

section \<open>Properties\<close>

text \<open>
  C22. A request identifier taken for a message is not zero and not that of a request still waiting
  for its reply.  Saving the request's context under it never fails, whatever was saved before: the
  context is found under that identifier, it answers the initiator of the request being processed,
  and all other contexts are found as before.
\<close>

theorem request_ids_unique:
  assumes "actor_ok a" "ctx_live a" "a_generator a \<noteq> -1" "new_reqid a = (r, a1)" "reqid (w_meta w) = r"
  shows "r \<noteq> 0 \<and> find_req_ctx r a = None \<and>
    (\<exists>a2 p c. on_async_send_done w x a1 = Inr a2 \<and> actor_ok a2 \<and> ctx_live a2 \<and>
       find_req_ctx r a2 = Some p \<and> a_ctxs a2 p = Some c \<and> Inr (c_initiator c) = ctx_initiator a1)"
proof -
  note n = new_reqid_fresh [OF assms(1,3,4)]
  have "ctx_live a1" using assms(2) n by (simp add: ctx_live_def)
  then show ?thesis using add_insert_ctx [of a1 r x Plain] n assms(5)
    by (auto simp: on_async_send_done_def find_req_ctx_def)
qed

theorem request_ids_unique_witness:
  "\<exists>a2 p c. on_async_send_done \<lparr>w_meta = zero_meta\<lparr>reqid := 1\<rparr>, w_data = User_data (Some (0 :: nat))\<rparr> None
     (snd (new_reqid (Actor_new zero_id))) = Inr a2 \<and> find_req_ctx 1 a2 = Some p \<and> a_ctxs a2 p = Some c"
  using request_ids_unique [of "Actor_new zero_id :: nat actor" 1 "snd (new_reqid (Actor_new zero_id))"
      "\<lparr>w_meta = zero_meta\<lparr>reqid := 1\<rparr>, w_data = User_data (Some (0 :: nat))\<rparr>" None]
    Actor_new_ok(1) [of zero_id]
  by (auto simp: new_reqid_def Actor_new_def ctx_live_def)


definition sample_request :: "nat wrapper" where
  "sample_request = \<lparr>w_meta = zero_meta\<lparr>mtype := T_REQUEST\<rparr>, w_data = User_data (Some 1)\<rparr>"

definition sample_actor :: "nat actor" where
  "sample_actor = (Actor_new zero_id)
     \<lparr>a_status := ACTOR_RUNNING, a_box := \<lparr>bx_stack = [sample_request, sample_request], bx_queues = [[], []], bx_mark = Box_open\<rparr>\<rparr>"


text \<open>
  C23. The mailbox an actor is specified with is the mailbox of the runtime: enqueueing, dequeueing
  and blocking on the linked nodes return what the specification returns and keep representing it.
\<close>

theorem actor_mailbox_refines:
  assumes "mbox_rep GetMsgPriority s st qs" "m_stack s \<noteq> Dummy_closed" "length st < 2 ^ 32" "length qs = 2"
    and "a \<notin> set (st @ concat qs)"
  shows "(\<exists>r s' st' qs'. dequeue GetMsgPriority s = Inr (r, s') \<and> mbox_rep GetMsgPriority s' st' qs' \<and>
       box_dequeue (box_of s st qs) = (map_option (vals s) r, box_of s' st' qs')) \<and>
     (\<exists>r s'. enqueue (Some a) s = Inr (r, s') \<and> mbox_rep GetMsgPriority s' (a # st) qs \<and>
       box_enqueue (vals s a) (box_of s st qs) = (r, box_of s' (a # st) qs)) \<and>
     (\<exists>r s'. try_block s = (r, s') \<and> mbox_rep GetMsgPriority s' st qs \<and>
       box_try_block (box_of s st qs) = (r, box_of s' st qs))"
proof (intro conjI)
  obtain r s' st' qs' where d: "dequeue GetMsgPriority s = Inr (r, s')"
    "abs_dequeue (\<lambda>a. GetMsgPriority (vals s a)) st qs = (r, st', qs')" "mbox_rep GetMsgPriority s' st' qs'"
    "vals s' = vals s" "m_stack s' = m_stack s \<or> m_stack s' = Dummy_empty \<and> m_stack s \<noteq> Dummy_blocked"
    using dequeue_rep [OF assms(1-3)] by blast
  have "mark_of (m_stack s') = mark_of (m_stack s)" using d(5) assms(2) by (cases "m_stack s") auto
  then have "box_dequeue (box_of s st qs) = (map_option (vals s) r, box_of s' st' qs')"
    using d(2,4) assms(4) by (simp add: box_dequeue_def box_of_def abs_dequeue_map)
  then show "\<exists>r s' st' qs'. dequeue GetMsgPriority s = Inr (r, s') \<and> mbox_rep GetMsgPriority s' st' qs' \<and>
      box_dequeue (box_of s st qs) = (map_option (vals s) r, box_of s' st' qs')"
    using d(1,3) by blast
next
  show "\<exists>r s'. enqueue (Some a) s = Inr (r, s') \<and> mbox_rep GetMsgPriority s' (a # st) qs \<and>
      box_enqueue (vals s a) (box_of s st qs) = (r, box_of s' (a # st) qs)"
    using enqueue_open [OF assms(2)] mbox_rep_enqueue [OF assms(1), of a] assms(2,4,5)
    by (cases "m_stack s") (auto simp: box_enqueue_def box_of_def)
next
  have st: "m_stack s = Dummy_empty \<Longrightarrow> st = []" "m_stack s = Item b \<Longrightarrow> st \<noteq> []" for b
    using mbox_chain [OF assms(1)] by (auto simp: chain_None)
  have num: "0 < m_num_inque s \<longleftrightarrow> concat qs \<noteq> []" by (rule num_inque_pos [OF assms(1)])
  have "mbox_rep GetMsgPriority (s\<lparr>m_stack := Dummy_blocked\<rparr>) st qs" if "m_stack s = Dummy_empty"
    using that mbox_chain [OF assms(1)] mbox_priv [OF assms(1)] mbox_distinct [OF assms(1)]
      mbox_lastp [OF assms(1)] mbox_prio [OF assms(1)] by (intro mbox_repI) auto
  then show "\<exists>r s'. try_block s = (r, s') \<and> mbox_rep GetMsgPriority s' st qs \<and>
      box_try_block (box_of s st qs) = (r, box_of s' st qs)"
    using assms(1,2) st num
    by (cases "m_stack s") (auto simp: try_block_def box_try_block_def box_of_def map_concat [symmetric])
qed

definition sample_mailbox :: "nat wrapper mailbox" where
  "sample_mailbox = \<lparr>m_stack = Item 2, m_headers = [None, None], m_num_inque = 0, m_lastp = 0,
     nexts = (\<lambda>_. None)(2 := Some 1), vals = (\<lambda>_. sample_request)\<rparr>"

theorem actor_mailbox_refines_witness:
  "\<exists>r s' st' qs'. dequeue GetMsgPriority sample_mailbox = Inr (r, s') \<and>
     box_dequeue (box_of sample_mailbox [2, 1] [[], []]) =
       (map_option (vals sample_mailbox) r, box_of s' st' qs')"
proof -
  have "mbox_rep GetMsgPriority sample_mailbox [2, 1] [[], []]"
    by (intro mbox_repI priv_repI)
      (auto simp: sample_mailbox_def less_Suc_eq numeral_2_eq_2 GetMsgPriority_def)
  from actor_mailbox_refines [OF this, of 7] show ?thesis by (auto simp: sample_mailbox_def)
qed

end
