(* ===== verification/Text_Stream.thy ===== *)
theory Text_Stream
  imports Prelude
begin

text \<open>
  The parts of the C and C++ libraries for text that the sources use: decimal output of numbers,
  \<open>istringstream\<close> extraction of numbers and words, \<open>std::stoul\<close> and \<open>strtol\<close>-style conversion, and
  the splitting of a string at separators.  Characters are ASCII.
\<close>

section \<open>Decimal numbers\<close>

definition digit_char :: "nat \<Rightarrow> char" where
  "digit_char d = char_of (48 + d)"

definition is_digit :: "char \<Rightarrow> bool" where
  "is_digit c \<longleftrightarrow> 48 \<le> (of_char c :: nat) \<and> (of_char c :: nat) \<le> 57"

definition digit_val :: "char \<Rightarrow> nat" where
  "digit_val c = of_char c - 48"

text \<open>White space in the C locale: blank, and the characters 9 to 13.\<close>

definition is_space :: "char \<Rightarrow> bool" where
  "is_space c \<longleftrightarrow> (of_char c :: nat) = 32 \<or> 9 \<le> (of_char c :: nat) \<and> (of_char c :: nat) \<le> 13"

fun nat_str :: "nat \<Rightarrow> string" where
  "nat_str n = (if n < 10 then [digit_char n] else nat_str (n div 10) @ [digit_char (n mod 10)])"

declare nat_str.simps [simp del]

definition nat_of_digits :: "string \<Rightarrow> nat" where
  "nat_of_digits s = foldl (\<lambda>n c. 10 * n + digit_val c) 0 s"

lemma of_char_digit: "d < 10 \<Longrightarrow> (of_char (digit_char d) :: nat) = 48 + d"
  by (simp add: digit_char_def)

lemma digit_facts [simp]:
  "d < 10 \<Longrightarrow> is_digit (digit_char d)" "d < 10 \<Longrightarrow> digit_val (digit_char d) = d"
  by (simp_all add: is_digit_def digit_val_def of_char_digit)

lemma digit_not_space: "is_digit c \<Longrightarrow> \<not> is_space c"
  by (auto simp: is_digit_def is_space_def)

lemma nat_str_digits: "c \<in> set (nat_str n) \<Longrightarrow> is_digit c"
proof (induction n rule: nat_str.induct)
  case (1 n)
  then show ?case by (subst (asm) (2) nat_str.simps) (auto split: if_splits)
qed

lemma nat_str_nonempty [simp]: "nat_str n \<noteq> []"
  by (subst nat_str.simps) simp

lemma nat_of_digits_str [simp]: "nat_of_digits (nat_str n) = n"
proof (induction n rule: nat_str.induct)
  case (1 n)
  then show ?case by (subst nat_str.simps) (auto simp: nat_of_digits_def)
qed

section \<open>Extraction\<close>

text \<open>
  A stream is the rest of its characters, or \<open>None\<close> after a failed extraction.  A number may have a
  sign; one too large for its type gives the largest value and fails, and one that is not there
  gives 0 and fails.
\<close>

type_synonym stream = "string option"

definition skip_ws :: "string \<Rightarrow> string" where
  "skip_ws s = dropWhile is_space s"

definition take_sign :: "string \<Rightarrow> bool \<times> string" where
  "take_sign s =
     (case s of
        c # r \<Rightarrow> if c = CHR ''-'' then (True, r) else if c = CHR ''+'' then (False, r) else (False, s)
      | [] \<Rightarrow> (False, s))"

definition read_uint :: "nat \<Rightarrow> 'a::len word \<Rightarrow> stream \<Rightarrow> 'a word \<times> stream" where
  "read_uint w old st =
     (case st of
        None \<Rightarrow> (old, None)
      | Some s \<Rightarrow>
          (case take_sign (skip_ws s) of
             (neg, r) \<Rightarrow>
               let ds = takeWhile is_digit r; v = nat_of_digits ds in
               if ds = [] then (0, None)
               else if 2 ^ w \<le> v then (-1, None)
               else (if neg then - of_nat v else of_nat v, Some (dropWhile is_digit r))))"

definition read_word :: "string \<Rightarrow> stream \<Rightarrow> string \<times> stream" where
  "read_word old st =
     (case st of
        None \<Rightarrow> (old, None)
      | Some s \<Rightarrow>
          let r = skip_ws s; t = takeWhile (\<lambda>c. \<not> is_space c) r in
          if t = [] then ([], None) else (t, Some (drop (length t) r)))"

lemma takeWhile_str [simp]:
  assumes "\<not> is_digit c"
  shows "takeWhile is_digit (nat_str n @ c # s) = nat_str n" "dropWhile is_digit (nat_str n @ c # s) = c # s"
  using nat_str_digits assms by (simp_all add: takeWhile_append2 dropWhile_append2)

lemma nat_str_Cons: "\<exists>c s. nat_str n = c # s \<and> is_digit c"
  by (metis list.exhaust list.set_intros(1) nat_str_digits nat_str_nonempty)

lemma take_sign_str [simp]: "take_sign (nat_str n @ s) = (False, nat_str n @ s)"
  using nat_str_Cons [of n] by (auto simp: take_sign_def is_digit_def)

lemma skip_ws_str [simp]: "skip_ws (nat_str n @ s) = nat_str n @ s"
  using nat_str_Cons [of n] digit_not_space by (auto simp: skip_ws_def)

lemma blank_facts [simp]: "is_space CHR '' ''" "\<not> is_digit CHR '' ''"
  by (simp_all add: is_space_def is_digit_def)

lemma skip_ws_blank [simp]: "skip_ws (CHR '' '' # s) = skip_ws s"
  by (simp add: skip_ws_def)

lemma unat_bound: "unat (x :: 'a::len word) < 2 ^ LENGTH('a)"
  by transfer (simp add: nat_take_bit_eq take_bit_eq_mod nat_mod_distrib)

text \<open>Reading back what was printed, followed by a blank.\<close>

lemma read_uint_str:
  fixes x :: "'a::len word"
  assumes "w = LENGTH('a)"
  shows "read_uint w old (Some (nat_str (unat x) @ CHR '' '' # s)) = (x, Some (CHR '' '' # s))"
  using assms unat_bound [of x] by (simp add: read_uint_def Let_def not_le)

lemma read_uint_blank [simp]: "read_uint w old (Some (CHR '' '' # s)) = read_uint w old (Some s)"
  by (simp add: read_uint_def)

lemma read_word_str:
  assumes "t \<noteq> []" "\<forall>c\<in>set t. \<not> is_space c"
  shows "read_word old (Some (t @ CHR '' '' # s)) = (t, Some (CHR '' '' # s))"
  using assms by (cases t) (simp_all add: read_word_def skip_ws_def Let_def takeWhile_append2)

lemma read_word_blank [simp]: "read_word old (Some (CHR '' '' # s)) = read_word old (Some s)"
  by (simp add: read_word_def)

section \<open>Conversion\<close>

text \<open>
  \<open>std::stoul\<close> on a 64-bit system: leading white space and a sign, then digits; it throws when there
  are none or the value does not fit.  \<open>atoi\<close> has no error: without digits it gives 0.
\<close>

definition stoul :: "string \<Rightarrow> u64 res" where
  "stoul s =
     (case take_sign (skip_ws s) of
        (neg, r) \<Rightarrow>
          let ds = takeWhile is_digit r; v = nat_of_digits ds in
          if ds = [] \<or> 2 ^ 64 \<le> v then Inl Uncaught
          else Inr (if neg then - of_nat v else of_nat v))"

definition atoi :: "string \<Rightarrow> int" where
  "atoi s =
     (case take_sign (skip_ws s) of
        (neg, r) \<Rightarrow> let v = int (nat_of_digits (takeWhile is_digit r)) in if neg then - v else v)"

lemma takeWhile_str_end [simp]: "takeWhile is_digit (nat_str n) = nat_str n"
  using nat_str_digits by (simp add: takeWhile_eq_all_conv)

lemma stoul_str: "n < 2 ^ 64 \<Longrightarrow> stoul (nat_str n) = Inr (of_nat n)"
  using skip_ws_str [of n "[]"] take_sign_str [of n "[]"] by (simp add: stoul_def Let_def)

end
