(* ===== verification/Node_Manager.thy ===== *)
theory Node_Manager
  imports Text_Stream
begin

text \<open>
  Nodes of the cluster and the node manager (\<open>include/mola/node_manager.hpp\<close>,
  \<open>src/node_manager.cpp\<close>), the per-worker caches of \<open>include/mola/scheduler.hpp\<close>, the pool of delayed
  tasks, and the single-node engine of \<open>include/mola/singleton.hpp\<close>.  What a cluster engine knows of
  other nodes is a parameter.
\<close>

section \<open>Nodes\<close>

definition PROTO_TCP :: u32 where "PROTO_TCP = 0"
definition LITTLE :: u32 where "LITTLE = 0"
definition BIG :: u32 where "BIG = 1"
definition invalid_node :: u32 where "invalid_node = 0xffffffff"
definition invalid_module :: u16 where "invalid_module = 0xffff"

record node =
  n_id :: u32
  n_endian :: u32
  n_proto :: u32
  n_port :: u16
  n_ip :: string
  n_modules :: "(string \<times> u16 \<times> bool) list"

definition Node_new :: "u32 \<Rightarrow> string \<Rightarrow> u16 \<Rightarrow> u32 \<Rightarrow> u32 \<Rightarrow> node" where
  "Node_new i ip port proto endian =
     \<lparr>n_id = i, n_endian = endian, n_proto = proto, n_port = port, n_ip = ip, n_modules = []\<rparr>"

definition invalid :: "node \<Rightarrow> bool" where
  "invalid n \<longleftrightarrow> n_id n = invalid_node"

text \<open>
  \<open>add_module\<close> without a name asks the engine for it (\<open>name_of\<close>); the identifier is stored as 16 bits.
\<close>

definition add_module :: "(u32 \<Rightarrow> string) \<Rightarrow> u32 \<Rightarrow> string option \<Rightarrow> bool \<Rightarrow> node \<Rightarrow> node" where
  "add_module name_of i name pub n =
     n\<lparr>n_modules := n_modules n @ [(case name of None \<Rightarrow> name_of i | Some s \<Rightarrow> s, ucast i, pub)]\<rparr>"

definition has_module :: "u32 \<Rightarrow> node \<Rightarrow> bool" where
  "has_module i n \<longleftrightarrow> list_ex (\<lambda>(_, m, _). ucast m = i) (n_modules n)"

definition has_module_name :: "(string \<Rightarrow> u16) \<Rightarrow> string \<Rightarrow> node \<Rightarrow> bool" where
  "has_module_name id_of name n \<longleftrightarrow>
     list_ex (\<lambda>(s, _, _). s = name) (n_modules n) \<or> has_module (ucast (id_of name)) n"

definition same_addr :: "node \<Rightarrow> node \<Rightarrow> bool" where
  "same_addr a b \<longleftrightarrow> n_ip a = n_ip b \<and> n_port a = n_port b \<and> n_proto a = n_proto b"

definition node_equals :: "node \<Rightarrow> node \<Rightarrow> bool" where
  "node_equals a b \<longleftrightarrow>
     n_id a = n_id b \<and> n_ip a = n_ip b \<and> n_port a = n_port b \<and> n_proto a = n_proto b \<and>
     n_endian a = n_endian b"

text \<open>
  \<open>encode\<close> writes the addressing data and the public modules, each followed by a blank.  \<open>decode\<close>
  reads them; \<open>j0\<close> to \<open>j3\<close> are what the local variables hold before, which shows when an extraction
  fails.
\<close>

definition encode :: "node \<Rightarrow> string" where
  "encode n =
     nat_str (unat (n_endian n)) @ '' '' @ nat_str (unat (n_proto n)) @ '' '' @ n_ip n @ '' '' @
     nat_str (unat (n_port n)) @ '' '' @
     concat (map (\<lambda>(_, m, pub). if pub then nat_str (unat m) @ '' '' else []) (n_modules n))"

lemma dropWhile_length: "length (dropWhile P s) \<le> length s"
  by (simp add: length_dropWhile_le)

lemma take_sign_length: "take_sign s = (neg, r) \<Longrightarrow> length r \<le> length s"
  by (auto simp: take_sign_def split: list.splits if_splits)

lemma read_uint_shorter:
  assumes "read_uint w old (Some s) = (v, Some r)"
  shows "length r < length s"
proof -
  obtain neg t where t: "take_sign (skip_ws s) = (neg, t)" by force
  then have "length t \<le> length s"
    using take_sign_length dropWhile_length [of is_space s] by (fastforce simp: skip_ws_def)
  moreover have "takeWhile is_digit t \<noteq> []" "r = dropWhile is_digit t"
    using assms t by (auto simp: read_uint_def Let_def split: if_splits)
  moreover have "length t = length (takeWhile is_digit t) + length (dropWhile is_digit t)"
    by (metis length_append takeWhile_dropWhile_id)
  ultimately show ?thesis by (cases "takeWhile is_digit t") simp_all
qed

function decode_modules :: "(u32 \<Rightarrow> string) \<Rightarrow> string \<Rightarrow> node \<Rightarrow> node" where
  "decode_modules name_of s n =
     (case read_uint 32 (0 :: u32) (Some s) of
        (_, None) \<Rightarrow> n
      | (mid, Some r) \<Rightarrow> decode_modules name_of r (add_module name_of mid None True n))"
  by pat_completeness auto
termination
  by (relation "measure (\<lambda>(_, s, _). length s)") (auto intro: read_uint_shorter [OF sym])

declare decode_modules.simps [simp del]

definition decode ::
  "(u32 \<Rightarrow> string) \<Rightarrow> u32 \<times> u32 \<times> string \<times> u16 \<Rightarrow> u32 \<Rightarrow> string \<Rightarrow> node" where
  "decode name_of junk i info =
     (case junk of (j0, j1, j2, j3) \<Rightarrow>
      case read_uint 32 j0 (Some info) of (endian, s1) \<Rightarrow>
      case read_uint 32 j1 s1 of (proto, s2) \<Rightarrow>
      case read_word j2 s2 of (ip, s3) \<Rightarrow>
      case read_uint 16 j3 s3 of (port, s4) \<Rightarrow>
        let n = Node_new i ip port proto endian in
        (case s4 of None \<Rightarrow> n | Some r \<Rightarrow> decode_modules name_of r n))"

section \<open>Per-worker caches\<close>

record 'v cache =
  c_map :: "u32 \<rightharpoonup> 'v"
  c_valid :: bool

definition Cache_new :: "'v cache" where
  "Cache_new = \<lparr>c_map = Map.empty, c_valid = True\<rparr>"

definition cache_invalid :: "'v cache \<Rightarrow> 'v cache" where
  "cache_invalid c = c\<lparr>c_valid := False\<rparr>"

text \<open>\<open>get\<close>: \<open>dflt\<close> is the default value of the element type; an invalid cache is emptied.\<close>

definition cache_get :: "'v \<Rightarrow> u32 \<Rightarrow> 'v cache \<Rightarrow> 'v \<times> 'v cache" where
  "cache_get dflt k c =
     (if c_valid c then (case c_map c k of Some v \<Rightarrow> (v, c) | None \<Rightarrow> (dflt, c))
      else (dflt, \<lparr>c_map = Map.empty, c_valid = True\<rparr>))"

text \<open>\<open>emplace\<close> leaves an existing entry alone.\<close>

definition cache_insert :: "u32 \<Rightarrow> 'v \<Rightarrow> 'v cache \<Rightarrow> 'v cache" where
  "cache_insert k v c = (if c_map c k = None then c\<lparr>c_map := (c_map c)(k \<mapsto> v)\<rparr> else c)"

definition cache_remove :: "u32 \<Rightarrow> 'v cache \<Rightarrow> 'v cache" where
  "cache_remove k c = c\<lparr>c_map := (c_map c)(k := None)\<rparr>"

definition ALL_KEYS :: u32 where "ALL_KEYS = 0xFFFFFFFF"

definition invalid_cached :: "u32 \<Rightarrow> 'v cache \<Rightarrow> 'v cache" where
  "invalid_cached k c = (if k = ALL_KEYS then cache_invalid c else cache_remove k c)"

section \<open>The node manager\<close>

text \<open>
  \<open>m_alive_nodes\<close> with its keys in ascending order as \<open>std::map\<close> keeps them, the flag \<open>m_need_sync\<close>,
  and the node and module caches of the workers.
\<close>

record node_mgr =
  alive :: "(u32 \<times> node) list"
  need_sync :: bool
  single_node :: bool
  w_nodes :: "node option cache list"
  w_sets :: "node list cache list"

definition find_cached_node :: "u32 \<Rightarrow> node_mgr \<Rightarrow> node option" where
  "find_cached_node i m = map_of (alive m) i"

definition delete_cached_node :: "u32 \<Rightarrow> node_mgr \<Rightarrow> bool \<times> node_mgr" where
  "delete_cached_node i m =
     (case map_of (alive m) i of
        None \<Rightarrow> (False, m)
      | Some _ \<Rightarrow> (True, m\<lparr>alive := filter (\<lambda>(k, _). k \<noteq> i) (alive m)\<rparr>))"

text \<open>\<open>std::map::insert\<close>: in key order, and nothing when the key is there.\<close>

fun map_insert :: "u32 \<Rightarrow> 'v \<Rightarrow> (u32 \<times> 'v) list \<Rightarrow> (u32 \<times> 'v) list" where
  "map_insert k v [] = [(k, v)]"
| "map_insert k v ((k', v') # xs) =
     (if k < k' then (k, v) # (k', v') # xs
      else if k = k' then (k', v') # xs else (k', v') # map_insert k v xs)"

definition update_cached_node :: "node \<Rightarrow> node_mgr \<Rightarrow> bool \<times> node_mgr" where
  "update_cached_node n m =
     (case find_cached_node (n_id n) m of
        Some o' \<Rightarrow>
          if node_equals o' n then (False, m) else (True, m\<lparr>alive := map_insert (n_id n) n (alive m)\<rparr>)
      | None \<Rightarrow> (True, m\<lparr>alive := map_insert (n_id n) n (alive m)\<rparr>))"

definition invalid_thread_cache :: "node_mgr \<Rightarrow> node_mgr" where
  "invalid_thread_cache m =
     m\<lparr>w_nodes := map (invalid_cached ALL_KEYS) (w_nodes m), w_sets := map (invalid_cached ALL_KEYS) (w_sets m)\<rparr>"

definition sync_all_nodes_later :: "node_mgr \<Rightarrow> node_mgr" where
  "sync_all_nodes_later m = invalid_thread_cache (m\<lparr>need_sync := True\<rparr>)"

text \<open>
  The engine's part: \<open>sync_all_nodes\<close> brings the list of nodes up to date, and \<open>_find_node\<close> asks the
  cluster for one node.
\<close>

record engine =
  e_sync :: "node_mgr \<Rightarrow> node_mgr"
  e_find :: "u32 \<Rightarrow> node option"

definition sync_if_needed :: "engine \<Rightarrow> node_mgr \<Rightarrow> node_mgr" where
  "sync_if_needed e m = (if need_sync m then (e_sync e m)\<lparr>need_sync := False\<rparr> else m)"

definition lookup_node :: "engine \<Rightarrow> u32 \<Rightarrow> node_mgr \<Rightarrow> node option \<times> node_mgr" where
  "lookup_node e i m =
     (case find_cached_node i m of
        Some n \<Rightarrow> (Some n, m)
      | None \<Rightarrow>
          (case e_find e i of
             None \<Rightarrow> (None, m)
           | Some n \<Rightarrow> (Some n, snd (update_cached_node n m))))"

definition find_node :: "engine \<Rightarrow> nat \<Rightarrow> u32 \<Rightarrow> node_mgr \<Rightarrow> node option \<times> node_mgr" where
  "find_node e wk i m =
     (case cache_get None i (w_nodes m ! wk) of
        (Some n, c) \<Rightarrow> (Some n, m\<lparr>w_nodes := (w_nodes m)[wk := c]\<rparr>)
      | (None, c) \<Rightarrow>
          (case lookup_node e i (sync_if_needed e (m\<lparr>w_nodes := (w_nodes m)[wk := c]\<rparr>)) of
             (r, m2) \<Rightarrow>
               (r, m2\<lparr>w_nodes := (w_nodes m2)[wk := cache_insert i r (w_nodes m2 ! wk)]\<rparr>)))"

definition query_node_with_module :: "engine \<Rightarrow> nat \<Rightarrow> u32 \<Rightarrow> node_mgr \<Rightarrow> node list \<times> node_mgr" where
  "query_node_with_module e wk mid m =
     (case cache_get [] mid (w_sets m ! wk) of
        (ns, c) \<Rightarrow>
          if ns \<noteq> [] then (ns, m\<lparr>w_sets := (w_sets m)[wk := c]\<rparr>)
          else
            let m1 = sync_if_needed e (m\<lparr>w_sets := (w_sets m)[wk := c]\<rparr>);
                ns' = filter (has_module mid) (map snd (alive m1))
            in (ns', m1\<lparr>w_sets := (w_sets m1)[wk := cache_insert mid ns' (w_sets m1 ! wk)]\<rparr>))"

definition get_node_count :: "node_mgr \<Rightarrow> nat" where
  "get_node_count m = length (alive m)"

definition get_node_ids :: "node_mgr \<Rightarrow> u32 list" where
  "get_node_ids m = map fst (alive m)"

section \<open>The pool of delayed tasks\<close>

text \<open>
  A task runs in a world \<open>'w\<close> and returns 0 when it is done.  The inner loop of \<open>loop\<close> runs the tasks
  of an event, putting back those that are not done, until the queue is empty; \<open>None\<close> is a loop
  that does not end.
\<close>

type_synonym 'w task = "'w \<Rightarrow> int \<times> 'w"

record 'w pool =
  p_tasks :: "string \<rightharpoonup> 'w task list"
  p_events :: "string list"
  p_stop :: bool

definition pool_add :: "string \<Rightarrow> 'w task \<Rightarrow> 'w pool \<Rightarrow> 'w pool" where
  "pool_add ev t p =
     p\<lparr>p_tasks := (p_tasks p)(ev \<mapsto> (case p_tasks p ev of None \<Rightarrow> [] | Some q \<Rightarrow> q) @ [t])\<rparr>"

definition pool_notify :: "string \<Rightarrow> 'w pool \<Rightarrow> 'w pool" where
  "pool_notify ev p =
     (case p_tasks p ev of
        None \<Rightarrow> p
      | Some q \<Rightarrow> if q \<noteq> [] then p\<lparr>p_events := p_events p @ [ev]\<rparr> else p)"

definition pool_kill :: "'w pool \<Rightarrow> 'w pool" where
  "pool_kill p = p\<lparr>p_stop := True\<rparr>"

partial_function (option) drain :: "'w task list \<Rightarrow> 'w \<Rightarrow> 'w option" where
  "drain q w =
     (case q of
        [] \<Rightarrow> Some w
      | t # q' \<Rightarrow> (case t w of (r, w') \<Rightarrow> drain (if r \<noteq> 0 then q' @ [t] else q') w'))"

text \<open>The loop over the pending events; tasks do not add tasks, which the pool's mutex forbids.\<close>

fun run_events :: "string list \<Rightarrow> 'w pool \<Rightarrow> 'w \<Rightarrow> ('w pool \<times> 'w) option" where
  "run_events [] p w = Some (p\<lparr>p_events := []\<rparr>, w)"
| "run_events (ev # evs) p w =
     (case p_tasks p ev of
        None \<Rightarrow> run_events evs p w
      | Some q \<Rightarrow>
          (case drain q w of
             None \<Rightarrow> None
           | Some w' \<Rightarrow> run_events evs (p\<lparr>p_tasks := (p_tasks p)(ev := None)\<rparr>) w'))"

text \<open>One round of \<open>loop\<close>: whether it waits for a notification, and the state after it.\<close>

definition loop_round :: "'w pool \<Rightarrow> 'w \<Rightarrow> (bool \<times> 'w pool \<times> 'w) option" where
  "loop_round p w =
     (if (\<forall>ev. p_tasks p ev = None) \<or> p_events p = []
      then Some (True, if (\<forall>ev. p_tasks p ev = None) then p\<lparr>p_events := []\<rparr> else p, w)
      else map_option (\<lambda>(p', w'). (False, p', w')) (run_events (p_events p) p w))"

section \<open>The single-node engine\<close>

text \<open>The identifier of a module is its place in \<open>m_modules\<close>.\<close>

fun index_from :: "nat \<Rightarrow> string \<Rightarrow> string list \<Rightarrow> nat option" where
  "index_from i name [] = None"
| "index_from i name (m # ms) = (if m = name then Some i else index_from (i + 1) name ms)"

definition get_module_id :: "string \<Rightarrow> bool \<Rightarrow> string list \<Rightarrow> u16 \<times> string list" where
  "get_module_id name create ms =
     (case index_from 0 name ms of
        Some i \<Rightarrow> (of_nat i, ms)
      | None \<Rightarrow> if create then (of_nat (length (ms @ [name]) - 1), ms @ [name]) else (invalid_module, ms))"

definition get_module_name :: "u16 \<Rightarrow> string list \<Rightarrow> string" where
  "get_module_name i ms = (if unat i < length ms then ms ! unat i else [])"

definition singleton_engine :: engine where
  "singleton_engine = \<lparr>e_sync = (\<lambda>m. m), e_find = (\<lambda>_. None)\<rparr>"

section \<open>A registry of module names\<close>

text \<open>
  What modules rely on: registering a name gives an identifier that leads back to the name, and
  never changes the name of an identifier handed out before.  Then equal identifiers mean equal
  names, whatever was registered in between.
\<close>

locale module_registry =
  fixes reg :: "string \<Rightarrow> 's \<Rightarrow> u16 \<times> 's"
    and name_of :: "u16 \<Rightarrow> 's \<Rightarrow> string"
    and room :: "'s \<Rightarrow> bool"
  assumes reg_name: "room s \<Longrightarrow> reg n s = (i, s') \<Longrightarrow> name_of i s' = n"
    and reg_keeps: "room s \<Longrightarrow> reg n s = (i, s') \<Longrightarrow> name_of j s \<noteq> [] \<Longrightarrow> name_of j s' = name_of j s"
begin

primrec reg_all :: "string list \<Rightarrow> 's \<Rightarrow> 's" where
  "reg_all [] s = s"
| "reg_all (n # ns) s = reg_all ns (snd (reg n s))"

primrec rooms :: "string list \<Rightarrow> 's \<Rightarrow> bool" where
  "rooms [] s \<longleftrightarrow> True"
| "rooms (n # ns) s \<longleftrightarrow> room s \<and> rooms ns (snd (reg n s))"

lemma reg_all_keeps: "rooms ns s \<Longrightarrow> name_of j s \<noteq> [] \<Longrightarrow> name_of j (reg_all ns s) = name_of j s"
proof (induction ns arbitrary: s)
  case (Cons n ns)
  have "name_of j (snd (reg n s)) = name_of j s"
    using Cons.prems reg_keeps [of s n "fst (reg n s)" "snd (reg n s)"] by simp
  then show ?case using Cons by simp
qed simp

lemma reg_injective:
  assumes "n \<noteq> []" "room s" "reg n s = (i, s1)" "rooms ns s1" "room (reg_all ns s1)"
    "reg n' (reg_all ns s1) = (i, s2)"
  shows "n' = n"
proof -
  have "name_of i s1 = n" using assms reg_name by blast
  then have "name_of i (reg_all ns s1) = n" using assms(1,4) reg_all_keeps by simp
  then have "name_of i s2 = n" using assms reg_keeps by metis
  then show ?thesis using assms(5,6) reg_name by metis
qed

end

lemma index_from_Some: "index_from i n ms = Some k \<Longrightarrow> i \<le> k \<and> k < i + length ms \<and> ms ! (k - i) = n"
  by (induction ms arbitrary: i) (auto simp: nth_Cons' split: if_splits, (fastforce simp: Suc_diff_Suc)+)

definition reg_room :: "string list \<Rightarrow> bool" where
  "reg_room ms \<longleftrightarrow> length ms < 65535"

lemma unat_u16: "n < 65536 \<Longrightarrow> unat (of_nat n :: u16) = n"
  by (simp add: unat_of_nat)

interpretation sreg: module_registry "\<lambda>n. get_module_id n True" get_module_name reg_room
proof
  fix n :: string and s s' :: "string list" and i j :: u16
  assume r: "reg_room s" "get_module_id n True s = (i, s')"
  have k: "k < length s \<and> s ! k = n" if "index_from 0 n s = Some k" for k
    using index_from_Some [OF that] by simp
  show "get_module_name i s' = n"
    using r k by (cases "index_from 0 n s")
      (auto simp: get_module_id_def get_module_name_def reg_room_def unat_u16 nth_append)
  show "get_module_name j s' = get_module_name j s" if "get_module_name j s \<noteq> []"
    using r that by (cases "index_from 0 n s")
      (auto simp: get_module_id_def get_module_name_def nth_append split: if_splits)
qed

section \<open>Coherence of the node caches\<close>

definition cache_ok :: "(u32 \<times> node) list \<Rightarrow> bool \<Rightarrow> node option cache \<Rightarrow> bool" where
  "cache_ok al sync c \<longleftrightarrow>
     (c_valid c \<longrightarrow> (\<forall>k n. c_map c k = Some (Some n) \<longrightarrow> \<not> sync \<and> map_of al k = Some n))"

definition coherent :: "node_mgr \<Rightarrow> bool" where
  "coherent m \<longleftrightarrow> (\<forall>c\<in>set (w_nodes m). cache_ok (alive m) (need_sync m) c)"

text \<open>What an engine promises: it leaves the caches to the manager, and finds nodes by their identifier.\<close>

definition engine_ok :: "engine \<Rightarrow> bool" where
  "engine_ok e \<longleftrightarrow>
     (\<forall>m. w_nodes (e_sync e m) = w_nodes m) \<and> (\<forall>i n. e_find e i = Some n \<longrightarrow> n_id n = i)"

lemma map_of_map_insert:
  "map_of xs k = None \<Longrightarrow> map_of (map_insert k v xs) = (map_of xs)(k \<mapsto> v)"
  by (induction xs rule: map_insert.induct) (auto simp: fun_eq_iff split: if_splits)

lemma coherent_sync:
  assumes "coherent m" "engine_ok e"
  shows "coherent (sync_if_needed e m) \<and> w_nodes (sync_if_needed e m) = w_nodes m \<and> \<not> need_sync (sync_if_needed e m)"
  using assms by (auto simp: sync_if_needed_def coherent_def cache_ok_def engine_ok_def)

lemma coherent_update_cache:
  assumes "coherent m" "wk < length (w_nodes m)" "cache_ok (alive m) (need_sync m) c"
  shows "coherent (m\<lparr>w_nodes := (w_nodes m)[wk := c]\<rparr>)"
  using assms set_update_subset_insert [of "w_nodes m" wk c] by (auto simp: coherent_def)

lemma coherent_nth:
  "coherent m \<Longrightarrow> wk < length (w_nodes m) \<Longrightarrow> cache_ok (alive m) (need_sync m) (w_nodes m ! wk)"
  by (simp add: coherent_def)

lemma cache_insert_ok:
  "cache_ok al sync c \<Longrightarrow> \<not> sync \<Longrightarrow> r = map_of al i \<Longrightarrow> cache_ok al sync (cache_insert i r c)"
  by (auto simp: cache_ok_def cache_insert_def)

lemma lookup_node_ok:
  assumes "engine_ok e" "lookup_node e i m = (r, m2)"
  shows "r = map_of (alive m2) i \<and> w_nodes m2 = w_nodes m \<and> need_sync m2 = need_sync m \<and>
    (\<forall>k n. map_of (alive m) k = Some n \<longrightarrow> map_of (alive m2) k = Some n)"
proof (cases "map_of (alive m) i")
  case None
  then show ?thesis using assms
    by (cases "e_find e i")
      (auto simp: lookup_node_def find_cached_node_def update_cached_node_def engine_ok_def map_of_map_insert)
qed (use assms in \<open>auto simp: lookup_node_def find_cached_node_def\<close>)

lemma find_node_coherent:
  assumes "coherent m" "engine_ok e" "wk < length (w_nodes m)" "find_node e wk i m = (r, m')"
  shows "coherent m' \<and> r = map_of (alive m') i \<and> length (w_nodes m') = length (w_nodes m)"
proof (cases "cache_get None i (w_nodes m ! wk)")
  case (Pair v c)
  note c = coherent_nth [OF assms(1,3)]
  have "cache_ok (alive m) (need_sync m) c"
    using c Pair by (auto simp: cache_get_def cache_ok_def split: if_splits option.splits)
  note ch = coherent_update_cache [OF assms(1,3) this]
  show ?thesis
  proof (cases v)
    case (Some n)
    then show ?thesis using assms(4) Pair ch c
      by (auto simp: find_node_def cache_get_def cache_ok_def split: if_splits option.splits)
  next
    case None
    let ?m1 = "sync_if_needed e (m\<lparr>w_nodes := (w_nodes m)[wk := c]\<rparr>)"
    note s = coherent_sync [OF ch assms(2)]
    obtain m2 where m2: "lookup_node e i ?m1 = (r, m2)"
      and m': "m' = m2\<lparr>w_nodes := (w_nodes m2)[wk := cache_insert i r (w_nodes m2 ! wk)]\<rparr>"
      using assms(4) Pair None by (auto simp: find_node_def split: prod.splits)
    note l = lookup_node_ok [OF assms(2) m2]
    have c2: "coherent m2"
      using s l by (fastforce simp: coherent_def cache_ok_def)
    have w2: "wk < length (w_nodes m2)" using l s assms(3) by simp
    have "cache_ok (alive m2) (need_sync m2) (cache_insert i r (w_nodes m2 ! wk))"
      using l s by (intro cache_insert_ok [OF coherent_nth [OF c2 w2]]) simp_all
    then have "coherent m'" unfolding m' by (rule coherent_update_cache [OF c2 w2])
    then show ?thesis using m' l s by simp
  qed
qed

text \<open>The other operations keep the caches coherent.\<close>

definition delete_node :: "u32 \<Rightarrow> node_mgr \<Rightarrow> node_mgr" where
  "delete_node i m =
     (let m1 = m\<lparr>alive := filter (\<lambda>(k, _). k \<noteq> i) (alive m)\<rparr>
      in if length (alive m1) < length (alive m) then invalid_thread_cache m1 else m1)"

lemma coherent_invalidate: "coherent (invalid_thread_cache m)"
  by (auto simp: coherent_def invalid_thread_cache_def invalid_cached_def cache_invalid_def cache_ok_def)

lemma delete_node_coherent: "coherent m \<Longrightarrow> coherent (delete_node i m) \<and> map_of (alive (delete_node i m)) i = None"
proof -
  assume c: "coherent m"
  have "map_of (filter (\<lambda>(k, _). k \<noteq> i) (alive m)) i = None" by (auto simp: map_of_eq_None_iff)
  moreover have "filter (\<lambda>(k, _). k \<noteq> i) (alive m) = alive m"
    if "\<not> length (filter (\<lambda>(k, _). k \<noteq> i) (alive m)) < length (alive m)"
    using that by (simp add: length_filter_less filter_id_conv) (metis (no_types, lifting) case_prodI2 length_filter_less)
  moreover have "alive (invalid_thread_cache m') = alive m'" for m' by (simp add: invalid_thread_cache_def)
  ultimately show ?thesis using c coherent_invalidate
    by (auto simp: delete_node_def Let_def coherent_def [of "m\<lparr>alive := _\<rparr>"] coherent_def [of m])
qed

section \<open>Properties\<close>

lemma decode_modules_Nil: "decode_modules name_of [] n = n"
  by (subst decode_modules.simps) (simp add: read_uint_def skip_ws_def take_sign_def)

lemma decode_modules_blank: "decode_modules name_of (CHR '' '' # s) n = decode_modules name_of s n"
  by (subst (1 2) decode_modules.simps) simp

lemma decode_modules_str:
  "decode_modules name_of (nat_str (unat (m :: u16)) @ CHR '' '' # s) n =
   decode_modules name_of s (add_module name_of (ucast m) None True n)"
proof -
  have "unat (ucast m :: u32) = unat m" using unat_bound [of m] by (simp add: unsigned_ucast_eq take_bit_nat_eq_self_iff)
  then have "read_uint 32 0 (Some (nat_str (unat m) @ CHR '' '' # s)) = (ucast m :: u32, Some (CHR '' '' # s))"
    using read_uint_str [of 32 0 "ucast m :: u32" s] by simp
  then show ?thesis by (subst decode_modules.simps) (simp add: decode_modules_blank)
qed

lemma decode_modules_encoded:
  "decode_modules name_of (concat (map (\<lambda>(_, m, pub). if pub then nat_str (unat m) @ '' '' else []) ms)) n =
   n\<lparr>n_modules := n_modules n @ map (\<lambda>(_, m, _). (name_of (ucast m), m, True)) (filter (\<lambda>(_, _, pub). pub) ms)\<rparr>"
proof (induction ms arbitrary: n)
  case (Cons x ms)
  obtain a m pub where x: "x = (a, m, pub)" by (cases x)
  have "ucast (ucast m :: u32) = m" by (rule bit_word_eqI) (auto simp: bit_simps dest: bit_imp_le_length)
  then show ?case using Cons by (simp add: x decode_modules_str add_module_def)
qed (simp add: decode_modules_Nil)

text \<open>
  A node read back from its description has the same byte order, protocol, address and port, and
  exactly the public modules, whatever the local variables of \<open>decode\<close> held before, as long as its
  address is a non-empty string without white space.
\<close>

theorem node_roundtrip:
  assumes "n_ip n \<noteq> []" "\<forall>c\<in>set (n_ip n). \<not> is_space c"
  shows "decode name_of junk i (encode n) =
    n\<lparr>n_id := i, n_modules := map (\<lambda>(_, m, _). (name_of (ucast m), m, True)) (filter (\<lambda>(_, _, pub). pub) (n_modules n))\<rparr>"
proof -
  obtain j0 j1 j2 j3 where j: "junk = (j0, j1, j2, j3)" by (cases junk)
  let ?ms = "concat (map (\<lambda>(_, m, pub). if pub then nat_str (unat m) @ '' '' else []) (n_modules n))"
  have "read_uint 32 j0 (Some (encode n)) = (n_endian n, Some (CHR '' '' # nat_str (unat (n_proto n)) @ '' '' @
      n_ip n @ '' '' @ nat_str (unat (n_port n)) @ '' '' @ ?ms))"
    unfolding encode_def by (simp add: read_uint_str)
  moreover have "read_uint 32 j1 (Some (nat_str (unat (n_proto n)) @ '' '' @ n_ip n @ '' '' @
      nat_str (unat (n_port n)) @ '' '' @ ?ms)) =
      (n_proto n, Some (CHR '' '' # n_ip n @ '' '' @ nat_str (unat (n_port n)) @ '' '' @ ?ms))"
    by (simp add: read_uint_str)
  moreover have "read_word j2 (Some (n_ip n @ '' '' @ nat_str (unat (n_port n)) @ '' '' @ ?ms)) =
      (n_ip n, Some (CHR '' '' # nat_str (unat (n_port n)) @ '' '' @ ?ms))"
    using assms by (simp add: read_word_str)
  moreover have "read_uint 16 j3 (Some (nat_str (unat (n_port n)) @ '' '' @ ?ms)) =
      (n_port n, Some (CHR '' '' # ?ms))"
    by (simp add: read_uint_str)
  ultimately show ?thesis
    by (simp add: j decode_def decode_modules_blank decode_modules_encoded Node_new_def)
qed

definition sample_node :: node where
  "sample_node = \<lparr>n_id = 3, n_endian = 1, n_proto = 0, n_port = 8080, n_ip = ''10.0.0.7'',
     n_modules = [(''kv'', 2, True), (''priv'', 4, False)]\<rparr>"

theorem node_roundtrip_witness:
  "decode (\<lambda>_. ''m'') (0, 0, [], 0) 9 (encode sample_node) = sample_node\<lparr>n_id := 9, n_modules := [(''m'', 2, True)]\<rparr>"
  using node_roundtrip [of sample_node "\<lambda>_. ''m''" "(0, 0, [], 0)" 9]
  by (simp add: sample_node_def is_space_def)

datatype nm_op = Find nat u32 | Delete u32 | Sync_later

fun nm_step :: "engine \<Rightarrow> nm_op \<Rightarrow> node_mgr \<Rightarrow> node_mgr" where
  "nm_step e (Find wk i) m = (if wk < length (w_nodes m) then snd (find_node e wk i m) else m)"
| "nm_step e (Delete i) m = delete_node i m"
| "nm_step e Sync_later m = sync_all_nodes_later m"

lemma nm_step_coherent: "engine_ok e \<Longrightarrow> coherent m \<Longrightarrow> coherent (nm_step e p m)"
proof (cases p)
  case (Find wk i)
  assume "engine_ok e" "coherent m"
  then show ?thesis
    using Find find_node_coherent [of m e wk i "fst (find_node e wk i m)" "snd (find_node e wk i m)"] by simp
qed (simp_all add: delete_node_coherent sync_all_nodes_later_def coherent_invalidate)

definition nm_init :: "(u32 \<times> node) list \<Rightarrow> nat \<Rightarrow> node_mgr" where
  "nm_init al k = \<lparr>alive = al, need_sync = True, single_node = False, w_nodes = replicate k Cache_new, w_sets = replicate k Cache_new\<rparr>"

lemma nm_init_coherent: "coherent (nm_init al k)"
  by (simp add: coherent_def nm_init_def Cache_new_def cache_ok_def)

lemma nm_run_coherent: "engine_ok e \<Longrightarrow> coherent m \<Longrightarrow> coherent (fold (nm_step e) ps m)"
  by (induction ps arbitrary: m) (simp_all add: nm_step_coherent)



text \<open>
  Names and identifiers of modules on a single node: registering a name gives an identifier whose
  name it is, and two registrations give the same identifier only for the same name, whatever was
  registered in between, up to 65534 modules.
\<close>

theorem module_ids_distinct:
  assumes "n \<noteq> []" "reg_room ms" "get_module_id n True ms = (i, ms1)" "sreg.rooms ns ms1"
    and "reg_room (sreg.reg_all ns ms1)" "get_module_id n' True (sreg.reg_all ns ms1) = (i, ms2)"
  shows "n' = n \<and> get_module_name i ms1 = n"
  using sreg.reg_injective [OF assms] sreg.reg_name [OF assms(2,3)] by simp

theorem module_ids_distinct_witness:
  "get_module_name 0 [''kv''] = ''kv''"
  using module_ids_distinct [of "''kv''" "[]" 0 "[''kv'']" "[''a'']" "''kv''" "[''kv'', ''a'']"]
  by (simp add: reg_room_def get_module_id_def)

lemma drain_done: "\<forall>t\<in>set q. \<forall>w. fst (t w) = 0 \<Longrightarrow> drain q w = Some (fold (\<lambda>t w. snd (t w)) q w)"
proof (induction q arbitrary: w)
  case (Cons t q)
  then show ?case by (subst drain.simps) (auto simp: split_def)
qed (simp add: drain.simps)

lemma drain_spins:
  assumes "t \<in> set q" "\<forall>w. fst (t w) \<noteq> 0"
  shows "drain q w = None"
proof (rule ccontr)
  assume "drain q w \<noteq> None"
  then obtain w' where "drain q w = Some w'" by auto
  then have "t \<notin> set q"
  proof (rule drain.raw_induct [where P = "\<lambda>q w w'. t \<notin> set q", rotated])
    fix dr :: "'a task list \<Rightarrow> 'a \<Rightarrow> 'a option" and q :: "'a task list" and w w' :: 'a
    assume IH: "\<And>q w w'. dr q w = Some w' \<Longrightarrow> t \<notin> set q"
      and step: "(case q of [] \<Rightarrow> Some w
        | t # q' \<Rightarrow> (case t w of (r, w') \<Rightarrow> dr (if r \<noteq> 0 then q' @ [t] else q') w')) = Some w'"
    show "t \<notin> set q"
    proof (cases q)
      case (Cons u q')
      have "t \<notin> set (if fst (u w) \<noteq> 0 then q' @ [u] else q')"
        using step Cons IH by (auto simp: split_def)
      then show ?thesis using Cons assms(2) by (auto split: if_splits)
    qed simp
  qed
  with assms(1) show False by simp
qed

text \<open>
  C25. When every delayed task of an event is done at its first call, the pool runs each of them once,
  in the order they were added, and the loop over the queue ends.  But a task that keeps failing is
  run again at once and for ever: the loop never ends, holding the pool's mutex.
\<close>

theorem delay_pool_drain:
  "((\<forall>t\<in>set q. \<forall>w. fst (t w) = 0) \<longrightarrow> drain q w = Some (fold (\<lambda>t w. snd (t w)) q w)) \<and>
   ((\<exists>t\<in>set q. \<forall>w. fst (t w) \<noteq> 0) \<longrightarrow> drain q w = None)"
proof (intro conjI impI)
  assume "\<exists>t\<in>set q. \<forall>w. fst (t w) \<noteq> 0"
  then obtain t where "t \<in> set q" "\<forall>w. fst (t w) \<noteq> 0" by (elim bexE)
  then show "drain q w = None" by (rule drain_spins)
qed (rule drain_done)

theorem delay_pool_drain_witness:
  "drain [\<lambda>w. (0, w + 1), \<lambda>w. (0, 2 * w)] (3 :: nat) = Some 8 \<and> drain [\<lambda>w. (-2, w)] (3 :: nat) = None"
  using delay_pool_drain [of "[\<lambda>w. (0, w + 1), \<lambda>w. (0, 2 * w)]" "3 :: nat"]
    delay_pool_drain [of "[\<lambda>w. (-2, w)]" "3 :: nat"]
  by simp

end
