(* ===== verification/Runtime.thy ===== *)
theory Runtime
  imports Actor Node_Manager Work_Steal
begin

text \<open>
  Modules and the dispatcher of one node: \<open>include/mola/module.hpp\<close>, \<open>src/module.cpp\<close>,
  \<open>src/dispatcher.cpp\<close>, \<open>src/name_service.cpp\<close> and the random strategy of
  \<open>include/mola/load_balancer.hpp\<close>.  The state holds the loaded modules, the actors, the nodes that a
  lookup finds, the messages written to other nodes, the delayed messages and the actors handed to
  the scheduler.  The callbacks of a module are parameters.
\<close>

section \<open>Modules\<close>

datatype intf_type = INTF_INVALID | INTF_NORMAL | INTF_SYNC

record module =
  md_id :: u16
  md_strong :: bool
  md_intfs :: "(intf_type \<times> bool) list"
  md_threshold :: u32
  md_max :: u32
  md_private :: bool
  md_autostart :: bool
  md_singleton :: bool
  md_insts :: "u32 \<rightharpoonup> addr"
  md_loc_cache :: "u64 \<rightharpoonup> actor_id"
  md_locs :: "u64 \<rightharpoonup> actor_id"

definition TYPE_SINGLETON :: u32 where "TYPE_SINGLETON = 1"
definition TYPE_AUTOSTART :: u32 where "TYPE_AUTOSTART = 2"
definition TYPE_STRONG :: u32 where "TYPE_STRONG = 8"
definition TYPE_PRIVATE :: u32 where "TYPE_PRIVATE = 16"

definition Module_new :: "u16 \<Rightarrow> u32 \<Rightarrow> u32 \<Rightarrow> (intf_type \<times> bool) list \<Rightarrow> module" where
  "Module_new i ty mx tbl =
     \<lparr>md_id = i, md_strong = (ty AND TYPE_STRONG \<noteq> 0), md_intfs = tbl, md_threshold = 1, md_max = mx,
      md_private = (ty AND TYPE_PRIVATE \<noteq> 0), md_autostart = (ty AND TYPE_AUTOSTART \<noteq> 0),
      md_singleton = (ty AND TYPE_SINGLETON \<noteq> 0), md_insts = Map.empty, md_loc_cache = Map.empty,
      md_locs = Map.empty\<rparr>"

definition set_singleton :: "module \<Rightarrow> module" where
  "set_singleton md = md\<lparr>md_singleton := True, md_max := 1\<rparr>"

definition parse_number :: "string \<Rightarrow> u32 res" where
  "parse_number s = (if s = ''MAX'' then Inr 0xFFFFFFFF else bind_res (stoul s) (\<lambda>v. Inr (ucast v)))"

text \<open>The arguments of \<open>dynload_module\<close>; an unknown one ends the process.\<close>

fun load_args :: "string list \<Rightarrow> module \<Rightarrow> module res" where
  "load_args [] md = Inr md"
| "load_args (a # as) md =
     (if a = ''autostart'' then load_args as (md\<lparr>md_autostart := True\<rparr>)
      else if a = ''singleton'' then load_args as (set_singleton md)
      else if a = ''private'' then load_args as (md\<lparr>md_private := True\<rparr>)
      else if a = ''public'' then load_args as (md\<lparr>md_private := False\<rparr>)
      else if a = ''max'' then
        (case as of
           [] \<Rightarrow> Inl Assert_failed
         | n # as' \<Rightarrow>
             bind_res (parse_number n) (\<lambda>mx.
               if 0 < mx \<and> mx < 0x100000
               then load_args as' (if mx = 1 then set_singleton md else md\<lparr>md_max := mx\<rparr>)
               else Inl Assert_failed))
      else if a = ''threshold'' then
        (case as of
           [] \<Rightarrow> Inl Assert_failed
         | n # as' \<Rightarrow>
             bind_res (parse_number n) (\<lambda>th.
               if 0 < th then load_args as' (md\<lparr>md_threshold := th\<rparr>) else Inl Assert_failed))
      else Inl Assert_failed)"

definition load_defaults :: "u32 \<Rightarrow> module \<Rightarrow> module" where
  "load_defaults workers md =
     (let md1 = (if md_max md = 0 then md\<lparr>md_max := 2 * workers\<rparr> else md)
      in if md_threshold md1 = 0 then md1\<lparr>md_threshold := 32\<rparr> else md1)"

section \<open>The runtime of a node\<close>

text \<open>
  \<open>r_worker\<close>: the caller runs on a worker thread, not on that of the delayed tasks; \<open>r_pool\<close>: there is
  a pool of delayed tasks; \<open>r_reach\<close>: the nodes a connection can be made to.
\<close>

datatype 'u delayed = Redispatch "'u wrapper" | Rescatter u32 "'u wrapper"

record 'u rt =
  r_local :: u32
  r_modules :: "u16 \<rightharpoonup> module"
  r_actors :: "addr \<rightharpoonup> 'u actor"
  r_next :: addr
  r_nodes :: "u32 \<rightharpoonup> node"
  r_reach :: "u32 \<Rightarrow> bool"
  r_current :: "addr option"
  r_worker :: bool
  r_pool :: bool
  r_ready :: "addr list"
  r_sent :: "(u32 \<times> 'u wrapper) list"
  r_delayed :: "'u delayed list"
  r_seed :: u32

definition find_module :: "u32 \<Rightarrow> 'u rt \<Rightarrow> module option" where
  "find_module i r = r_modules r (ucast i)"

definition upd_actor :: "addr \<Rightarrow> 'u actor \<Rightarrow> 'u rt \<Rightarrow> 'u rt" where
  "upd_actor p a r = r\<lparr>r_actors := (r_actors r)(p \<mapsto> a)\<rparr>"

text \<open>
  \<open>create_instance\<close>: the new actor's identifier is built with the arguments in the order of the
  source; \<open>emplace\<close> does not replace an instance.
\<close>

definition create_instance :: "u32 \<Rightarrow> module \<Rightarrow> 'u rt \<Rightarrow> addr \<times> 'u rt" where
  "create_instance inst md r =
     (let i = ActorID (r_local r) (ucast (md_id md)) ANY inst; p = r_next r;
          md' = (if md_insts md (instance_id i) = None
                 then md\<lparr>md_insts := (md_insts md)(instance_id i \<mapsto> p)\<rparr> else md)
      in (p, r\<lparr>r_actors := (r_actors r)(p \<mapsto> Actor_new i), r_next := p + 1,
               r_modules := (r_modules r)(md_id md \<mapsto> md')\<rparr>))"

definition select_or_create_instance :: "u32 \<Rightarrow> module \<Rightarrow> 'u rt \<Rightarrow> addr \<times> 'u rt" where
  "select_or_create_instance inst md r =
     (case md_insts md inst of Some p \<Rightarrow> (p, r) | None \<Rightarrow> create_instance inst md r)"

definition MODULE_OK :: int where "MODULE_OK = 0"

text \<open>\<open>deliver_message\<close> of an actor, with the hand-over to the scheduler.\<close>

definition deliver_to :: "addr \<Rightarrow> 'u wrapper \<Rightarrow> 'u rt \<Rightarrow> 'u rt res" where
  "deliver_to p w r =
     (case r_actors r p of
        None \<Rightarrow> Inl Use_after_free
      | Some a \<Rightarrow>
          bind_res (deliver_message w a) (\<lambda>(wake, a').
            Inr ((upd_actor p a' r)\<lparr>r_ready := (if wake then r_ready r @ [p] else r_ready r)\<rparr>)))"

definition module_dispatch :: "u32 \<Rightarrow> u32 \<Rightarrow> 'u wrapper \<Rightarrow> module \<Rightarrow> 'u rt \<Rightarrow> (int \<times> 'u wrapper \<times> 'u rt) res" where
  "module_dispatch inst intf w md r =
     (case select_or_create_instance inst md r of
        (p, r1) \<Rightarrow>
          (case r_actors r1 p of
             None \<Rightarrow> Inl Use_after_free
           | Some a \<Rightarrow>
               let w' = set_target (set_intf_id intf (a_id a)) w in
               bind_res (deliver_to p w' r1) (\<lambda>r2. Inr (MODULE_OK, w', r2))))"

definition module_dispatch_msg :: "'u wrapper \<Rightarrow> module \<Rightarrow> 'u rt \<Rightarrow> (int \<times> 'u wrapper \<times> 'u rt) res" where
  "module_dispatch_msg w md r =
     module_dispatch (instance_id (target (w_meta w))) (intf_id (target (w_meta w))) w md r"

definition on_remove_instance :: "addr \<Rightarrow> module \<Rightarrow> 'u rt \<Rightarrow> 'u rt res" where
  "on_remove_instance p md r =
     (case r_actors r p of
        None \<Rightarrow> Inl Use_after_free
      | Some a \<Rightarrow>
          Inr (r\<lparr>r_modules := (r_modules r)
                   (md_id md \<mapsto> md\<lparr>md_insts := (md_insts md)(instance_id (a_id a) := None)\<rparr>)\<rparr>))"

section \<open>The dispatcher\<close>

text \<open>
  \<open>Node::deliver_message\<close>: locally to the module, else to the peer with the sender's and the target's
  node filled in; serialisation and the socket are below this level.  The pointer of the caller is
  passed by reference: the result has what it points to afterwards, nothing once the message went to
  a peer (\<open>pass\<close>).
\<close>

definition node_deliver :: "node \<Rightarrow> 'u wrapper \<Rightarrow> 'u rt \<Rightarrow> (int \<times> 'u wrapper option \<times> 'u rt) res" where
  "node_deliver n w r =
     (if n_id n = r_local r then
        (case find_module (module_id (target (w_meta w))) r of
           None \<Rightarrow> Inl Assert_failed
         | Some md \<Rightarrow> bind_res (module_dispatch_msg w md r) (\<lambda>(rc, w', r'). Inr (rc, Some w', r')))
      else if \<not> r_reach r (n_id n) then Inr (-1, Some w, r)
      else
        let w' = set_target (set_node_id (n_id n) (target (w_meta w)))
                   (set_sender (set_node_id (r_local r) (sender (w_meta w))) w)
        in Inr (0, None, r\<lparr>r_sent := r_sent r @ [(n_id n, w')]\<rparr>))"

definition add_delay_task :: "'u delayed \<Rightarrow> 'u rt \<Rightarrow> int \<times> 'u rt" where
  "add_delay_task t r = (if r_pool r then (0, r\<lparr>r_delayed := r_delayed r @ [t]\<rparr>) else (-1, r))"

text \<open>The part of \<open>dispatch\<close> that goes to another node.\<close>

definition dispatch_remote :: "'u wrapper \<Rightarrow> 'u rt \<Rightarrow> (int \<times> 'u wrapper option \<times> 'u rt) res" where
  "dispatch_remote w r =
     (case r_nodes r (node_id (target (w_meta w))) of
        None \<Rightarrow> if r_worker r then Inr (0, Some w, snd (add_delay_task (Redispatch w) r)) else Inr (-2, Some w, r)
      | Some n \<Rightarrow>
          if invalid n then Inr (-1, Some w, r)
          else if (case r_current r of
                     None \<Rightarrow> True
                   | Some p \<Rightarrow>
                       (case r_actors r p of
                          None \<Rightarrow> False
                        | Some a \<Rightarrow> module_id (a_id a) = module_id (sender (w_meta w))))
          then bind_res (node_deliver n w r) (\<lambda>(_, w', r'). Inr (0, w', r'))
          else Inl Assert_failed)"

definition dispatch :: "'u wrapper \<Rightarrow> 'u rt \<Rightarrow> (int \<times> 'u wrapper option \<times> 'u rt) res" where
  "dispatch w r =
     (let tg = target (w_meta w); sd = sender (w_meta w) in
      if is_local (r_local r) tg then
        if is_error (w_meta w) then
          (case r_nodes r (node_id sd) of
             None \<Rightarrow> Inl Assert_failed
           | Some _ \<Rightarrow> Inr (0, Some w, r\<lparr>r_nodes := (r_nodes r)(node_id sd := None)\<rparr>))
        else
          (case find_module (module_id tg) r of
             Some md \<Rightarrow> bind_res (module_dispatch_msg w md r) (\<lambda>(rc, w', r'). Inr (rc, Some w', r'))
           | None \<Rightarrow>
               dispatch_remote
                 (set_sender (set_node_id LOCAL sd)
                   (set_target (set_node_id (node_id sd) tg) (set_type T_ERROR w))) r)
      else dispatch_remote w r)"

text \<open>A request: the current actor as sender, and a saved context when an answer is wanted.\<close>

definition current_actor :: "'u rt \<Rightarrow> (addr \<times> 'u actor) res" where
  "current_actor r =
     (case r_current r of
        None \<Rightarrow> Inl Assert_failed
      | Some p \<Rightarrow> (case r_actors r p of None \<Rightarrow> Inl Use_after_free | Some a \<Rightarrow> Inr (p, a)))"

definition prepare_request ::
  "actor_id \<Rightarrow> u32 \<Rightarrow> 'u wrapper \<Rightarrow> 'u actor \<Rightarrow> bool \<times> 'u wrapper \<times> 'u actor" where
  "prepare_request tgt ret w a =
     (let w1 = set_type T_REQUEST (set_sender (a_id a) (set_target tgt w)) in
      if ret = ANY then (False, w1, a)
      else
        let w2 = set_sender (set_intf_id ret (a_id a)) w1 in
        if reqid (w_meta w2) = 0 then
          (case new_reqid a of (q, a') \<Rightarrow> (True, set_reqid q w2, a'))
        else (False, w2, a))"

definition dispatch_request ::
  "actor_id \<Rightarrow> 'u wrapper \<Rightarrow> u32 \<Rightarrow> addr option \<Rightarrow> 'u rt \<Rightarrow> (int \<times> 'u rt) res" where
  "dispatch_request tgt w ret x r =
     bind_res (current_actor r) (\<lambda>(p, a).
       case prepare_request tgt ret w a of
         (fresh, w1, a1) \<Rightarrow>
           bind_res (dispatch w1 (upd_actor p a1 r)) (\<lambda>(rc, left, r1).
             if \<not> fresh then Inr (rc, r1)
             else
               (case left of
                  None \<Rightarrow> Inl Wild_deref
                | Some w2 \<Rightarrow>
                    bind_res (current_actor r1) (\<lambda>(p', a2).
                      if rc = 0
                      then bind_res (on_async_send_done w2 x a2) (\<lambda>a3. Inr (rc, upd_actor p' a3 r1))
                      else Inr (rc, upd_actor p' (release_reqid (reqid (w_meta w2)) a2) r1)))))"

section \<open>Scatter and gather\<close>

text \<open>
  Dispatching the messages of a group in turn, counting the successes; and the random strategy of
  the load balancer, on the candidate nodes.
\<close>

fun dispatch_all :: "'u wrapper list \<Rightarrow> 'u rt \<Rightarrow> (nat \<times> 'u rt) res" where
  "dispatch_all [] r = Inr (0, r)"
| "dispatch_all (w # ws) r =
     bind_res (dispatch w r) (\<lambda>(rc, _, r1).
       bind_res (dispatch_all ws r1) (\<lambda>(k, r2). Inr (if rc = 0 then k + 1 else k, r2)))"

definition random :: "'u rt \<Rightarrow> u32 \<times> 'u rt" where
  "random r = (rng_random (r_seed r), r\<lparr>r_seed := rng_random (r_seed r)\<rparr>)"

definition select_one_node :: "node list \<Rightarrow> 'u rt \<Rightarrow> (node \<times> 'u rt) res" where
  "select_one_node ns r =
     (if ns = [] then Inl Assert_failed
      else case random r of (x, r') \<Rightarrow> Inr (ns ! (unat x mod length ns), r'))"

definition to_node :: "node \<Rightarrow> 'u wrapper \<Rightarrow> 'u rt \<Rightarrow> (int \<times> 'u rt) res" where
  "to_node n w r =
     bind_res (dispatch (set_target (set_node_id (n_id n) (target (w_meta w))) w) r) (\<lambda>(rc, _, r'). Inr (rc, r'))"

fun scatter_rr :: "node list \<Rightarrow> u32 \<Rightarrow> 'u wrapper list \<Rightarrow> 'u rt \<Rightarrow> (nat \<times> 'u rt) res" where
  "scatter_rr ns x [] r = Inr (0, r)"
| "scatter_rr ns x (w # ws) r =
     bind_res (to_node (ns ! (unat x mod length ns)) w r) (\<lambda>(rc, r1).
       bind_res (scatter_rr ns (x + 1) ws r1) (\<lambda>(k, r2). Inr (if rc = 0 then k + 1 else k, r2)))"

fun scatter_random :: "node list \<Rightarrow> 'u wrapper list \<Rightarrow> 'u rt \<Rightarrow> (nat \<times> 'u rt) res" where
  "scatter_random ns [] r = Inr (0, r)"
| "scatter_random ns (w # ws) r =
     bind_res (select_one_node ns r) (\<lambda>(n, r0).
       bind_res (to_node n w r0) (\<lambda>(rc, r1).
         bind_res (scatter_random ns ws r1) (\<lambda>(k, r2). Inr (if rc = 0 then k + 1 else k, r2))))"

definition scatter_to_nodes :: "node list \<Rightarrow> 'u wrapper list \<Rightarrow> 'u rt \<Rightarrow> (nat \<times> 'u rt) res" where
  "scatter_to_nodes ns ws r =
     (if ns = [] then Inl Assert_failed
      else if length ns < length ws then (case random r of (x, r') \<Rightarrow> scatter_rr ns x ws r')
      else scatter_random ns ws r)"

text \<open>
  \<open>dispatch\<close> of a group, with the request identifier \<open>q\<close> of the group; \<open>cands\<close> is
  \<open>query_node_with_module\<close>.
\<close>

definition prepare_scatter :: "u32 \<Rightarrow> actor_id \<Rightarrow> bool \<Rightarrow> 'u wrapper \<Rightarrow> 'u wrapper" where
  "prepare_scatter q sd loc w =
     (let w1 = set_sender sd (set_reqid q (set_type T_SCATTER w))
      in if loc then set_target (set_node_id LOCAL (target (w_meta w1))) w1 else w1)"

definition dispatch_scatter ::
  "(u32 \<Rightarrow> node list) \<Rightarrow> u32 \<Rightarrow> u32 \<Rightarrow> bool \<Rightarrow> 'u wrapper list \<Rightarrow> 'u rt \<Rightarrow> (int \<times> 'u rt) res" where
  "dispatch_scatter cands q gather_intf directional ws r =
     bind_res (current_actor r) (\<lambda>(p, a).
       let mid = module_id (target (w_meta (hd ws)));
           loc = (\<not> directional \<and> (case find_module mid r of None \<Rightarrow> False | Some md \<Rightarrow> md_private md));
           ws' = map (prepare_scatter q (set_intf_id gather_intf (a_id a)) loc) ws
       in if directional \<or> loc then
            bind_res (dispatch_all ws' r) (\<lambda>(k, r'). Inr (if k = length ws' then 0 else -4, r'))
          else if cands mid \<noteq> [] then
            bind_res (scatter_to_nodes (cands mid) ws' r)
              (\<lambda>(k, r'). Inr (if k = length ws' then 0 else -4, r'))
          else Inr (0, fold (\<lambda>w r. snd (add_delay_task (Rescatter mid w) r)) ws' r))"

text \<open>
  \<open>ScatterToIntf\<close>: null messages are left out of the group; its destructor saves the gather context
  unless the operation failed.
\<close>

fun set_targets :: "u32 \<Rightarrow> u32 \<Rightarrow> u64 list \<Rightarrow> 'u wrapper list \<Rightarrow> 'u wrapper list res" where
  "set_targets mid intf ds [] = Inr []"
| "set_targets mid intf [] (w # ws) = Inl Out_of_range"
| "set_targets mid intf (d # ds) (w # ws) =
     (if GET_REQ_ID d = 0
      then bind_res (set_targets mid intf ds ws)
             (\<lambda>ws'. Inr (set_target4 (GET_NODE_ID d) mid intf (GET_INST_ID d) w # ws'))
      else Inl Assert_failed)"

definition ScatterToIntf ::
  "(u32 \<Rightarrow> node list) \<Rightarrow> u32 \<Rightarrow> u32 \<Rightarrow> u64 list option \<Rightarrow> 'u wrapper option list \<Rightarrow> u32 \<Rightarrow> addr option \<Rightarrow>
   'u rt \<Rightarrow> (int \<times> 'u rt) res" where
  "ScatterToIntf cands mid intf dest mg gather_intf x r =
     (if mg = [] then Inr (-3, r)
      else
        bind_res (current_actor r) (\<lambda>(p, a).
          case new_reqid a of
            (q, a1) \<Rightarrow>
              let r1 = upd_actor p a1 r; ws = map the (filter (\<lambda>m. m \<noteq> None) mg) in
              bind_res (case dest of
                          Some ds \<Rightarrow> set_targets mid intf ds ws
                        | None \<Rightarrow> Inr (map (set_target4 ANY mid intf ANY) ws)) (\<lambda>ws1.
                if length mg \<noteq> length ws1 then Inr (-4, r1)
                else
                  bind_res (dispatch_scatter cands q gather_intf (dest \<noteq> None) ws1 r1) (\<lambda>(rc, r2).
                    if rc \<noteq> 0 then Inr (-4, r2)
                    else
                      bind_res (current_actor r2) (\<lambda>(p', a2).
                        bind_res (on_scatter_done q (length ws1) x a2) (\<lambda>a3. Inr (0, upd_actor p' a3 r2)))))))"

definition InsertToGatherCtx :: "addr \<Rightarrow> 'u wrapper \<Rightarrow> 'u actor \<Rightarrow> 'u actor res" where
  "InsertToGatherCtx c w a =
     (case a_ctxs a c of
        Some x \<Rightarrow>
          (case c_kind x of
             Gather d n ms \<Rightarrow> Inr (a\<lparr>a_ctxs := (a_ctxs a)(c \<mapsto> x\<lparr>c_kind := Gather d n (ms @ [w])\<rparr>)\<rparr>)
           | Plain \<Rightarrow> Inl Wild_deref)
      | None \<Rightarrow> Inl Use_after_free)"

text \<open>An answer to a message: gather for a scattered one, else response.\<close>

definition reply_kind :: "'u wrapper \<Rightarrow> u16" where
  "reply_kind ini = (if is_scatter (w_meta ini) then T_GATHER else T_RESPONSE)"

definition reply_to :: "u16 \<Rightarrow> 'u wrapper \<Rightarrow> actor_id \<Rightarrow> 'u wrapper \<Rightarrow> 'u wrapper" where
  "reply_to t ini self w =
     set_target (sender (w_meta ini)) (set_sender self (set_reqid (reqid (w_meta ini)) (set_type t w)))"

definition SwitchToGatherCtx ::
  "addr \<Rightarrow> ('u wrapper list \<Rightarrow> 'u wrapper option) \<Rightarrow> 'u rt \<Rightarrow> 'u rt res" where
  "SwitchToGatherCtx c cb r =
     bind_res (current_actor r) (\<lambda>(p, a).
       case a_ctxs a c of
         None \<Rightarrow> Inl Use_after_free
       | Some x \<Rightarrow>
           (case c_kind x of
              Plain \<Rightarrow> Inl Wild_deref
            | Gather d n ms \<Rightarrow>
                if length ms \<noteq> unat n then Inr r
                else
                  bind_res
                    (case cb ms of
                       None \<Rightarrow> Inr r
                     | Some resp \<Rightarrow>
                         (case c_initiator x of
                            None \<Rightarrow> Inl Assert_failed
                          | Some ini \<Rightarrow>
                              bind_res (dispatch (reply_to (reply_kind ini) ini (a_id a) resp) r) (\<lambda>(_, _, r'). Inr r')))
                    (\<lambda>r1. bind_res (current_actor r1) (\<lambda>(p', a').
                       case a_ctxs a' c of
                         None \<Rightarrow> Inl Use_after_free
                       | Some x' \<Rightarrow>
                           Inr (upd_actor p' (a'\<lparr>a_ctxs := (a_ctxs a')(c \<mapsto> x'\<lparr>c_kind := Gather True n ms\<rparr>)\<rparr>) r1)))))"

section \<open>Handling a message\<close>

text \<open>
  \<open>invoke_message\<close>: the callback of the interface, called directly or on a fiber, gets the message,
  the gather context if there is one, and the runtime, which it may use; it returns an answer or
  nothing.
\<close>

type_synonym 'u callback = "u32 \<Rightarrow> 'u wrapper \<Rightarrow> addr option \<Rightarrow> 'u rt \<Rightarrow> ('u wrapper option \<times> 'u rt) res"

definition gather_ctx :: "'u actor \<Rightarrow> addr option" where
  "gather_ctx a =
     (case a_current_ctx a of
        None \<Rightarrow> None
      | Some c \<Rightarrow>
          (case a_ctxs a c of
             Some x \<Rightarrow> (case c_kind x of Gather d n ms \<Rightarrow> Some c | Plain \<Rightarrow> None)
           | None \<Rightarrow> None))"

definition invoke_message :: "'u callback \<Rightarrow> module \<Rightarrow> addr \<Rightarrow> 'u wrapper \<Rightarrow> 'u rt \<Rightarrow> (int \<times> 'u rt) res" where
  "invoke_message cb md p w r =
     (case r_actors r p of
        None \<Rightarrow> Inl Use_after_free
      | Some a \<Rightarrow>
          let k = unat (intf_id (target (w_meta w))); g = gather_ctx a in
          if length (md_intfs md) \<le> k \<or> fst (md_intfs md ! k) = INTF_INVALID \<or> \<not> snd (md_intfs md ! k)
          then Inl Assert_failed
          else
            let w1 = (if g \<noteq> None \<and> is_response (w_meta w) then set_type T_GATHER w else w) in
            if (g \<noteq> None) \<noteq> is_gather (w_meta w1) then Inl Assert_failed
            else
              bind_res (cb (intf_id (target (w_meta w1))) w1 g r) (\<lambda>(ret, r1).
                case ret of
                  None \<Rightarrow> Inr (MODULE_OK, r1)
                | Some resp \<Rightarrow>
                    bind_res
                      (if is_response (w_meta w1) then
                         (case a_current_ctx a of
                            None \<Rightarrow> Inl Assert_failed
                          | Some c \<Rightarrow>
                              (case r_actors r1 p of
                                 None \<Rightarrow> Inl Use_after_free
                               | Some a1 \<Rightarrow>
                                   (case a_ctxs a1 c of
                                      None \<Rightarrow> Inl Use_after_free
                                    | Some x \<Rightarrow>
                                        (case c_initiator x of None \<Rightarrow> Inl Wild_deref | Some i \<Rightarrow> Inr i))))
                       else Inr w1)
                      (\<lambda>ini. bind_res (dispatch (reply_to (reply_kind ini) ini (a_id a) resp) r1)
                        (\<lambda>(_, _, r2). Inr (MODULE_OK, r2)))))"

section \<open>The interface for module code\<close>

text \<open>The name service looks into the location cache of the module and then into its table.\<close>

definition search_location_cache :: "u64 \<Rightarrow> module \<Rightarrow> actor_id option" where
  "search_location_cache i md = md_loc_cache md i"

definition insert_location_cache :: "u64 \<Rightarrow> actor_id \<Rightarrow> module \<Rightarrow> module" where
  "insert_location_cache i a md =
     (if md_loc_cache md i = None then md\<lparr>md_loc_cache := (md_loc_cache md)(i \<mapsto> a)\<rparr> else md)"

definition search_location :: "u64 \<Rightarrow> module \<Rightarrow> actor_id option \<times> module" where
  "search_location i md =
     (case md_locs md i of None \<Rightarrow> (None, md) | Some a \<Rightarrow> (Some a, insert_location_cache i a md))"

definition get_actor_addr :: "u32 \<Rightarrow> u64 \<Rightarrow> 'u rt \<Rightarrow> (actor_id option \<times> 'u rt) res" where
  "get_actor_addr mid i r =
     (case find_module mid r of
        None \<Rightarrow> Inl Wild_deref
      | Some md \<Rightarrow>
          (case search_location_cache i md of
             Some a \<Rightarrow> Inr (Some a, r)
           | None \<Rightarrow>
               (case search_location i md of
                  (res, md') \<Rightarrow> Inr (res, r\<lparr>r_modules := (r_modules r)(ucast mid \<mapsto> md')\<rparr>))))"

definition SendMsgToIntf ::
  "u32 \<Rightarrow> u32 \<Rightarrow> u64 \<Rightarrow> 'u wrapper \<Rightarrow> u32 \<Rightarrow> addr option \<Rightarrow> 'u rt \<Rightarrow> (int \<times> 'u rt) res" where
  "SendMsgToIntf mid intf inst w ret_intf x r =
     bind_res (get_actor_addr mid inst r) (\<lambda>(loc, r1).
       let nd = (case loc of None \<Rightarrow> LOCAL | Some a \<Rightarrow> node_id a)
       in dispatch_request (ActorID nd mid (ucast inst) intf) w ret_intf x r1)"

text \<open>
  The synchronous variant up to the wait for the answer: \<open>fiber\<close> is the identifier of the fiber the
  caller runs on.
\<close>

definition SendMsgToIntfAndRecv ::
  "u32 \<Rightarrow> u32 \<Rightarrow> u64 \<Rightarrow> 'u wrapper \<Rightarrow> u32 \<Rightarrow> 'u rt \<Rightarrow> (int \<times> 'u rt) res" where
  "SendMsgToIntfAndRecv mid intf inst w fiber r =
     (if GET_REQ_ID inst \<noteq> 0 then Inl Assert_failed
      else
        bind_res (current_actor r) (\<lambda>(p, a).
          case a_message a of
            None \<Rightarrow> Inl Wild_deref
          | Some cur \<Rightarrow>
              dispatch_request (ActorID (GET_NODE_ID inst) mid intf (GET_INST_ID inst))
                (set_reqid fiber w) (intf_id (target (w_meta cur))) None r))"

definition SaveReturnState :: "addr option \<Rightarrow> 'u rt \<Rightarrow> (addr \<times> 'u rt) res" where
  "SaveReturnState vt r =
     bind_res (current_actor r) (\<lambda>(p, a).
       bind_res (save_return_state vt a) (\<lambda>(c, a'). Inr (c, upd_actor p a' r)))"

text \<open>\<open>ReplyMsg\<close>: \<open>vt\<close> is the type table of the message.\<close>

definition ReplyMsg :: "addr option \<Rightarrow> addr \<Rightarrow> 'u wrapper \<Rightarrow> 'u rt \<Rightarrow> (int \<times> 'u rt) res" where
  "ReplyMsg rid vt w r =
     bind_res (current_actor r) (\<lambda>(p, a).
       case rid of
         None \<Rightarrow> Inr (-4, r)
       | Some c \<Rightarrow>
           (case a_ctxs a c of
              None \<Rightarrow> Inl Use_after_free
            | Some x \<Rightarrow>
                if c_ctx x \<noteq> None \<and> c_ctx x \<noteq> Some vt then Inr (-5, r)
                else
                  (case c_initiator x of
                     None \<Rightarrow> Inl Wild_deref
                   | Some ini \<Rightarrow>
                       if is_request (w_meta ini) \<or> is_scatter (w_meta ini) then
                         bind_res (dispatch
                             (reply_to (if is_request (w_meta ini) then T_RESPONSE else T_GATHER) ini (a_id a) w)
                             (upd_actor p (a\<lparr>a_ctxs := (a_ctxs a)(c := None)\<rparr>) r))
                           (\<lambda>(rc, _, r'). Inr (rc, r'))
                       else Inl Assert_failed)))"

text \<open>A message to the caller itself, kept until the lock is granted or the event happens.\<close>

definition beforeAsyncCall :: "'u wrapper \<Rightarrow> u32 \<Rightarrow> 'u rt \<Rightarrow> ('u wrapper \<times> 'u rt) res" where
  "beforeAsyncCall w ret_intf r =
     bind_res (current_actor r) (\<lambda>(p, a).
       case new_reqid a of
         (q, a1) \<Rightarrow>
           let w1 = set_target (set_intf_id ret_intf (a_id a)) (set_reqid q (set_type T_RESPONSE w)) in
           bind_res (on_async_send_done w1 None a1) (\<lambda>a2. Inr (w1, upd_actor p a2 r)))"

text \<open>Events of strong actors; the event is a message without data to the fiber that waits.\<close>

definition CreateEvent :: "u32 \<Rightarrow> 'u rt \<Rightarrow> 'u wrapper res" where
  "CreateEvent fiber r =
     bind_res (current_actor r) (\<lambda>(p, a).
       case a_message a of
         None \<Rightarrow> Inl Wild_deref
       | Some cur \<Rightarrow>
           Inr (set_type T_RESPONSE (set_reqid fiber (set_target (set_intf_id (intf_id (target (w_meta cur))) (a_id a))
             (wrap_stream None 0)))))"

definition NotifyEvent :: "'u wrapper \<Rightarrow> u8 list option \<Rightarrow> 'u rt \<Rightarrow> (int \<times> 'u rt) res" where
  "NotifyEvent ev bs r =
     bind_res (current_actor r) (\<lambda>(p, a).
       bind_res (dispatch (set_stream_data bs (set_sender (a_id a) ev)) r) (\<lambda>(rc, _, r'). Inr (rc, r')))"

definition notified_data :: "'u wrapper \<Rightarrow> u8 list option \<times> 'u wrapper" where
  "notified_data w = (get_stream_data w, set_stream_data None w)"

definition GetMyInstID :: "'u rt \<Rightarrow> u64 res" where
  "GetMyInstID r = bind_res (current_actor r) (\<lambda>(p, a). Inr (TO_INST_ID (r_local r) (a_id a) 0))"

definition GetSenderInstID :: "'u rt \<Rightarrow> u64 res" where
  "GetSenderInstID r =
     bind_res (current_actor r) (\<lambda>(p, a).
       case a_message a of
         None \<Rightarrow> Inl Assert_failed
       | Some w \<Rightarrow> Inr (TO_INST_ID (r_local r) (sender (w_meta w)) (reqid (w_meta w))))"

definition GetSavedCtx :: "'u rt \<Rightarrow> addr option res" where
  "GetSavedCtx r =
     bind_res (current_actor r) (\<lambda>(p, a).
       case a_current_ctx a of
         None \<Rightarrow> Inr None
       | Some c \<Rightarrow> (case a_ctxs a c of None \<Rightarrow> Inl Use_after_free | Some x \<Rightarrow> Inr (c_ctx x)))"

section \<open>Properties\<close>

lemma meta_simps [simp]:
  "w_meta (set_sender i w) = (w_meta w)\<lparr>sender := i\<rparr>" "w_meta (set_target i w) = (w_meta w)\<lparr>target := i\<rparr>"
  "w_meta (set_reqid q w) = (w_meta w)\<lparr>reqid := q\<rparr>" "w_meta (set_type t w) = set_metatype t (w_meta w)"
  by (simp_all add: set_sender_def set_target_def set_reqid_def set_type_def)

lemma metatype_simps [simp]:
  "reqid (set_metatype t m) = reqid m" "sender (set_metatype t m) = sender m"
  "target (set_metatype t m) = target m" "mtype (set_metatype t m) = t"
  by (simp_all add: set_metatype_def)

lemma has_type_frame [simp]:
  "has_type t (m\<lparr>sender := i\<rparr>) = has_type t m" "has_type t (m\<lparr>target := i\<rparr>) = has_type t m"
  "has_type t (m\<lparr>reqid := q\<rparr>) = has_type t m"
  by (simp_all add: has_type_def)

lemma is_reply_reply_to [simp]: "is_reply (reply_to (reply_kind ini) ini self w)"
  by (simp add: is_reply_def reply_to_def reply_kind_def has_type_def type_codes)

lemma reply_to_meta [simp]:
  "reqid (w_meta (reply_to t ini self w)) = reqid (w_meta ini)"
  "target (w_meta (reply_to t ini self w)) = sender (w_meta ini)"
  by (simp_all add: reply_to_def)

lemma request_not_error [simp]: "\<not> is_error (set_metatype T_REQUEST m)"
  by (simp add: has_type_def type_codes)

text \<open>A message for an instance that exists goes to its mailbox, and nothing else changes.\<close>

lemma module_dispatch_existing:
  assumes "md_insts md inst = Some q" "r_actors r q = Some b" "bx_mark (a_box b) \<noteq> Box_closed"
  shows "module_dispatch inst intf w md r =
    (let w' = set_target (set_intf_id intf (a_id b)) w in
     Inr (0, w', r\<lparr>r_actors := (r_actors r)(q \<mapsto> b\<lparr>a_box := snd (box_enqueue w' (a_box b))\<rparr>),
       r_ready := (if bx_mark (a_box b) = Box_blocked then r_ready r @ [q] else r_ready r)\<rparr>))"
  using assms
  by (cases "bx_mark (a_box b)")
    (auto simp: module_dispatch_def select_or_create_instance_def deliver_to_def deliver_message_def
      box_enqueue_def upd_actor_def MODULE_OK_def Let_def)

lemma dispatch_local:
  assumes "is_local (r_local r) (target (w_meta w))" "\<not> is_error (w_meta w)"
    and "find_module (module_id (target (w_meta w))) r = Some md"
  shows "dispatch w r = bind_res (module_dispatch_msg w md r) (\<lambda>(rc, w', r'). Inr (rc, Some w', r'))"
  using assms by (simp add: dispatch_def)


definition demo_rt :: "nat rt" where
  "demo_rt =
     \<lparr>r_local = 7, r_modules = [2 \<mapsto> (Module_new 2 0 4 [(INTF_NORMAL, True)])\<lparr>md_insts := [5 \<mapsto> 1]\<rparr>],
      r_actors = [0 \<mapsto> Actor_new (ActorID 7 1 3 0), 1 \<mapsto> Actor_new (ActorID 7 2 5 0)], r_next = 2,
      r_nodes = Map.empty, r_reach = (\<lambda>_. False), r_current = Some 0, r_worker = True, r_pool = True,
      r_ready = [], r_sent = [], r_delayed = [], r_seed = 1\<rparr>"

definition demo_msg :: "nat wrapper" where
  "demo_msg = \<lparr>w_meta = zero_meta, w_data = User_data (Some 42)\<rparr>"


text \<open>
  C27. A request for another node that wants an answer ends in the dereference of a null pointer: the
  message is handed to the connection, which empties the caller's pointer, and only then is its
  request identifier read to save the context.
\<close>

theorem remote_request_null_deref:
  assumes "r_current r = Some p" "r_actors r p = Some a" "\<not> is_local (r_local r) tgt"
    and "r_nodes r (node_id tgt) = Some n" "\<not> invalid n" "n_id n \<noteq> r_local r" "r_reach r (n_id n)"
    and "ret \<noteq> ANY" "reqid (w_meta w) = 0"
  shows "dispatch_request tgt w ret x r = Inl Wild_deref"
proof -
  obtain k a1 where k: "new_reqid a = (k, a1)" by force
  have "a_id a1 = a_id a" using k by (auto simp: new_reqid_def split: if_splits)
  moreover have "module_id (set_intf_id ret (a_id a)) = module_id (a_id a)"
    by (simp add: module_id_def set_intf_id_def)
  ultimately show ?thesis
    using assms k
    by (simp add: dispatch_request_def current_actor_def prepare_request_def Let_def dispatch_def
      dispatch_remote_def node_deliver_def upd_actor_def)
qed

theorem remote_request_null_deref_witness:
  "dispatch_request (ActorID 4 2 5 0) demo_msg 9 None
     (demo_rt\<lparr>r_nodes := [4 \<mapsto> Node_new 4 ''10.0.0.4'' 80 0 0], r_reach := (\<lambda>_. True)\<rparr>) = Inl Wild_deref"
  by (rule remote_request_null_deref [where a = "Actor_new (ActorID 7 1 3 0)" and p = 0 and n = "Node_new 4 ''10.0.0.4'' 80 0 0"])
    (simp_all add: demo_rt_def demo_msg_def zero_meta_def is_local_def node_id_def ActorID_def LOCAL_def
      invalid_def Node_new_def invalid_node_def ANY_def)

text \<open>
  C28. A module never finds an instance again that it created for a message (unless its number is
  0xffff): the identifier is built with instance and interface exchanged, and every instance is
  entered under 0xffff.  Two messages for the same instance go to two different actors.
\<close>

theorem instance_never_found:
  assumes "r_modules r (md_id md) = Some md" "md_insts md inst = None" "inst \<noteq> ANY"
    and "select_or_create_instance inst md r = (p, r1)"
  shows "\<exists>md1. r_modules r1 (md_id md) = Some md1 \<and> md_insts md1 inst = None \<and>
    fst (select_or_create_instance inst md1 r1) \<noteq> p"
  using assms
  by (auto simp: select_or_create_instance_def create_instance_def Let_def instance_id_def ActorID_def)

theorem instance_never_found_witness:
  "\<exists>md1. r_modules (snd (select_or_create_instance 6 (the (r_modules demo_rt 2)) demo_rt)) 2 = Some md1 \<and>
     md_insts md1 6 = None"
proof -
  let ?md = "the (r_modules demo_rt 2)"
  have md: "r_modules demo_rt (md_id ?md) = Some ?md" "md_insts ?md 6 = None" "md_id ?md = 2"
    by (simp_all add: demo_rt_def Module_new_def)
  have "(6 :: u32) \<noteq> ANY" by (simp add: ANY_def)
  from instance_never_found [OF md(1,2) this, of _ "snd (select_or_create_instance 6 ?md demo_rt)"] md(3)
  show ?thesis by (metis prod.collapse)
qed

end
