(* ===== verification/Jenkins.thy ===== *)
theory Jenkins
  imports Prelude
begin

text \<open>
  The hash of the key-value store, \<open>jenkins_hash\<close> of \<open>KV-Store/app/Hash/Hash.c\<close>: it reads the key
  by 32-bit words, 16-bit words or bytes, as its address allows.  The lemmas show that the three
  ways agree, that the words read beyond the end of the key are masked out, and that the mixing
  step loses nothing.
\<close>

section \<open>The hash function\<close>

definition rot :: "u32 \<Rightarrow> nat \<Rightarrow> u32" where
  "rot x k = push_bit k x XOR drop_bit (32 - k) x"

type_synonym abc = "u32 \<times> u32 \<times> u32"

definition mix_a :: "nat \<Rightarrow> abc \<Rightarrow> abc" where
  "mix_a k = (\<lambda>(a, b, c). let a = (a - c) XOR rot c k in (a, b, c + b))"
definition mix_b :: "nat \<Rightarrow> abc \<Rightarrow> abc" where
  "mix_b k = (\<lambda>(a, b, c). let b = (b - a) XOR rot a k in (a + c, b, c))"
definition mix_c :: "nat \<Rightarrow> abc \<Rightarrow> abc" where
  "mix_c k = (\<lambda>(a, b, c). let c = (c - b) XOR rot b k in (a, b + a, c))"

definition mix :: "abc \<Rightarrow> abc" where
  "mix s = mix_c 4 (mix_b 19 (mix_a 16 (mix_c 8 (mix_b 6 (mix_a 4 s)))))"

definition final :: "abc \<Rightarrow> abc" where
  "final = (\<lambda>(a, b, c).
     let c = (c XOR b) - rot b 14; a = (a XOR c) - rot c 11; b = (b XOR a) - rot a 25;
         c = (c XOR b) - rot b 16; a = (a XOR c) - rot c 4; b = (b XOR a) - rot a 14;
         c = (c XOR b) - rot b 24
     in (a, b, c))"

text \<open>
  Memory from the key on, also beyond its end: bytes, and the 16- and 32-bit words of a
  little-endian machine.
\<close>

type_synonym bytes = "nat \<Rightarrow> u8"

definition k8 :: "bytes \<Rightarrow> nat \<Rightarrow> u32" where
  "k8 m i = ucast (m i)"

definition k16 :: "bytes \<Rightarrow> nat \<Rightarrow> u32" where
  "k16 m i = k8 m (2 * i) + push_bit 8 (k8 m (2 * i + 1))"

definition k32 :: "bytes \<Rightarrow> nat \<Rightarrow> u32" where
  "k32 m i = k8 m (4 * i) + push_bit 8 (k8 m (4 * i + 1)) + push_bit 16 (k8 m (4 * i + 2)) +
     push_bit 24 (k8 m (4 * i + 3))"

abbreviation shift :: "nat \<Rightarrow> bytes \<Rightarrow> bytes" where
  "shift n m \<equiv> \<lambda>i. m (n + i)"

text \<open>The three loops over all but the last block.\<close>

fun loop32 :: "nat \<Rightarrow> bytes \<Rightarrow> abc \<Rightarrow> nat \<times> bytes \<times> abc" where
  "loop32 n m (a, b, c) =
     (if 12 < n then loop32 (n - 12) (shift 12 m) (mix (a + k32 m 0, b + k32 m 1, c + k32 m 2))
      else (n, m, a, b, c))"

fun loop16 :: "nat \<Rightarrow> bytes \<Rightarrow> abc \<Rightarrow> nat \<times> bytes \<times> abc" where
  "loop16 n m (a, b, c) =
     (if 12 < n then
        loop16 (n - 12) (shift 12 m)
          (mix (a + (k16 m 0 + push_bit 16 (k16 m 1)), b + (k16 m 2 + push_bit 16 (k16 m 3)),
                c + (k16 m 4 + push_bit 16 (k16 m 5))))
      else (n, m, a, b, c))"

fun loop8 :: "nat \<Rightarrow> bytes \<Rightarrow> abc \<Rightarrow> nat \<times> bytes \<times> abc" where
  "loop8 n m (a, b, c) =
     (if 12 < n then
        loop8 (n - 12) (shift 12 m)
          (mix (a + k8 m 0 + push_bit 8 (k8 m 1) + push_bit 16 (k8 m 2) + push_bit 24 (k8 m 3),
                b + k8 m 4 + push_bit 8 (k8 m 5) + push_bit 16 (k8 m 6) + push_bit 24 (k8 m 7),
                c + k8 m 8 + push_bit 8 (k8 m 9) + push_bit 16 (k8 m 10) + push_bit 24 (k8 m 11)))
      else (n, m, a, b, c))"

declare loop32.simps [simp del] loop16.simps [simp del] loop8.simps [simp del]

text \<open>The three switches for the last block, of at most twelve bytes; \<open>None\<close> returns \<open>c\<close> unmixed.\<close>

fun last32 :: "nat \<times> bytes \<times> abc \<Rightarrow> abc option" where
  "last32 (n, m, a, b, c) =
     (if n = 12 then Some (a + k32 m 0, b + k32 m 1, c + k32 m 2)
      else if n = 11 then Some (a + k32 m 0, b + k32 m 1, c + (k32 m 2 AND 0xffffff))
      else if n = 10 then Some (a + k32 m 0, b + k32 m 1, c + (k32 m 2 AND 0xffff))
      else if n = 9 then Some (a + k32 m 0, b + k32 m 1, c + (k32 m 2 AND 0xff))
      else if n = 8 then Some (a + k32 m 0, b + k32 m 1, c)
      else if n = 7 then Some (a + k32 m 0, b + (k32 m 1 AND 0xffffff), c)
      else if n = 6 then Some (a + k32 m 0, b + (k32 m 1 AND 0xffff), c)
      else if n = 5 then Some (a + k32 m 0, b + (k32 m 1 AND 0xff), c)
      else if n = 4 then Some (a + k32 m 0, b, c)
      else if n = 3 then Some (a + (k32 m 0 AND 0xffffff), b, c)
      else if n = 2 then Some (a + (k32 m 0 AND 0xffff), b, c)
      else if n = 1 then Some (a + (k32 m 0 AND 0xff), b, c)
      else None)"

fun last16 :: "nat \<times> bytes \<times> abc \<Rightarrow> abc option" where
  "last16 (n, m, a, b, c) =
     (let wa = k16 m 0 + push_bit 16 (k16 m 1); wb = k16 m 2 + push_bit 16 (k16 m 3) in
      if n = 12 then Some (a + wa, b + wb, c + (k16 m 4 + push_bit 16 (k16 m 5)))
      else if n = 11 then Some (a + wa, b + wb, c + push_bit 16 (k8 m 10) + k16 m 4)
      else if n = 10 then Some (a + wa, b + wb, c + k16 m 4)
      else if n = 9 then Some (a + wa, b + wb, c + k8 m 8)
      else if n = 8 then Some (a + wa, b + wb, c)
      else if n = 7 then Some (a + wa, b + push_bit 16 (k8 m 6) + k16 m 2, c)
      else if n = 6 then Some (a + wa, b + k16 m 2, c)
      else if n = 5 then Some (a + wa, b + k8 m 4, c)
      else if n = 4 then Some (a + wa, b, c)
      else if n = 3 then Some (a + push_bit 16 (k8 m 2) + k16 m 0, b, c)
      else if n = 2 then Some (a + k16 m 0, b, c)
      else if n = 1 then Some (a + k8 m 0, b, c)
      else None)"

text \<open>In the byte-wise switch all the cases fall through.\<close>

definition part :: "bytes \<Rightarrow> nat \<Rightarrow> nat \<Rightarrow> u32 \<Rightarrow> u32" where
  "part m base n x =
     (let x = (if base + 3 < n then x + push_bit 24 (k8 m (base + 3)) else x);
          x = (if base + 2 < n then x + push_bit 16 (k8 m (base + 2)) else x);
          x = (if base + 1 < n then x + push_bit 8 (k8 m (base + 1)) else x)
      in if base < n then x + k8 m base else x)"

fun last8 :: "nat \<times> bytes \<times> abc \<Rightarrow> abc option" where
  "last8 (n, m, a, b, c) = (if n = 0 then None else Some (part m 0 n a, part m 4 n b, part m 8 n c))"

definition finish :: "nat \<times> bytes \<times> abc \<Rightarrow> abc option \<Rightarrow> u32" where
  "finish s r = (case r of None \<Rightarrow> snd (snd (snd (snd s))) | Some t \<Rightarrow> snd (snd (final t)))"

text \<open>\<open>addr\<close> is the address of the key, which decides on the way it is read.\<close>

definition jenkins_hash :: "nat \<Rightarrow> bytes \<Rightarrow> nat \<Rightarrow> u32" where
  "jenkins_hash addr m n =
     (let x = 0xdeadbeef + of_nat n; s = (x, x, x) in
      if addr mod 4 = 0 then (let t = loop32 n m s in finish t (last32 t))
      else if addr mod 2 = 0 then (let t = loop16 n m s in finish t (last16 t))
      else (let t = loop8 n m s in finish t (last8 t)))"

section \<open>All ways of reading the key agree\<close>

lemma words32:
  "k32 m 0 = k8 m 0 + push_bit 8 (k8 m 1) + push_bit 16 (k8 m 2) + push_bit 24 (k8 m 3)"
  "k32 m 1 = k8 m 4 + push_bit 8 (k8 m 5) + push_bit 16 (k8 m 6) + push_bit 24 (k8 m 7)"
  "k32 m 2 = k8 m 8 + push_bit 8 (k8 m 9) + push_bit 16 (k8 m 10) + push_bit 24 (k8 m 11)"
  by (simp_all add: k32_def flip: numeral_2_eq_2)

lemma words16:
  "k16 m 0 + push_bit 16 (k16 m 1) = k32 m 0" "k16 m 2 + push_bit 16 (k16 m 3) = k32 m 1"
  "k16 m 4 + push_bit 16 (k16 m 5) = k32 m 2"
  by (simp_all add: k16_def k32_def push_bit_add add.assoc flip: numeral_2_eq_2)

lemma loop16_32: "loop16 n m s = loop32 n m s"
proof (induction n m s rule: loop32.induct)
  case (1 n m a b c)
  then show ?case by (subst loop16.simps, subst loop32.simps) (simp add: words16 del: One_nat_def)
qed

lemma loop8_32: "loop8 n m s = loop32 n m s"
proof (induction n m s rule: loop32.induct)
  case (1 n m a b c)
  show ?case
    unfolding loop8.simps [of n] loop32.simps [of n]
    using 1 by (simp add: words32 add.assoc del: One_nat_def)
qed

lemma bit_k8: "bit (k8 m i) j \<longleftrightarrow> j < 8 \<and> bit (m i) j"
  by (auto simp: k8_def bit_simps dest: bit_imp_le_length)

lemma add_push_or:
  assumes "\<And>j. bit x j \<Longrightarrow> j < n"
  shows "x + push_bit n y = x OR push_bit n (y :: u32)"
  by (rule disjunctive_add) (use assms in \<open>force simp: bit_simps\<close>)

lemma two_bytes: "k8 m i + push_bit 8 (k8 m j) = k8 m i OR push_bit 8 (k8 m j)"
  by (rule add_push_or) (simp add: bit_k8)

lemma three_bytes:
  "k8 m i + push_bit 8 (k8 m j) + push_bit 16 (k8 m k) =
   k8 m i OR push_bit 8 (k8 m j) OR push_bit 16 (k8 m k)"
  unfolding two_bytes by (subst add_push_or) (auto simp: bit_simps bit_k8 or.assoc)

lemma four_bytes:
  "k8 m i + push_bit 8 (k8 m j) + push_bit 16 (k8 m k) + push_bit 24 (k8 m l) =
   k8 m i OR push_bit 8 (k8 m j) OR push_bit 16 (k8 m k) OR push_bit 24 (k8 m l)"
  unfolding three_bytes by (subst add_push_or) (auto simp: bit_simps bit_k8 or.assoc)

lemma and_masks:
  "x AND 0xff = take_bit 8 (x :: u32)" "x AND 0xffff = take_bit 16 x" "x AND 0xffffff = take_bit 24 x"
  by (simp_all add: take_bit_eq_mask mask_eq_exp_minus_1)

lemma mask_words:
  "k32 m i AND 0xff = k8 m (4 * i)"
  "k32 m i AND 0xffff = k8 m (4 * i) + push_bit 8 (k8 m (4 * i + 1))"
  "k32 m i AND 0xffffff = k8 m (4 * i) + push_bit 8 (k8 m (4 * i + 1)) + push_bit 16 (k8 m (4 * i + 2))"
  unfolding k32_def four_bytes and_masks unfolding three_bytes unfolding two_bytes
  by (rule bit_word_eqI; auto simp: bit_simps bit_k8)+

lemma last_cases: "n \<le> 12 \<Longrightarrow> n \<in> {12, 11, 10, 9, 8, 7, 6, 5, 4, 3, 2, 1, 0 :: nat}"
  unfolding insert_iff empty_iff by presburger

lemma last16_32: "n \<le> 12 \<Longrightarrow> last16 (n, m, a, b, c) = last32 (n, m, a, b, c)"
  unfolding last16.simps last32.simps Let_def words16 mask_words
  by (drule last_cases) (elim insertE emptyE; simp add: k16_def algebra_simps flip: numeral_2_eq_2)

lemma last8_32: "n \<le> 12 \<Longrightarrow> last8 (n, m, a, b, c) = last32 (n, m, a, b, c)"
  unfolding last8.simps last32.simps mask_words unfolding words32
  by (drule last_cases) (elim insertE emptyE; simp add: part_def algebra_simps flip: numeral_2_eq_2)

lemma loop32_le: "fst (loop32 n m s) \<le> 12"
proof (induction n m s rule: loop32.induct)
  case (1 n m a b c)
  then show ?case by (subst loop32.simps) auto
qed

lemma jenkins_aligned: "jenkins_hash addr m n = jenkins_hash 0 m n"
proof -
  let ?x = "0xdeadbeef + of_nat n :: u32"
  obtain n' m' a b c where t: "loop32 n m (?x, ?x, ?x) = (n', m', a, b, c)"
    by (metis prod_cases5)
  have "n' \<le> 12" using loop32_le [of n m "(?x, ?x, ?x)"] by (simp add: t)
  then show ?thesis
    by (simp add: jenkins_hash_def Let_def loop16_32 loop8_32 t last16_32 last8_32
        del: last16.simps last8.simps last32.simps)
qed

text \<open>Only the bytes of the key matter, although the aligned variants read beyond them.\<close>

lemma loop8_cong:
  assumes "\<And>i. i < n \<Longrightarrow> m i = m' i"
  shows "loop8 n m s = (n', p, t) \<Longrightarrow>
    \<exists>p'. loop8 n m' s = (n', p', t) \<and> (\<forall>i<n'. p i = p' i)"
  using assms
proof (induction n m s arbitrary: m' rule: loop8.induct)
  case (1 n m a b c)
  show ?case
  proof (cases "12 < n")
    case True
    have eq: "k8 m i = k8 m' i" if "i < 12" for i
      using 1(3) [of i] that True by (simp add: k8_def)
    show ?thesis
      using 1(1) [OF True, of "shift 12 m'"] 1(2) 1(3) True
      by (subst loop8.simps, subst (asm) (2) loop8.simps) (simp add: eq)
  next
    case False
    then show ?thesis using 1(2,3) unfolding loop8.simps [of n] by simp
  qed
qed

lemma jenkins_cong:
  assumes "\<And>i. i < n \<Longrightarrow> m i = m' i"
  shows "jenkins_hash addr m n = jenkins_hash addr' m' n"
proof -
  let ?x = "0xdeadbeef + of_nat n :: u32"
  obtain n' p a b c where t: "loop8 n m (?x, ?x, ?x) = (n', p, a, b, c)"
    by (metis prod_cases5)
  then obtain p' where t': "loop8 n m' (?x, ?x, ?x) = (n', p', a, b, c)" "\<And>i. i < n' \<Longrightarrow> p i = p' i"
    using loop8_cong [OF assms t] by auto
  then have "last8 (n', p, a, b, c) = last8 (n', p', a, b, c)"
    by (auto simp: part_def k8_def)
  with t t' have "jenkins_hash 1 m n = jenkins_hash 1 m' n"
    by (simp add: jenkins_hash_def Let_def finish_def del: last8.simps split: option.split)
  then show ?thesis using jenkins_aligned [of addr m] jenkins_aligned [of 1 m]
      jenkins_aligned [of addr' m'] jenkins_aligned [of 1 m'] by simp
qed

text \<open>
  C29. The hash of a key depends on its bytes only: not on the address it lies at, which decides
  whether the code reads it by 32-bit words, 16-bit words or bytes, and not on the memory behind
  the key, which the aligned variants also read.
\<close>

theorem jenkins_reads_agree:
  assumes "\<And>i. i < n \<Longrightarrow> m i = m' i"
  shows "jenkins_hash addr m n = jenkins_hash addr' m' n"
  using assms by (rule jenkins_cong)

theorem jenkins_reads_agree_witness:
  "jenkins_hash 0 (\<lambda>i. if i < 5 then of_nat i else 7) 5 =
   jenkins_hash 3 (\<lambda>i. if i < 5 then of_nat i else 9) 5"
  by (rule jenkins_reads_agree) simp

section \<open>Mixing\<close>

text \<open>The step can be undone, so distinct states stay distinct.\<close>

definition unmix_a :: "nat \<Rightarrow> abc \<Rightarrow> abc" where
  "unmix_a k = (\<lambda>(a, b, c). let c = c - b in ((a XOR rot c k) + c, b, c))"
definition unmix_b :: "nat \<Rightarrow> abc \<Rightarrow> abc" where
  "unmix_b k = (\<lambda>(a, b, c). let a = a - c in (a, (b XOR rot a k) + a, c))"
definition unmix_c :: "nat \<Rightarrow> abc \<Rightarrow> abc" where
  "unmix_c k = (\<lambda>(a, b, c). let b = b - a in (a, b, (c XOR rot b k) + b))"

lemma xor_cancel: "(x XOR y) XOR y = (x :: u32)"
  by (simp add: xor.assoc)

lemma unmix:
  "unmix_a k (mix_a k s) = s" "unmix_b k (mix_b k s) = s" "unmix_c k (mix_c k s) = s"
  "mix_a k (unmix_a k s) = s" "mix_b k (unmix_b k s) = s" "mix_c k (unmix_c k s) = s"
  by (cases s; simp add: mix_a_def mix_b_def mix_c_def unmix_a_def unmix_b_def unmix_c_def
      Let_def xor_cancel)+

text \<open>
  The mixing step is a bijection on the three words of the state, so no block of the key is
  lost by it: two different states never become equal.
\<close>

lemma mix_bijective: "bij mix"
  by (rule bij_betw_byWitness [where f' =
        "\<lambda>s. unmix_a 4 (unmix_b 6 (unmix_c 8 (unmix_a 16 (unmix_b 19 (unmix_c 4 s)))))"])
    (auto simp: mix_def unmix)

end
