(* ===== verification/KV_Store.thy ===== *)
theory KV_Store
  imports Text_Stream Jenkins
begin

text \<open>
  The key-value store application: the request parser of \<open>KV-Store/app/Hash/Hash.c\<close>, the table of
  \<open>app/HashTable/HashTable.c\<close> and the replies of \<open>app/Driver/Driver.c\<close>.  Keys and values travel between
  the modules as bare pointers, so the heap of C strings is part of the state.
\<close>

section \<open>The heap of strings\<close>

text \<open>Blocks obtained from \<open>malloc\<close>, by address; 0 and 1 are never the address of one.\<close>

record kv_heap =
  h_mem :: "addr \<Rightarrow> string option"
  h_next :: addr

definition c_malloc :: "string \<Rightarrow> kv_heap \<Rightarrow> addr \<times> kv_heap" where
  "c_malloc s h = (h_next h, h\<lparr>h_mem := (h_mem h)(h_next h \<mapsto> s), h_next := h_next h + 1\<rparr>)"

definition c_free :: "addr \<Rightarrow> kv_heap \<Rightarrow> kv_heap res" where
  "c_free a h =
     (if h_mem h a = None then Inl Use_after_free else Inr (h\<lparr>h_mem := (h_mem h)(a := None)\<rparr>))"

definition mem_read :: "kv_heap \<Rightarrow> addr \<Rightarrow> nat \<Rightarrow> string res" where
  "mem_read h a n =
     (case h_mem h a of
        None \<Rightarrow> Inl Use_after_free
      | Some s \<Rightarrow> if n \<le> length s then Inr (take n s) else Inl Out_of_range)"

abbreviation NUL :: char where "NUL \<equiv> CHR 0x00"

definition c_strlen :: "string \<Rightarrow> nat res" where
  "c_strlen s =
     (let n = length (takeWhile (\<lambda>c. c \<noteq> NUL) s) in if n < length s then Inr n else Inl Out_of_range)"

text \<open>A string argument of \<open>sprintf\<close>.\<close>

definition mem_str :: "kv_heap \<Rightarrow> addr \<Rightarrow> string res" where
  "mem_str h a =
     (case h_mem h a of
        None \<Rightarrow> Inl Use_after_free
      | Some s \<Rightarrow> bind_res (c_strlen s) (\<lambda>n. Inr (take n s)))"

section \<open>The request parser\<close>

definition key_bytes :: "string \<Rightarrow> bytes \<Rightarrow> bytes" where
  "key_bytes k junk i = (if i < length k then of_char (k ! i) else junk i)"

definition key_range_mask :: u32 where "key_range_mask = drop_bit (32 - 16) 0xffffffff"
definition actor_mask :: u32 where "actor_mask = drop_bit (32 - 16) 0xffffffff"

text \<open>
  What the parser does: it exits the process, sends nothing, or sends a request to an instance of
  the module \<open>HashTable\<close>.
\<close>

datatype kv_action =
    Exits
  | Ignored
  | Send_set (kv_inst: u32) (kv_key: addr) (kv_val: addr) (kv_ksize: nat) (kv_vsize: nat) (kv_hash: u32)
  | Send_get (kv_inst: u32) (kv_key: addr) (kv_ksize: nat) (kv_hash: u32)

text \<open>
  The parameter \<open>junk\<close> is the memory behind the copied key and \<open>al\<close> its address as far as
  alignment is concerned.  The buffer is all the memory the parser may read.
\<close>

definition parse_set :: "nat \<Rightarrow> bytes \<Rightarrow> string \<Rightarrow> kv_heap \<Rightarrow> (kv_action \<times> kv_heap) res" where
  "parse_set al junk p h =
     (let p = drop 4 p in
      bind_res (c_strlen p) (\<lambda>ksize.
      let (key, h) = c_malloc (take ksize p @ [NUL]) h;
          hv = jenkins_hash al (key_bytes (take ksize p) junk) ksize;
          p = drop (ksize + 5) p in
      if p = [] then Inl Out_of_range
      else
        let vsize = atoi p; p = drop 3 p in
        if vsize < 0 \<or> length p < nat vsize then Inl Out_of_range
        else
          let (value, h) = c_malloc (take (nat vsize) p @ [NUL]) h;
              inst = hv AND key_range_mask in
          Inr (Send_set (push_bit 16 0 OR inst) key value ksize (nat vsize) hv, h)))"

definition parse_get :: "nat \<Rightarrow> bytes \<Rightarrow> string \<Rightarrow> kv_heap \<Rightarrow> (kv_action \<times> kv_heap) res" where
  "parse_get al junk p h =
     (let p = drop 4 p; ksize = length (takeWhile (\<lambda>c. c \<noteq> NUL \<and> c \<noteq> CHR 0x0D) p) in
      if length p \<le> ksize then Inl Out_of_range
      else if p ! ksize = NUL then Inr (Exits, h)
      else
        let (key, h) = c_malloc (take ksize p) h;
            hv = jenkins_hash al (key_bytes (take ksize p) junk) ksize;
            inst = hv AND key_range_mask in
        Inr (Send_get (push_bit 16 0 OR inst) key ksize hv, h))"

definition parseAndProcRecvCmd ::
    "nat \<Rightarrow> bytes \<Rightarrow> string option \<Rightarrow> kv_heap \<Rightarrow> (kv_action \<times> kv_heap) res" where
  "parseAndProcRecvCmd al junk buf h =
     (case buf of
        None \<Rightarrow> Inr (Ignored, h)
      | Some p \<Rightarrow>
          if take 3 p = ''set'' then parse_set al junk p h
          else if take 3 p = ''get'' then parse_get al junk p h
          else Inr (Ignored, h))"

section \<open>The table\<close>

record bucket =
  b_key :: addr
  b_value :: addr
  b_ksize :: nat
  b_vsize :: nat

text \<open>A vector; its \<open>size\<close> is the length of the list.\<close>

record kv_vector =
  v_bk :: "bucket list option"
  v_cap :: nat

definition v_list :: "kv_vector \<Rightarrow> bucket list" where
  "v_list v = (case v_bk v of None \<Rightarrow> [] | Some bs \<Rightarrow> bs)"

definition HashTable_init :: "nat \<Rightarrow> kv_vector list" where
  "HashTable_init cap = replicate (2 ^ (16 - 16)) \<lparr>v_bk = None, v_cap = cap\<rparr>"

definition actor_index :: "u32 \<Rightarrow> nat" where
  "actor_index hash_key = unat (drop_bit 16 (hash_key AND actor_mask))"

text \<open>The search loop shared by both requests: the index of the bucket that has the key.\<close>

fun find_bucket :: "kv_heap \<Rightarrow> addr \<Rightarrow> nat \<Rightarrow> bucket list \<Rightarrow> nat option res" where
  "find_bucket h key ksize [] = Inr None"
| "find_bucket h key ksize (b # bs) =
     bind_res
       (if b_ksize b = ksize then
          bind_res (mem_read h (b_key b) ksize) (\<lambda>s.
          bind_res (mem_read h key ksize) (\<lambda>t. Inr (s = t)))
        else Inr False)
       (\<lambda>eq. if eq then Inr (Some 0)
             else bind_res (find_bucket h key ksize bs) (\<lambda>r. Inr (map_option Suc r)))"

text \<open>The reply: key NULL, key 1, or the fields of the bucket.\<close>

datatype kv_ret = Ret_null | Ret_one | Ret_bucket (r_bucket: bucket)

definition vec_at :: "kv_vector list \<Rightarrow> u32 \<Rightarrow> kv_vector res" where
  "vec_at vs hk = (if actor_index hk < length vs then Inr (vs ! actor_index hk) else Inl Out_of_range)"

definition OnGetReq ::
    "addr \<Rightarrow> nat \<Rightarrow> u32 \<Rightarrow> kv_heap \<Rightarrow> kv_vector list \<Rightarrow> kv_ret res" where
  "OnGetReq key ksize hk h vs =
     bind_res (vec_at vs hk) (\<lambda>v.
     bind_res (find_bucket h key ksize (v_list v)) (\<lambda>r.
     case r of
       Some i \<Rightarrow> Inr (Ret_bucket (v_list v ! i))
     | None \<Rightarrow> Inr Ret_null))"

definition push_bucket :: "bucket \<Rightarrow> kv_vector \<Rightarrow> kv_vector res" where
  "push_bucket b v =
     (let v = (if v_bk v = None then v\<lparr>v_bk := Some [], v_cap := 4\<rparr> else v);
          v = (if length (v_list v) = v_cap v then v\<lparr>v_cap := 2 * v_cap v\<rparr> else v) in
      if length (v_list v) < v_cap v then Inr (v\<lparr>v_bk := Some (v_list v @ [b])\<rparr>)
      else Inl Out_of_range)"

definition OnSetReq ::
    "addr \<Rightarrow> addr \<Rightarrow> nat \<Rightarrow> nat \<Rightarrow> u32 \<Rightarrow> kv_heap \<Rightarrow> kv_vector list \<Rightarrow>
     (kv_ret \<times> kv_heap \<times> kv_vector list) res" where
  "OnSetReq key value ksize vsize hk h vs =
     bind_res (vec_at vs hk) (\<lambda>v.
     bind_res (find_bucket h key ksize (v_list v)) (\<lambda>r.
     case r of
       Some i \<Rightarrow>
         let b = v_list v ! i in
         bind_res (if b_value b \<noteq> 0 then c_free (b_value b) h else Inr h) (\<lambda>h.
         Inr (Ret_one, h,
              vs[actor_index hk :=
                   v\<lparr>v_bk := Some ((v_list v)[i := b\<lparr>b_vsize := vsize, b_value := value\<rparr>])\<rparr>]))
     | None \<Rightarrow>
         bind_res (push_bucket \<lparr>b_key = key, b_value = value, b_ksize = ksize, b_vsize = vsize\<rparr> v) (\<lambda>v.
         Inr (Ret_one, h, vs[actor_index hk := v]))))"

section \<open>Replies\<close>

definition printf_d :: "nat \<Rightarrow> string" where
  "printf_d n =
     (let i = sint (of_nat n :: u32) in
      if i < 0 then ''-'' @ nat_str (nat (- i)) else nat_str (nat i))"

abbreviation crlf :: string where "crlf \<equiv> [CHR 0x0D, CHR 0x0A]"

definition reply_text :: "kv_heap \<Rightarrow> kv_ret \<Rightarrow> string res" where
  "reply_text h ret =
     (case ret of
        Ret_null \<Rightarrow> Inr (''VALUE miss 4 4'' @ crlf @ ''miss'' @ crlf @ ''END'' @ crlf)
      | Ret_one \<Rightarrow> Inr (''VALUE aaa 3 3'' @ crlf @ ''bbb'' @ crlf @ ''END'' @ crlf)
      | Ret_bucket b \<Rightarrow>
          bind_res (mem_str h (b_key b)) (\<lambda>k.
          bind_res (mem_str h (b_value b)) (\<lambda>v.
          Inr (''VALUE '' @ k @ '' '' @ printf_d (b_ksize b) @ '' '' @ printf_d (b_vsize b) @ crlf @ v @
               crlf @ ''END'' @ crlf))))"

text \<open>The text and its terminating NUL go to a buffer of 512 bytes.\<close>

definition OnReqReturn :: "kv_heap \<Rightarrow> kv_ret \<Rightarrow> string res" where
  "OnReqReturn h ret =
     bind_res (reply_text h ret) (\<lambda>s. if length s < 512 then Inr s else Inl Out_of_range)"

section \<open>The application\<close>

text \<open>All instances of \<open>HashTable\<close>, by number, and the heap they share.\<close>

record kv_state =
  kv_mem :: kv_heap
  kv_tab :: "u32 \<Rightarrow> kv_vector list"

text \<open>\<open>Hash\<close> receives a request and the addressed instance of \<open>HashTable\<close> answers it.\<close>

definition kv_request ::
    "nat \<Rightarrow> bytes \<Rightarrow> string \<Rightarrow> kv_state \<Rightarrow> (kv_ret option \<times> kv_state) res" where
  "kv_request al junk buf s =
     bind_res (parseAndProcRecvCmd al junk (Some buf) (kv_mem s)) (\<lambda>(act, h).
     case act of
       Send_set i key value ksize vsize hv \<Rightarrow>
         bind_res (OnSetReq key value ksize vsize hv h (kv_tab s i)) (\<lambda>(r, h, vs).
         Inr (Some r, s\<lparr>kv_mem := h, kv_tab := (kv_tab s)(i := vs)\<rparr>))
     | Send_get i key ksize hv \<Rightarrow>
         bind_res (OnGetReq key ksize hv h (kv_tab s i)) (\<lambda>r. Inr (Some r, s\<lparr>kv_mem := h\<rparr>))
     | _ \<Rightarrow> Inr (None, s\<lparr>kv_mem := h\<rparr>))"

text \<open>
  The driver turns a package into a request: it ignores empty ones, and otherwise terminates the text
  with a NUL in the spare byte of the receive buffer and copies both into the request.
\<close>

definition OnNewPackage :: "string \<Rightarrow> string option" where
  "OnNewPackage package = (if length package = 0 then None else Some (package @ [NUL]))"

definition kv_package ::
    "nat \<Rightarrow> bytes \<Rightarrow> string \<Rightarrow> kv_state \<Rightarrow> (kv_ret option \<times> kv_state) res" where
  "kv_package al junk package s =
     (case OnNewPackage package of None \<Rightarrow> Inr (None, s) | Some buf \<Rightarrow> kv_request al junk buf s)"

section \<open>Requests\<close>

text \<open>
  The requests the parser is written for.  In a \<open>set\<close> the key ends with a NUL, four characters are
  skipped, and the length has one digit, because the value is taken to begin three characters
  after the length.
\<close>

definition set_request :: "string \<Rightarrow> string \<Rightarrow> string \<Rightarrow> string \<Rightarrow> string" where
  "set_request f k v t = ''set '' @ k @ NUL # f @ nat_str (length v) @ crlf @ v @ t"

definition get_request :: "string \<Rightarrow> string \<Rightarrow> string" where
  "get_request k t = ''get '' @ k @ CHR 0x0D # t"

lemma package_request:
  "kv_package al junk (set_request f k v t) s = kv_request al junk (set_request f k v (t @ [NUL])) s"
  "kv_package al junk (get_request k t) s = kv_request al junk (get_request k (t @ [NUL])) s"
  by (simp_all add: kv_package_def OnNewPackage_def set_request_def get_request_def)

definition hash_of :: "string \<Rightarrow> u32" where
  "hash_of k = jenkins_hash 0 (key_bytes k (\<lambda>_. 0)) (length k)"

definition inst_of :: "string \<Rightarrow> u32" where
  "inst_of k = hash_of k AND key_range_mask"

lemma jenkins_key: "jenkins_hash al (key_bytes k junk) (length k) = hash_of k"
  unfolding hash_of_def by (rule jenkins_cong) (simp add: key_bytes_def)

lemma c_strlen_app: "NUL \<notin> set k \<Longrightarrow> c_strlen (k @ NUL # t) = Inr (length k)"
proof -
  assume "NUL \<notin> set k"
  then have "takeWhile (\<lambda>c. c \<noteq> NUL) (k @ NUL # t) = k" by (subst takeWhile_append2) auto
  then show ?thesis by (simp add: c_strlen_def Let_def)
qed

lemma atoi_str: "\<not> is_digit c \<Longrightarrow> atoi (nat_str n @ c # t) = int n"
  by (simp add: atoi_def Let_def)

lemma nat_str_digit: "n < 10 \<Longrightarrow> nat_str n = [digit_char n]"
  by (simp add: nat_str.simps)

lemma parse_set_request:
  assumes "NUL \<notin> set k" "length f = 4" "length v < 10"
  shows "parseAndProcRecvCmd al junk (Some (set_request f k v t)) h =
    Inr (Send_set (inst_of k) (h_next h) (h_next h + 1) (length k) (length v) (hash_of k),
         snd (c_malloc (v @ [NUL]) (snd (c_malloc (k @ [NUL]) h))))"
proof -
  let ?d = "nat_str (length v)"
  have d: "length ?d = 1" by (simp add: nat_str_digit assms)
  have a: "atoi (?d @ CHR 0x0D # CHR 0x0A # v @ t) = int (length v)"
    by (rule atoi_str) (simp add: is_digit_def)
  have dr: "drop (length k + 5) (k @ NUL # f @ ?d @ CHR 0x0D # CHR 0x0A # v @ t) =
      ?d @ CHR 0x0D # CHR 0x0A # v @ t"
    by (simp add: assms numeral_eq_Suc)
  have dd: "drop 3 (?d @ CHR 0x0D # CHR 0x0A # v @ t) = v @ t"
    using d by (simp add: numeral_eq_Suc)
  show ?thesis
    by (simp add: parseAndProcRecvCmd_def set_request_def parse_set_def Let_def c_strlen_app assms
        jenkins_key c_malloc_def dr dd a inst_of_def del: drop_append)
qed

lemma parse_get_request:
  assumes "NUL \<notin> set k" "CHR 0x0D \<notin> set k"
  shows "parseAndProcRecvCmd al junk (Some (get_request k t)) h =
    Inr (Send_get (inst_of k) (h_next h) (length k) (hash_of k), snd (c_malloc k h))"
proof -
  have "takeWhile (\<lambda>c. c \<noteq> NUL \<and> c \<noteq> CHR 0x0D) (k @ CHR 0x0D # t) = k"
    using assms by (subst takeWhile_append2) auto
  then show ?thesis
    by (simp add: parseAndProcRecvCmd_def get_request_def parse_get_def Let_def
        jenkins_key c_malloc_def inst_of_def)
qed

section \<open>What the tables hold\<close>

definition kof :: "(addr \<Rightarrow> string option) \<Rightarrow> bucket \<Rightarrow> string" where
  "kof mem b = take (b_ksize b) (the (mem (b_key b)))"
definition vof :: "(addr \<Rightarrow> string option) \<Rightarrow> bucket \<Rightarrow> string" where
  "vof mem b = take (b_vsize b) (the (mem (b_value b)))"

definition bucket_ok :: "(addr \<Rightarrow> string option) \<Rightarrow> bucket \<Rightarrow> bool" where
  "bucket_ok mem b \<longleftrightarrow>
     mem (b_key b) = Some (kof mem b @ [NUL]) \<and> length (kof mem b) = b_ksize b \<and>
     NUL \<notin> set (kof mem b) \<and>
     mem (b_value b) = Some (vof mem b @ [NUL]) \<and> length (vof mem b) = b_vsize b"

text \<open>The pointers of all buckets of all instances, by instance, position and field.\<close>

definition slots :: "(u32 \<Rightarrow> bucket list) \<Rightarrow> (u32 \<times> nat \<times> bool) set" where
  "slots B = {(i, j, w). j < length (B i)}"

definition slot_addr :: "(u32 \<Rightarrow> bucket list) \<Rightarrow> u32 \<times> nat \<times> bool \<Rightarrow> addr" where
  "slot_addr B = (\<lambda>(i, j, w). if w then b_value (B i ! j) else b_key (B i ! j))"

definition store_ok :: "(addr \<Rightarrow> string option) \<Rightarrow> addr \<Rightarrow> (u32 \<Rightarrow> bucket list) \<Rightarrow> bool" where
  "store_ok mem nxt B \<longleftrightarrow>
     2 \<le> nxt \<and> (\<forall>a. a < 2 \<or> nxt \<le> a \<longrightarrow> mem a = None) \<and>
     (\<forall>i. \<forall>b\<in>set (B i). bucket_ok mem b) \<and>
     (\<forall>i. distinct (map (kof mem) (B i))) \<and>
     inj_on (slot_addr B) (slots B)"

definition table :: "(addr \<Rightarrow> string option) \<Rightarrow> bucket list \<Rightarrow> string \<Rightarrow> string option" where
  "table mem bs = map_of (map (\<lambda>b. (kof mem b, vof mem b)) bs)"

lemma bucket_frame:
  assumes "bucket_ok mem b" "mem' (b_key b) = mem (b_key b)" "mem' (b_value b) = mem (b_value b)"
  shows "bucket_ok mem' b" "kof mem' b = kof mem b" "vof mem' b = vof mem b"
  using assms by (simp_all add: bucket_ok_def kof_def vof_def)

lemma store_okD:
  assumes "store_ok mem nxt B"
  shows "j < length (B i) \<Longrightarrow> bucket_ok mem (B i ! j)" "distinct (map (kof mem) (B i))"
    "inj_on (slot_addr B) (slots B)" "a < 2 \<or> nxt \<le> a \<Longrightarrow> mem a = None" "2 \<le> nxt"
  using assms nth_mem unfolding store_ok_def by blast+

lemma bucket_bound:
  assumes "store_ok mem nxt B" "b \<in> set (B i)"
  shows "b_key b < nxt" "b_value b < nxt" "2 \<le> b_key b" "2 \<le> b_value b"
proof -
  have "mem (b_key b) \<noteq> None" "mem (b_value b) \<noteq> None"
    using assms by (auto simp: store_ok_def bucket_ok_def)
  moreover have "a < 2 \<or> nxt \<le> a \<Longrightarrow> mem a = None" for a
    using assms(1) unfolding store_ok_def by blast
  ultimately show "b_key b < nxt" "b_value b < nxt" "2 \<le> b_key b" "2 \<le> b_value b"
    by (meson not_le)+
qed

lemma slot_bound:
  assumes "store_ok mem nxt B" "x \<in> slots B"
  shows "slot_addr B x < nxt"
  using assms(2) bucket_bound(1,2) [OF assms(1) nth_mem] by (auto simp: slots_def slot_addr_def)

text \<open>A change of the heap outside the pointers of the tables.\<close>

lemma store_frame:
  assumes ok: "store_ok mem nxt B" and "nxt \<le> nxt'"
    and same: "\<And>a. a < nxt \<Longrightarrow> mem' a = mem a" and "\<And>a. nxt' \<le> a \<Longrightarrow> mem' a = None"
  shows "store_ok mem' nxt' B" "table mem' (B i) = table mem (B i)"
proof -
  have *: "bucket_ok mem' b" "kof mem' b = kof mem b" "vof mem' b = vof mem b" if "b \<in> set (B i)" for i b
    using bucket_frame [of mem b mem'] bucket_bound [OF ok that] same ok that
    by (simp_all add: store_ok_def)
  have eq: "map (kof mem') (B i) = map (kof mem) (B i)" for i using * by simp
  have "distinct (map (kof mem') (B i))" for i unfolding eq using ok by (simp add: store_ok_def)
  moreover have "mem' a = None" if "a < 2 \<or> nxt' \<le> a" for a
    using that assms(4) [of a] same [of a] ok by (auto simp: store_ok_def)
  moreover have "2 \<le> nxt'" using ok \<open>nxt \<le> nxt'\<close> by (simp add: store_ok_def)
  ultimately show "store_ok mem' nxt' B"
    using * ok unfolding store_ok_def by simp
  show "table mem' (B i) = table mem (B i)"
    using * unfolding table_def by (simp cong: map_cong)
qed

text \<open>A new bucket, with a key and a value of its own.\<close>

lemma slots_append:
  "slots (B(i := B i @ [b])) = insert (i, length (B i), True) (insert (i, length (B i), False) (slots B))"
  by (auto simp: slots_def less_Suc_eq split: if_splits)

lemma slot_addr_append:
  "x \<in> slots B \<Longrightarrow> slot_addr (B(i := B i @ [b])) x = slot_addr B x"
  "slot_addr (B(i := B i @ [b])) (i, length (B i), w) = (if w then b_value b else b_key b)"
  by (auto simp: slots_def slot_addr_def nth_append)

lemma store_append:
  assumes ok: "store_ok mem nxt B" and b: "b_key b = nxt'" "b_value b = nxt''" "bucket_ok mem b"
    and fresh: "nxt' \<notin> slot_addr B ` slots B" "nxt'' \<notin> slot_addr B ` slots B" "nxt' \<noteq> nxt''"
    and new: "kof mem b \<notin> kof mem ` set (B i)"
  shows "store_ok mem nxt (B(i := B i @ [b]))"
    "table mem (B i @ [b]) = (table mem (B i))(kof mem b \<mapsto> vof mem b)"
proof -
  have "inj_on (slot_addr (B(i := B i @ [b]))) (slots B)"
    using ok slot_addr_append(1) unfolding store_ok_def by (metis (mono_tags, lifting) inj_on_cong)
  moreover have im: "slot_addr (B(i := B i @ [b])) ` slots B = slot_addr B ` slots B"
    by (intro image_cong) (simp_all add: slot_addr_append)
  moreover have d: "slots B - {(i, length (B i), False)} = slots B"
    "insert (i, length (B i), False) (slots B) - {(i, length (B i), True)} =
     insert (i, length (B i), False) (slots B)"
    by (auto simp: slots_def)
  ultimately have "inj_on (slot_addr (B(i := B i @ [b]))) (slots (B(i := B i @ [b])))"
    using fresh b unfolding slots_append inj_on_insert d image_insert im
    by (simp add: slot_addr_append del: fun_upd_apply)
  with ok b new show "store_ok mem nxt (B(i := B i @ [b]))"
    by (auto simp: store_ok_def)
  have "map_of (map (\<lambda>b. (kof mem b, vof mem b)) (B i)) (kof mem b) = None"
    using new by (force simp: map_of_eq_None_iff)
  then show "table mem (B i @ [b]) = (table mem (B i))(kof mem b \<mapsto> vof mem b)"
    by (auto simp: table_def fun_eq_iff map_add_def split: option.split)
qed

text \<open>A new value for the bucket at a position; the old value is freed.\<close>

lemma map_of_update:
  assumes "distinct (map fst l)" "j < length l" "fst (l ! j) = k"
  shows "map_of (l[j := (k, v)]) = (map_of l)(k \<mapsto> v)"
  using assms
proof (induction l arbitrary: j)
  case (Cons a l)
  show ?case
  proof (cases j)
    case 0
    then show ?thesis using Cons.prems by (auto simp: fun_eq_iff)
  next
    case (Suc j')
    then have "fst a \<noteq> k" using Cons.prems nth_mem [of j' l] by force
    then show ?thesis using Suc Cons by (auto simp: fun_eq_iff)
  qed
qed simp

lemma replace_frame:
  assumes ok: "store_ok mem nxt B" and j: "j < length (B i)"
    and mem': "mem' = mem(b_value (B i ! j) := None)"
  shows
    "\<And>i' j'. j' < length (B i') \<Longrightarrow> (i', j') \<noteq> (i, j) \<Longrightarrow>
       bucket_ok mem' (B i' ! j') \<and> kof mem' (B i' ! j') = kof mem (B i' ! j') \<and>
       vof mem' (B i' ! j') = vof mem (B i' ! j')"
    "mem' (b_key (B i ! j)) = mem (b_key (B i ! j))"
proof -
  have inj: "inj_on (slot_addr B) (slots B)" using ok by (simp add: store_ok_def)
  have "slot_addr B x \<noteq> slot_addr B (i, j, True)" if "x \<in> slots B" "x \<noteq> (i, j, True)" for x
    using inj_onD [OF inj, of x "(i, j, True)"] that j by (auto simp: slots_def)
  then have keep: "mem' (slot_addr B x) = mem (slot_addr B x)" if "x \<in> slots B" "x \<noteq> (i, j, True)" for x
    using that by (simp add: mem' slot_addr_def)
  show "mem' (b_key (B i ! j)) = mem (b_key (B i ! j))"
    using keep [of "(i, j, False)"] j by (simp add: slots_def slot_addr_def)
  show "bucket_ok mem' (B i' ! j') \<and> kof mem' (B i' ! j') = kof mem (B i' ! j') \<and>
       vof mem' (B i' ! j') = vof mem (B i' ! j')"
    if "j' < length (B i')" "(i', j') \<noteq> (i, j)" for i' j'
  proof -
    have "bucket_ok mem (B i' ! j')" by (rule store_okD(1) [OF ok that(1)])
    then show ?thesis
      using bucket_frame [of mem "B i' ! j'" mem'] keep [of "(i', j', True)"] keep [of "(i', j', False)"]
        that by (auto simp: slots_def slot_addr_def)
  qed
qed

lemma replace_inj:
  assumes "store_ok mem nxt B" "j < length (B i)" "a \<notin> slot_addr B ` slots B" "b_value b = a"
    "b_key b = b_key (B i ! j)"
  shows "inj_on (slot_addr (B(i := (B i)[j := b]))) (slots (B(i := (B i)[j := b])))"
proof -
  let ?B = "B(i := (B i)[j := b])"
  have sl: "slots ?B = slots B" by (auto simp: slots_def split: if_splits)
  have pt: "slot_addr ?B x = ((slot_addr B)((i, j, True) := a)) x" if "x \<in> slots B" for x
    using that assms by (cases x) (auto simp: slot_addr_def slots_def nth_list_update)
  have "inj_on ((slot_addr B)((i, j, True) := a)) (slots B)"
    using assms by (intro inj_on_fun_updI) (auto simp: store_ok_def)
  then show ?thesis unfolding sl using pt by (simp cong: inj_on_cong)
qed

lemma store_replace:
  assumes ok: "store_ok mem nxt B" and j: "j < length (B i)"
    and a: "mem a = Some (v @ [NUL])" "a \<notin> slot_addr B ` slots B"
    and b: "b = (B i ! j)\<lparr>b_vsize := length v, b_value := a\<rparr>"
    and mem': "mem' = mem(b_value (B i ! j) := None)"
  shows "store_ok mem' nxt (B(i := (B i)[j := b]))"
    "table mem' ((B i)[j := b]) = (table mem (B i))(kof mem (B i ! j) \<mapsto> v)"
    "\<And>i'. i' \<noteq> i \<Longrightarrow> table mem' (B i') = table mem (B i')"
proof -
  let ?B = "B(i := (B i)[j := b])"
  note frame = replace_frame [of mem nxt B j i mem', OF ok j mem']
  have "(i, j, True) \<in> slots B" using j by (simp add: slots_def)
  then have va: "mem' a = mem a" using a(2) by (force simp: mem' slot_addr_def)
  have new: "bucket_ok mem' b" "kof mem' b = kof mem (B i ! j)" "vof mem' b = v"
    using store_okD(1) [OF ok j] frame(2) va a(1)
    by (auto simp: bucket_ok_def kof_def vof_def b)
  have len: "length (?B i') = length (B i')" for i' by simp
  have pw: "bucket_ok mem' (?B i' ! j') \<and> kof mem' (?B i' ! j') = kof mem (B i' ! j')"
    if "j' < length (B i')" for i' j'
    using that new frame(1) [of j' i'] j by (cases "i' = i"; cases "j' = j") simp_all
  have kofs: "map (kof mem') (?B i') = map (kof mem) (B i')" for i'
    by (rule nth_equalityI) (use pw [of _ i'] len in \<open>simp_all del: fun_upd_apply\<close>)
  have "distinct (map (kof mem') (?B i'))" for i'
    unfolding kofs by (rule store_okD(2) [OF ok])
  moreover have "\<forall>x\<in>set (?B i'). bucket_ok mem' x" for i'
    using pw [of _ i'] len [of i'] by (metis in_set_conv_nth)
  moreover have "inj_on (slot_addr ?B) (slots ?B)"
    by (rule replace_inj [OF ok j a(2)]) (simp_all add: b)
  ultimately show "store_ok mem' nxt ?B"
    using ok unfolding store_ok_def by (simp add: mem')
  have "map (\<lambda>b. (kof mem' b, vof mem' b)) ((B i)[j := b]) =
      (map (\<lambda>b. (kof mem b, vof mem b)) (B i))[j := (kof mem (B i ! j), v)]"
    by (rule nth_equalityI) (use frame(1) [of _ i] new j in \<open>simp_all add: nth_list_update\<close>)
  moreover have "distinct (map fst (map (\<lambda>b. (kof mem b, vof mem b)) (B i)))"
    using ok by (simp add: store_ok_def comp_def)
  ultimately show "table mem' ((B i)[j := b]) = (table mem (B i))(kof mem (B i ! j) \<mapsto> v)"
    using j by (simp add: table_def map_of_update)
  show "table mem' (B i') = table mem (B i')" if "i' \<noteq> i" for i'
  proof -
    have "map (\<lambda>b. (kof mem' b, vof mem' b)) (B i') = map (\<lambda>b. (kof mem b, vof mem b)) (B i')"
      by (rule nth_equalityI) (use frame(1) [of _ i'] that in simp_all)
    then show ?thesis by (simp only: table_def)
  qed
qed

section \<open>Requests refine map operations\<close>

definition buckets :: "kv_state \<Rightarrow> u32 \<Rightarrow> bucket list" where
  "buckets s i = v_list (hd (kv_tab s i))"

definition vec_ok :: "kv_vector \<Rightarrow> bool" where
  "vec_ok v \<longleftrightarrow> (v_bk v \<noteq> None \<longrightarrow> 0 < v_cap v \<and> length (v_list v) \<le> v_cap v)"

definition kv_ok :: "kv_state \<Rightarrow> bool" where
  "kv_ok s \<longleftrightarrow> store_ok (h_mem (kv_mem s)) (h_next (kv_mem s)) (buckets s) \<and>
     (\<forall>i. \<exists>v. kv_tab s i = [v] \<and> vec_ok v)"

definition kv_lookup :: "kv_state \<Rightarrow> string \<Rightarrow> string option" where
  "kv_lookup s k = table (h_mem (kv_mem s)) (buckets s (inst_of k)) k"

lemma actor_index_0 [simp]: "actor_index hk = 0"
proof -
  have m: "actor_mask = mask 16" by (simp add: actor_mask_def mask_eq_exp_minus_1)
  have "drop_bit 16 (hk AND actor_mask) = 0"
    unfolding m by (intro bit_word_eqI) (auto simp: bit_simps)
  then show ?thesis by (simp add: actor_index_def)
qed

lemma find_bucket_spec:
  assumes "\<forall>b\<in>set bs. bucket_ok (h_mem h) b" "h_mem h key = Some (k @ t)"
  shows "(find_bucket h key (length k) bs = Inr None \<and> k \<notin> kof (h_mem h) ` set bs) \<or>
    (\<exists>j. find_bucket h key (length k) bs = Inr (Some j) \<and> j < length bs \<and> kof (h_mem h) (bs ! j) = k)"
  using assms(1)
proof (induction bs)
  case (Cons b bs)
  have b: "mem_read h (b_key b) (b_ksize b) = Inr (kof (h_mem h) b)" "length (kof (h_mem h) b) = b_ksize b"
    using Cons.prems by (auto simp: mem_read_def bucket_ok_def)
  have "mem_read h key (length k) = Inr k" using assms(2) by (simp add: mem_read_def)
  with b Cons show ?case by (cases "kof (h_mem h) b = k") auto
qed simp

lemma push_bucket_ok:
  assumes "vec_ok v"
  shows "\<exists>v'. push_bucket b v = Inr v' \<and> vec_ok v' \<and> v_list v' = v_list v @ [b]"
  using assms by (auto simp: push_bucket_def vec_ok_def v_list_def Let_def split: option.splits)

lemma buckets_upd [simp]:
  "buckets (s\<lparr>kv_mem := h, kv_tab := (kv_tab s)(i := [v])\<rparr>) = (buckets s)(i := v_list v)"
  by (auto simp: buckets_def fun_eq_iff)

text \<open>The heap after the parser has copied the key and the value.\<close>

lemma heap_two:
  "h_mem (snd (c_malloc y (snd (c_malloc x h)))) = (h_mem h)(h_next h \<mapsto> x, h_next h + 1 \<mapsto> y)"
  "h_next (snd (c_malloc y (snd (c_malloc x h)))) = h_next h + 2"
  by (simp_all add: c_malloc_def)

lemma OnSetReq_new:
  assumes ok: "store_ok (h_mem h) n B" "vec_ok v" "v_list v = B i"
    and new: "find_bucket h ka (length k) (B i) = Inr None" "k \<notin> kof (h_mem h) ` set (B i)"
    and key: "h_mem h ka = Some (k @ [NUL])" "ka \<notin> slot_addr B ` slots B" "NUL \<notin> set k"
    and val: "h_mem h va = Some (w @ [NUL])" "va \<notin> slot_addr B ` slots B" "ka \<noteq> va"
  shows "\<exists>v'. OnSetReq ka va (length k) (length w) hk h [v] = Inr (Ret_one, h, [v']) \<and> vec_ok v' \<and>
    store_ok (h_mem h) n (B(i := v_list v')) \<and>
    table (h_mem h) (v_list v') = (table (h_mem h) (B i))(k \<mapsto> w)"
proof -
  let ?b = "\<lparr>b_key = ka, b_value = va, b_ksize = length k, b_vsize = length w\<rparr>"
  obtain v' where v': "push_bucket ?b v = Inr v'" "vec_ok v'" "v_list v' = v_list v @ [?b]"
    using push_bucket_ok [OF ok(2)] by blast
  have kv: "kof (h_mem h) ?b = k" "vof (h_mem h) ?b = w"
    using key val by (simp_all add: kof_def vof_def)
  then have "bucket_ok (h_mem h) ?b" using key val by (simp add: bucket_ok_def)
  then have "store_ok (h_mem h) n (B(i := B i @ [?b]))"
    "table (h_mem h) (B i @ [?b]) = (table (h_mem h) (B i))(k \<mapsto> w)"
    using store_append [OF ok(1), of ?b ka va i] key val new(2) kv by simp_all
  moreover have "OnSetReq ka va (length k) (length w) hk h [v] = Inr (Ret_one, h, [v'])"
    using new v' ok(3) by (simp add: OnSetReq_def vec_at_def)
  ultimately show ?thesis using v' ok(3) by auto
qed

lemma OnSetReq_old:
  assumes ok: "store_ok (h_mem h) n B" "vec_ok v" "v_list v = B i"
    and old: "find_bucket h ka (length k) (B i) = Inr (Some j)" "j < length (B i)" "kof (h_mem h) (B i ! j) = k"
    and val: "h_mem h va = Some (w @ [NUL])" "va \<notin> slot_addr B ` slots B"
  shows "\<exists>h' v'. OnSetReq ka va (length k) (length w) hk h [v] = Inr (Ret_one, h', [v']) \<and> vec_ok v' \<and>
    h_next h' = h_next h \<and> store_ok (h_mem h') n (B(i := v_list v')) \<and>
    table (h_mem h') (v_list v') = (table (h_mem h) (B i))(k \<mapsto> w) \<and>
    (\<forall>i'. i' \<noteq> i \<longrightarrow> table (h_mem h') (B i') = table (h_mem h) (B i')) \<and>
    (\<forall>b\<in>set (B i). kof (h_mem h) b = k \<longrightarrow>
       h_mem h' (b_value b) = None \<and> h_mem h' (b_key b) = h_mem h (b_key b))"
proof -
  let ?b = "B i ! j" and ?c = "(B i ! j)\<lparr>b_vsize := length w, b_value := va\<rparr>"
  let ?h = "h\<lparr>h_mem := (h_mem h)(b_value ?b := None)\<rparr>" and ?v = "v\<lparr>v_bk := Some ((B i)[j := ?c])\<rparr>"
  have "b_value ?b \<noteq> 0" "h_mem h (b_value ?b) \<noteq> None"
    using bucket_bound(4) [OF ok(1), of ?b i] store_okD(1) [OF ok(1) old(2)] old(2)
    by (auto simp: bucket_ok_def)
  then have "OnSetReq ka va (length k) (length w) hk h [v] = Inr (Ret_one, ?h, [?v])"
    using old ok(3) by (simp add: OnSetReq_def vec_at_def c_free_def Let_def)
  moreover have "vec_ok ?v"
    using ok(2,3) old(2) by (auto simp: vec_ok_def v_list_def split: option.splits)
  moreover have vl: "v_list ?v = (B i)[j := ?c]" by (simp add: v_list_def)
  moreover have "b = ?b" if "b \<in> set (B i)" "kof (h_mem h) b = k" for b
    using that old(2,3) store_okD(2) [OF ok(1), of i]
    by (metis distinct_map inj_on_def nth_mem)
  then have "\<forall>b\<in>set (B i). kof (h_mem h) b = k \<longrightarrow>
      h_mem ?h (b_value b) = None \<and> h_mem ?h (b_key b) = h_mem h (b_key b)"
    using replace_frame(2) [where B = B and i = i, OF ok(1) old(2) refl] by auto
  moreover note store_replace [where B = B and i = i and j = j, OF ok(1) old(2) val refl refl]
  ultimately show ?thesis
    using old(3) by (intro exI [of _ ?h] exI [of _ ?v]) (simp add: vl)
qed

lemma OnSetReq_ok:
  assumes ok: "store_ok (h_mem h) n B" "vec_ok v" "v_list v = B i"
    and key: "h_mem h ka = Some (k @ [NUL])" "ka \<notin> slot_addr B ` slots B" "NUL \<notin> set k"
    and val: "h_mem h va = Some (w @ [NUL])" "va \<notin> slot_addr B ` slots B" "ka \<noteq> va"
  shows "\<exists>h' v'. OnSetReq ka va (length k) (length w) hk h [v] = Inr (Ret_one, h', [v']) \<and> vec_ok v' \<and>
    h_next h' = h_next h \<and> store_ok (h_mem h') n (B(i := v_list v')) \<and>
    table (h_mem h') (v_list v') = (table (h_mem h) (B i))(k \<mapsto> w) \<and>
    (\<forall>i'. i' \<noteq> i \<longrightarrow> table (h_mem h') (B i') = table (h_mem h) (B i')) \<and>
    (\<forall>b\<in>set (B i). kof (h_mem h) b = k \<longrightarrow>
       h_mem h' (b_value b) = None \<and> h_mem h' (b_key b) = h_mem h (b_key b))"
proof -
  have "\<forall>b\<in>set (B i). bucket_ok (h_mem h) b" using ok(1) by (simp add: store_ok_def)
  then consider "find_bucket h ka (length k) (B i) = Inr None" "k \<notin> kof (h_mem h) ` set (B i)"
    | j where "find_bucket h ka (length k) (B i) = Inr (Some j)" "j < length (B i)"
        "kof (h_mem h) (B i ! j) = k"
    using find_bucket_spec [OF _ key(1)] by blast
  then show ?thesis
  proof cases
    case 1
    then have "\<forall>b\<in>set (B i). kof (h_mem h) b = k \<longrightarrow>
        h_mem h (b_value b) = None \<and> h_mem h (b_key b) = h_mem h (b_key b)" by auto
    then show ?thesis using OnSetReq_new [OF ok 1 key val, of hk] by blast
  next
    case 2
    then show ?thesis using OnSetReq_old [OF ok 2 val(1,2), of hk] by blast
  qed
qed

lemma kv_set_ok:
  assumes ok: "kv_ok s" and req: "NUL \<notin> set k" "length f = 4" "length w < 10"
  shows "\<exists>s'. kv_request al junk (set_request f k w t) s = Inr (Some Ret_one, s') \<and> kv_ok s' \<and>
    kv_lookup s' = (kv_lookup s)(k \<mapsto> w) \<and>
    (\<forall>b\<in>set (buckets s (inst_of k)). kof (h_mem (kv_mem s)) b = k \<longrightarrow>
       h_mem (kv_mem s') (b_value b) = None \<and> h_mem (kv_mem s') (b_key b) = h_mem (kv_mem s) (b_key b))"
proof -
  let ?h = "kv_mem s" and ?i = "inst_of k" and ?B = "buckets s"
  let ?g = "snd (c_malloc (w @ [NUL]) (snd (c_malloc (k @ [NUL]) ?h)))"
  have st: "store_ok (h_mem ?h) (h_next ?h) ?B" using ok by (simp add: kv_ok_def)
  obtain v where v: "kv_tab s ?i = [v]" "vec_ok v" using ok by (auto simp: kv_ok_def)
  have vl: "v_list v = ?B ?i" by (simp add: buckets_def v)
  have free: "h_next ?h + d \<notin> slot_addr ?B ` slots ?B" for d
    using slot_bound [OF st] by force
  have top: "h_mem ?h a = None" if "h_next ?h \<le> a" for a using store_okD(4) [OF st] that by blast
  have g: "store_ok (h_mem ?g) (h_next ?g) ?B" "table (h_mem ?g) (?B i) = table (h_mem ?h) (?B i)" for i
    unfolding heap_two by (rule store_frame [OF st, of "h_next ?h + 2"]; simp add: top)+
  have "kof (h_mem ?g) b = kof (h_mem ?h) b" "h_mem ?g (b_key b) = h_mem ?h (b_key b)"
    if "b \<in> set (?B ?i)" for b
    using bucket_bound [OF st that] by (simp_all add: kof_def heap_two)
  moreover have blk: "h_mem ?g (h_next ?h) = Some (k @ [NUL])" "h_mem ?g (h_next ?h + 1) = Some (w @ [NUL])"
    by (simp_all add: heap_two)
  ultimately obtain h' v' where o: "OnSetReq (h_next ?h) (h_next ?h + 1) (length k) (length w) (hash_of k) ?g [v] =
      Inr (Ret_one, h', [v'])" "vec_ok v'" "h_next h' = h_next ?g"
    "store_ok (h_mem h') (h_next ?g) (?B(?i := v_list v'))"
    "table (h_mem h') (v_list v') = (table (h_mem ?g) (?B ?i))(k \<mapsto> w)"
    "\<And>i'. i' \<noteq> ?i \<Longrightarrow> table (h_mem h') (?B i') = table (h_mem ?g) (?B i')"
    "\<forall>b\<in>set (?B ?i). kof (h_mem ?h) b = k \<longrightarrow>
       h_mem h' (b_value b) = None \<and> h_mem h' (b_key b) = h_mem ?h (b_key b)"
    using OnSetReq_ok [OF g(1) v(2) vl blk(1) _ req(1) blk(2) free, of "hash_of k"] free [of 0] by auto
  let ?s = "s\<lparr>kv_mem := h', kv_tab := (kv_tab s)(?i := [v'])\<rparr>"
  have "kv_request al junk (set_request f k w t) s = Inr (Some Ret_one, ?s)"
    using o(1) by (simp add: kv_request_def parse_set_request req v)
  moreover have "kv_ok ?s" using o(2,3,4) ok unfolding kv_ok_def buckets_upd by auto
  moreover have "kv_lookup ?s = (kv_lookup s)(k \<mapsto> w)"
    using o(5,6) g(2) by (auto simp: kv_lookup_def fun_eq_iff)
  ultimately show ?thesis using o(7) by auto
qed

definition value_text :: "string \<Rightarrow> string \<Rightarrow> string" where
  "value_text k v =
     ''VALUE '' @ k @ '' '' @ printf_d (length k) @ '' '' @ printf_d (length v) @ crlf @
     takeWhile (\<lambda>c. c \<noteq> NUL) v @ crlf @ ''END'' @ crlf"

definition miss_text :: string where
  "miss_text = ''VALUE miss 4 4'' @ crlf @ ''miss'' @ crlf @ ''END'' @ crlf"

lemma mem_str_NUL:
  assumes "h_mem h a = Some (s @ [NUL])"
  shows "mem_str h a = Inr (takeWhile (\<lambda>c. c \<noteq> NUL) s)"
proof -
  have "takeWhile (\<lambda>c. c \<noteq> NUL) (s @ [NUL]) = takeWhile (\<lambda>c. c \<noteq> NUL) s"
    by (induction s) auto
  moreover have "take (length (takeWhile P s)) s = takeWhile P s" for P :: "char \<Rightarrow> bool"
    by (metis takeWhile_eq_take)
  ultimately show ?thesis
    using assms length_takeWhile_le [of "\<lambda>c. c \<noteq> NUL" s]
    by (simp add: mem_str_def c_strlen_def Let_def le_imp_less_Suc)
qed

lemma reply_bucket:
  assumes "bucket_ok (h_mem h) b"
  shows "reply_text h (Ret_bucket b) = Inr (value_text (kof (h_mem h) b) (vof (h_mem h) b))"
proof -
  have "takeWhile (\<lambda>c. c \<noteq> NUL) (kof (h_mem h) b) = kof (h_mem h) b"
    using assms by (auto simp: bucket_ok_def takeWhile_eq_all_conv)
  with assms show ?thesis
    unfolding bucket_ok_def by (simp add: reply_text_def mem_str_NUL value_text_def)
qed

lemma table_None: "k \<notin> kof mem ` set bs \<Longrightarrow> table mem bs k = None"
  by (force simp: table_def map_of_eq_None_iff)

lemma table_Some:
  assumes "distinct (map (kof mem) bs)" "b \<in> set bs"
  shows "table mem bs (kof mem b) = Some (vof mem b)"
  using assms by (auto simp: table_def comp_def)

lemma kv_get_ok:
  assumes ok: "kv_ok s" and req: "NUL \<notin> set k" "CHR 0x0D \<notin> set k"
  shows "\<exists>s' r. kv_request al junk (get_request k t) s = Inr (Some r, s') \<and> kv_ok s' \<and>
    buckets s' = buckets s \<and> kv_lookup s' = kv_lookup s \<and>
    reply_text (kv_mem s') r = Inr (case kv_lookup s k of None \<Rightarrow> miss_text | Some v \<Rightarrow> value_text k v) \<and>
    (r = Ret_null \<and> kv_lookup s k = None \<or> (\<exists>b\<in>set (buckets s' (inst_of k)). r = Ret_bucket b \<and> kof (h_mem (kv_mem s')) b = k))"
proof -
  let ?h = "kv_mem s" and ?B = "buckets s" and ?i = "inst_of k"
  let ?g = "snd (c_malloc k ?h)"
  have st: "store_ok (h_mem ?h) (h_next ?h) ?B" using ok by (simp add: kv_ok_def)
  have top: "h_mem ?h a = None" if "h_next ?h \<le> a" for a using store_okD(4) [OF st] that by blast
  have hg: "h_mem ?g = (h_mem ?h)(h_next ?h \<mapsto> k)" "h_next ?g = h_next ?h + 1"
    by (simp_all add: c_malloc_def)
  have g: "store_ok (h_mem ?g) (h_next ?g) ?B" "table (h_mem ?g) (?B i) = table (h_mem ?h) (?B i)" for i
    unfolding hg by (rule store_frame [OF st, of "h_next ?h + 1"]; simp add: top)+
  obtain v where v: "kv_tab s ?i = [v]" using ok by (auto simp: kv_ok_def)
  have vl: "v_list v = ?B ?i" by (simp add: buckets_def v)
  let ?s = "s\<lparr>kv_mem := ?g\<rparr>"
  have B: "buckets ?s = ?B" by (simp add: buckets_def fun_eq_iff)
  have s: "kv_ok ?s" "kv_lookup ?s = kv_lookup s" using ok g B by (auto simp: kv_ok_def kv_lookup_def)
  have all: "\<forall>b\<in>set (?B ?i). bucket_ok (h_mem ?g) b" using g(1) by (simp add: store_ok_def)
  have step: "kv_request al junk (get_request k t) s = Inr (Some r, ?s)"
    if "OnGetReq (h_next ?h) (length k) (hash_of k) ?g [v] = Inr r" for r
    using that by (simp add: kv_request_def parse_get_request req v)
  consider "find_bucket ?g (h_next ?h) (length k) (?B ?i) = Inr None" "k \<notin> kof (h_mem ?g) ` set (?B ?i)"
    | j where "find_bucket ?g (h_next ?h) (length k) (?B ?i) = Inr (Some j)" "j < length (?B ?i)"
        "kof (h_mem ?g) (?B ?i ! j) = k"
    using find_bucket_spec [OF all, of "h_next ?h" k "[]"] by (auto simp: hg)
  then show ?thesis
  proof cases
    case 1
    then have "kv_lookup s k = None" by (simp add: kv_lookup_def table_None flip: g(2))
    then show ?thesis
      using 1 step [of Ret_null] s B
      by (auto simp: OnGetReq_def vec_at_def vl reply_text_def miss_text_def)
  next
    case 2
    let ?b = "?B ?i ! j"
    have "kv_lookup s k = Some (vof (h_mem ?g) ?b)"
      using table_Some [OF store_okD(2) [OF g(1)], of ?b ?i] 2 g(2) by (simp add: kv_lookup_def)
    then show ?thesis
      using 2 step [of "Ret_bucket ?b"] s B reply_bucket [of ?g ?b] all
      by (auto simp: OnGetReq_def vec_at_def vl)
  qed
qed

section \<open>A key-value service\<close>

fun put_all :: "('k \<Rightarrow> 'v \<Rightarrow> 's \<Rightarrow> 's res) \<Rightarrow> ('k \<times> 'v) list \<Rightarrow> 's \<Rightarrow> 's res" where
  "put_all put [] s = Inr s"
| "put_all put ((k, v) # kvs) s = bind_res (put k v s) (put_all put kvs)"

text \<open>What clients rely on, and that the last value put under a key is the one found.\<close>

locale key_value =
  fixes ok :: "'s \<Rightarrow> bool"
    and adm :: "'k \<Rightarrow> 'v \<Rightarrow> bool"
    and put :: "'k \<Rightarrow> 'v \<Rightarrow> 's \<Rightarrow> 's res"
    and look :: "'s \<Rightarrow> 'k \<Rightarrow> 'v option"
  assumes put_law: "ok s \<Longrightarrow> adm k v \<Longrightarrow> \<exists>s'. put k v s = Inr s' \<and> ok s' \<and> look s' = (look s)(k \<mapsto> v)"
begin

lemma put_all_last:
  "ok s \<Longrightarrow> \<forall>(k, v)\<in>set kvs. adm k v \<Longrightarrow>
   \<exists>s'. put_all put kvs s = Inr s' \<and> ok s' \<and> look s' = look s ++ map_of (rev kvs)"
proof (induction kvs arbitrary: s)
  case (Cons kv kvs)
  obtain k v where [simp]: "kv = (k, v)" by (cases kv)
  obtain s1 where s1: "put k v s = Inr s1" "ok s1" "look s1 = (look s)(k \<mapsto> v)"
    using put_law [OF Cons.prems(1), of k v] Cons.prems(2) by auto
  obtain s' where s': "put_all put kvs s1 = Inr s'" "ok s'" "look s' = look s1 ++ map_of (rev kvs)"
    using Cons.IH [OF s1(2)] Cons.prems(2) by auto
  have "look s ++ map_of (rev (kv # kvs)) = look s1 ++ map_of (rev kvs)"
    by (auto simp: s1(3) fun_eq_iff map_add_def split: option.split)
  then show ?case using s1(1) s' by (simp only: put_all.simps \<open>kv = (k, v)\<close> bind_res_simps) blast
qed simp

end

definition kv_put :: "nat \<Rightarrow> bytes \<Rightarrow> string \<Rightarrow> string \<Rightarrow> string \<Rightarrow> string \<Rightarrow> kv_state \<Rightarrow> kv_state res" where
  "kv_put al junk f t k v s = bind_res (kv_package al junk (set_request f k v t) s) (\<lambda>(r, s). Inr s)"

definition kv_adm :: "string \<Rightarrow> string \<Rightarrow> bool" where
  "kv_adm k v \<longleftrightarrow> NUL \<notin> set k \<and> length v < 10"

interpretation kvs: key_value kv_ok kv_adm "kv_put al junk ''0 0 '' t" kv_lookup
  for al junk t
proof
  fix s k v
  assume "kv_ok s" "kv_adm k v"
  then show "\<exists>s'. kv_put al junk ''0 0 '' t k v s = Inr s' \<and> kv_ok s' \<and> kv_lookup s' = (kv_lookup s)(k \<mapsto> v)"
    using kv_set_ok [of s k "''0 0 ''" v al junk "t @ [NUL]"]
    by (auto simp: kv_put_def kv_adm_def package_request)
qed

text \<open>The tables after start-up.\<close>

definition kv_init :: "nat \<Rightarrow> kv_state" where
  "kv_init cap = \<lparr>kv_mem = \<lparr>h_mem = (\<lambda>_. None), h_next = 2\<rparr>, kv_tab = (\<lambda>_. HashTable_init cap)\<rparr>"

lemma kv_init_ok: "kv_ok (kv_init cap)" "kv_lookup (kv_init cap) = (\<lambda>_. None)"
  by (auto simp: kv_ok_def kv_init_def HashTable_init_def store_ok_def buckets_def v_list_def slots_def
      vec_ok_def kv_lookup_def table_def inj_on_def)



text \<open>
  The answer to a get carries pointers into the table.  If the same key is set again before
  the driver prints the answer, the value has been freed: the driver reads freed memory.
\<close>

theorem kv_reply_after_free:
  assumes "kv_ok s" "kv_lookup s k \<noteq> None" "NUL \<notin> set k" "CHR 0x0D \<notin> set k" "length w < 10"
    and "kv_request al junk (get_request k t) s = Inr (Some r, s1)"
    and "kv_request al' junk' (set_request ''0 0 '' k w t') s1 = Inr (q, s2)"
  shows "OnReqReturn (kv_mem s2) r = Inl Use_after_free"
proof -
  obtain s' r' where g: "kv_request al junk (get_request k t) s = Inr (Some r', s')" "kv_ok s'"
    "r' = Ret_null \<and> kv_lookup s k = None \<or>
     (\<exists>b\<in>set (buckets s' (inst_of k)). r' = Ret_bucket b \<and> kof (h_mem (kv_mem s')) b = k)"
    by (rule exE [OF kv_get_ok [OF assms(1,3,4), of al junk t]]) (elim exE conjE, rule that)
  have "r' = r" "s' = s1" using g(1) assms(6) by simp_all
  then obtain b where b: "r = Ret_bucket b" "kv_ok s1" "b \<in> set (buckets s1 (inst_of k))"
    "kof (h_mem (kv_mem s1)) b = k"
    using g(2,3) assms(2) by blast
  obtain s'' where u: "kv_request al' junk' (set_request ''0 0 '' k w t') s1 = Inr (Some Ret_one, s'')"
    "\<forall>b\<in>set (buckets s1 (inst_of k)). kof (h_mem (kv_mem s1)) b = k \<longrightarrow>
       h_mem (kv_mem s'') (b_value b) = None \<and> h_mem (kv_mem s'') (b_key b) = h_mem (kv_mem s1) (b_key b)"
    using kv_set_ok [OF b(2) assms(3) _ assms(5), of "''0 0 ''" al' junk' t'] by auto
  have "s'' = s2" using u(1) assms(7) by simp
  then have v: "h_mem (kv_mem s2) (b_value b) = None"
    "h_mem (kv_mem s2) (b_key b) = h_mem (kv_mem s1) (b_key b)"
    using u(2) b(3,4) by simp_all
  have "bucket_ok (h_mem (kv_mem s1)) b" using b(2,3) by (auto simp: kv_ok_def store_ok_def)
  then have "mem_str (kv_mem s2) (b_key b) = Inr k"
    using mem_str_NUL [of "kv_mem s2" "b_key b" k] v(2) b(4) assms(3)
    by (auto simp: bucket_ok_def takeWhile_eq_all_conv)
  then show ?thesis
    using v(1) by (simp add: b(1) OnReqReturn_def reply_text_def mem_str_def [of _ "b_value b"])
qed

theorem kv_reply_after_free_witness:
  "\<exists>s r s1 q s2. kv_lookup s ''a'' = Some ''x'' \<and>
    kv_request 0 (\<lambda>_. 0) (get_request ''a'' []) s = Inr (Some r, s1) \<and>
    kv_request 0 (\<lambda>_. 0) (set_request ''0 0 '' ''a'' ''y'' []) s1 = Inr (q, s2) \<and>
    OnReqReturn (kv_mem s2) r = Inl Use_after_free"
proof -
  obtain s where s: "kv_ok s" "kv_lookup s = (\<lambda>_. None)(''a'' \<mapsto> ''x'')"
    using kv_set_ok [OF kv_init_ok(1), of "''a''" "''0 0 ''" "''x''" 0 "\<lambda>_. 0" "[]" 0]
    by (auto simp: kv_init_ok(2))
  obtain r s1 where g: "kv_request 0 (\<lambda>_. 0) (get_request ''a'' []) s = Inr (Some r, s1)" "kv_ok s1"
    using kv_get_ok [OF s(1), of "''a''" 0 "\<lambda>_. 0" "[]"] by auto
  obtain q s2 where u: "kv_request 0 (\<lambda>_. 0) (set_request ''0 0 '' ''a'' ''y'' []) s1 = Inr (q, s2)"
    using kv_set_ok [OF g(2), of "''a''" "''0 0 ''" "''y''" 0 "\<lambda>_. 0" "[]"] by auto
  have "OnReqReturn (kv_mem s2) r = Inl Use_after_free"
    by (rule kv_reply_after_free [OF s(1) _ _ _ _ g(1) u]) (simp_all add: s(2))
  moreover have "kv_lookup s ''a'' = Some ''x''" by (simp add: s(2))
  ultimately show ?thesis using g(1) u by blast
qed

end
