(* ===== verification/Stream_Handler.thy ===== *)
theory Stream_Handler
  imports Actor
begin

text \<open>
  Stream handlers (\<open>include/mola/event_handler.hpp\<close>): the buffers of a socket, the write side with its
  mailbox of buffers, and the read side that fills the buffers of a stream manager.  The results of
  the system calls \<open>read\<close> and \<open>write\<close> are parameters.
\<close>

section \<open>The mailbox of buffers\<close>

text \<open>
  The mailbox of a handler has one priority.  It is used through the specification of its
  operations, as in \<^theory_text>\<open>Actor\<close>.
\<close>

record 'b sbox =
  sb_stack :: "'b list"
  sb_queue :: "'b list"
  sb_mark :: box_mark

definition sbox_new :: "'b sbox" where
  "sbox_new = \<lparr>sb_stack = [], sb_queue = [], sb_mark = Box_blocked\<rparr>"

definition sbox_enqueue :: "'b \<Rightarrow> 'b sbox \<Rightarrow> enqueue_status \<times> 'b sbox" where
  "sbox_enqueue x b =
     (case sb_mark b of
        Box_closed \<Rightarrow> (MAILBOX_FAILURE, b)
      | Box_blocked \<Rightarrow> (MAILBOX_UNBLOCKED, b\<lparr>sb_stack := x # sb_stack b, sb_mark := Box_open\<rparr>)
      | Box_open \<Rightarrow> (MAILBOX_SUCCESS, b\<lparr>sb_stack := x # sb_stack b\<rparr>))"

definition sbox_dequeue :: "'b sbox \<Rightarrow> ('b option \<times> 'b sbox) res" where
  "sbox_dequeue b =
     (if sb_mark b = Box_closed \<and> sb_queue b = [] then Inl Wild_deref
      else case abs_dequeue (\<lambda>_. 0) (sb_stack b) [sb_queue b] of
             (r, st, qs) \<Rightarrow> Inr (r, b\<lparr>sb_stack := st, sb_queue := concat qs\<rparr>))"

definition sbox_try_block :: "'b sbox \<Rightarrow> bool \<times> 'b sbox" where
  "sbox_try_block b =
     (if sb_queue b = [] \<and> sb_stack b = [] \<and> sb_mark b = Box_open
      then (True, b\<lparr>sb_mark := Box_blocked\<rparr>) else (False, b))"

text \<open>
  \<open>close\<close> deletes one node of the private queue, and its loop over two or more shared nodes reads a
  deleted one.
\<close>

definition sbox_close :: "'b sbox \<Rightarrow> 'b sbox res" where
  "sbox_close b =
     (if 2 \<le> length (sb_stack b) then Inl Use_after_free
      else Inr \<lparr>sb_stack = [], sb_queue = tl (sb_queue b), sb_mark = Box_closed\<rparr>)"

definition contents :: "'b sbox \<Rightarrow> 'b list" where
  "contents b = sb_queue b @ rev (sb_stack b)"

section \<open>The write side\<close>

text \<open>
  A buffer with the buffers linked to it is the list of their bytes; the null pointer is the empty
  list.  \<open>w_calls\<close> counts the calls of \<open>write\<close>.  Three fields are for specification: the bytes the socket
  has taken, the buffers accepted by \<open>async_write\<close>, and whether the last call took less than it was
  given.
\<close>

type_synonym linked = "u8 list list"

record wside =
  w_box :: "linked sbox"
  w_cur :: linked
  w_written :: nat
  w_calls :: nat
  w_wire :: "u8 list"
  w_sent :: "linked list"
  w_short :: bool

definition wr_init :: wside where
  "wr_init = \<lparr>w_box = sbox_new, w_cur = [], w_written = 0, w_calls = 0, w_wire = [], w_sent = [], w_short = False\<rparr>"

text \<open>What \<open>write\<close> returns: a number of bytes, -1 with \<open>EAGAIN\<close>, or -1 with another error.\<close>

datatype write_ret = Wrote nat | W_again | W_error

type_synonym socket = "nat \<Rightarrow> nat \<Rightarrow> write_ret"

text \<open>\<open>write\<close> never takes more than it is given.\<close>

definition socket_ok :: "socket \<Rightarrow> bool" where
  "socket_ok sock \<longleftrightarrow> (\<forall>i n k. sock i n = Wrote k \<longrightarrow> k \<le> n)"

text \<open>The fetching loop; \<open>True\<close> when the handler returns because there is nothing to write.\<close>

definition wr_fetch :: "wside \<Rightarrow> (bool \<times> wside) res" where
  "wr_fetch s =
     (if w_cur s \<noteq> [] then Inr (False, s)
      else bind_res (sbox_dequeue (w_box s)) (\<lambda>(r, b).
        case r of
          Some c \<Rightarrow> Inr (False, s\<lparr>w_box := b, w_cur := c\<rparr>)
        | None \<Rightarrow>
            if sb_mark b = Box_blocked then Inr (True, s\<lparr>w_box := b\<rparr>)
            else (case sbox_try_block b of
                    (True, b) \<Rightarrow> Inr (True, s\<lparr>w_box := b\<rparr>)
                  | (False, b) \<Rightarrow> Inl Diverges)))"

definition write_loop :: "wside \<Rightarrow> wside" where
  "write_loop s = s\<lparr>w_written := 0, w_cur := tl (w_cur s)\<rparr>"

text \<open>One pass from the label \<open>__wr_loop\<close>; the result tells whether control goes back to it.\<close>

definition wr_pass :: "socket \<Rightarrow> wside \<Rightarrow> (bool \<times> wside) res" where
  "wr_pass sock s =
     bind_res (wr_fetch s) (\<lambda>(idle, s).
     if idle then Inr (False, s)
     else
       let rest = drop (w_written s) (hd (w_cur s));
           r = sock (w_calls s) (length rest);
           s = s\<lparr>w_calls := w_calls s + 1, w_short := (r \<noteq> Wrote (length rest))\<rparr> in
       case r of
         W_error \<Rightarrow> bind_res (sbox_close (w_box s)) (\<lambda>b. Inr (False, s\<lparr>w_box := b\<rparr>))
       | W_again \<Rightarrow> Inr (False, s)
       | Wrote k \<Rightarrow>
           if 0 < k then
             let s = s\<lparr>w_written := w_written s + k, w_wire := w_wire s @ take k rest\<rparr> in
             if w_written s = length (hd (w_cur s)) then Inr (True, write_loop s) else Inr (False, s)
           else Inr (False, s))"

definition buffers_left :: "wside \<Rightarrow> nat" where
  "buffers_left s = length (w_cur s) + length (concat (contents (w_box s))) + length (contents (w_box s))"

lemma dequeue_one:
  "abs_dequeue (\<lambda>_. 0) st [q] =
     (case q of
        x # q' \<Rightarrow> (Some x, st, [q'])
      | [] \<Rightarrow> (case rev st of x # q' \<Rightarrow> (Some x, [], [q']) | [] \<Rightarrow> (None, st, [q])))"
proof -
  have "distribute (\<lambda>_. 0) st [q] = [rev st @ q]" for q :: "'a list"
    by (induction st arbitrary: q) simp_all
  then show ?thesis
    by (auto simp: abs_dequeue_def split: list.split)
qed

lemma contents_mark [simp]: "contents (b\<lparr>sb_mark := m\<rparr>) = contents b"
  by (simp add: contents_def)

lemma sbox_dequeue_open:
  "sb_mark b \<noteq> Box_closed \<or> sb_queue b \<noteq> [] \<Longrightarrow> \<exists>b'. sb_mark b' = sb_mark b \<and>
     (contents b = [] \<and> sbox_dequeue b = Inr (None, b') \<and> contents b' = [] \<or>
      (\<exists>x. sbox_dequeue b = Inr (Some x, b') \<and> contents b = x # contents b'))"
  by (auto simp: sbox_dequeue_def dequeue_one contents_def split: list.split)

lemma wr_fetch_left: "wr_fetch s = Inr (i, s') \<Longrightarrow> buffers_left s' \<le> buffers_left s \<and>
    (w_cur s' = [] \<and> \<not> i \<longrightarrow> buffers_left s' < buffers_left s)"
proof (cases "w_cur s = []")
  case True
  assume f: "wr_fetch s = Inr (i, s')"
  show ?thesis
  proof (cases "sb_mark (w_box s) \<noteq> Box_closed \<or> sb_queue (w_box s) \<noteq> []")
    case op: True
    then show ?thesis
      using sbox_dequeue_open [OF op] f True
      by (auto simp: wr_fetch_def buffers_left_def sbox_try_block_def split: if_splits bool.splits)
  next
    case False
    then show ?thesis using f True by (simp add: wr_fetch_def sbox_dequeue_def)
  qed
qed (auto simp: wr_fetch_def)

lemma wr_pass_left:
  assumes "wr_pass sock s = Inr (True, s')"
  shows "buffers_left s' < buffers_left s"
proof -
  obtain s1 where f: "wr_fetch s = Inr (False, s1)"
    using assms by (auto simp: wr_pass_def bind_res_Inr_iff split: if_splits)
  then have "w_cur s' = tl (w_cur s1)" "w_box s' = w_box s1"
    using assms by (auto simp: wr_pass_def Let_def write_loop_def bind_res_Inr_iff split: write_ret.splits if_splits)
  then show ?thesis using wr_fetch_left [OF f] by (cases "w_cur s1") (auto simp: buffers_left_def)
qed

text \<open>The event \<open>WRITE\<close>, with the lock of the handler held; the handler returns false.\<close>

function handle_write :: "socket \<Rightarrow> wside \<Rightarrow> wside res" where
  "handle_write sock s =
     (case wr_pass sock s of
        Inl e \<Rightarrow> Inl e
      | Inr (again, s') \<Rightarrow> if again then handle_write sock s' else Inr s')"
  by pat_completeness auto
termination
  by (relation "measure (\<lambda>(sock, s). buffers_left s)") (auto dest: wr_pass_left)

declare handle_write.simps [simp del]

text \<open>\<open>async_write\<close>, for one buffer and for several that are sent as one.\<close>

definition async_write :: "socket \<Rightarrow> linked \<Rightarrow> wside \<Rightarrow> (int \<times> wside) res" where
  "async_write sock c s =
     (case sbox_enqueue c (w_box s) of
        (r, b) \<Rightarrow>
          if r = MAILBOX_FAILURE then Inr (-1, s)
          else
            let s = s\<lparr>w_box := b, w_sent := w_sent s @ [c]\<rparr> in
            if r = MAILBOX_UNBLOCKED then bind_res (handle_write sock s) (\<lambda>s. Inr (0, s))
            else Inr (0, s))"

definition async_write_list :: "socket \<Rightarrow> u8 list list \<Rightarrow> wside \<Rightarrow> (int \<times> wside) res" where
  "async_write_list sock bufs s = (if bufs = [] then Inl Out_of_range else async_write sock bufs s)"

datatype wevent = Send "u8 list list" | Writable

fun wr_run :: "socket \<Rightarrow> wevent list \<Rightarrow> wside \<Rightarrow> wside res" where
  "wr_run sock [] s = Inr s"
| "wr_run sock (Send c # es) s = bind_res (async_write_list sock c s) (\<lambda>(r, s). wr_run sock es s)"
| "wr_run sock (Writable # es) s = bind_res (handle_write sock s) (wr_run sock es)"

fun sends :: "wevent list \<Rightarrow> u8 list list list" where
  "sends [] = []"
| "sends (Send c # es) = c # sends es"
| "sends (Writable # es) = sends es"

section \<open>Nothing is lost, reordered or left behind\<close>

definition unsent :: "wside \<Rightarrow> u8 list" where
  "unsent s = drop (w_written s) (concat (w_cur s)) @ concat (map concat (contents (w_box s)))"

definition w_ok :: "wside \<Rightarrow> bool" where
  "w_ok s \<longleftrightarrow>
     sb_mark (w_box s) \<noteq> Box_closed \<and>
     (sb_mark (w_box s) = Box_blocked \<longrightarrow> w_cur s = [] \<and> contents (w_box s) = []) \<and>
     (\<forall>c\<in>set (contents (w_box s)). c \<noteq> [] \<and> [] \<notin> set c) \<and> [] \<notin> set (w_cur s) \<and>
     (if w_cur s = [] then w_written s = 0 else w_written s < length (hd (w_cur s))) \<and>
     w_wire s @ unsent s = concat (map concat (w_sent s))"

definition settled :: "wside \<Rightarrow> bool" where
  "settled s \<longleftrightarrow>
     sb_mark (w_box s) = Box_blocked \<and> w_cur s = [] \<and> contents (w_box s) = [] \<or>
     sb_mark (w_box s) = Box_open \<and> w_short s"

lemma wr_fetch_ok:
  assumes ok: "w_ok s"
  shows "(\<exists>s'. wr_fetch s = Inr (True, s') \<and> w_ok s' \<and> settled s' \<and> w_sent s' = w_sent s) \<or>
    (\<exists>s'. wr_fetch s = Inr (False, s') \<and> w_ok s' \<and> w_cur s' \<noteq> [] \<and> w_sent s' = w_sent s)"
proof (cases "w_cur s = []")
  case True
  obtain b' where b': "sb_mark b' = sb_mark (w_box s)"
    "contents (w_box s) = [] \<and> sbox_dequeue (w_box s) = Inr (None, b') \<and> contents b' = [] \<or>
     (\<exists>x. sbox_dequeue (w_box s) = Inr (Some x, b') \<and> contents (w_box s) = x # contents b')"
    using sbox_dequeue_open [of "w_box s"] ok by (auto simp: w_ok_def)
  from b'(2) show ?thesis
  proof (elim disjE exE conjE)
    assume e: "contents (w_box s) = []" "sbox_dequeue (w_box s) = Inr (None, b')" "contents b' = []"
    have "sb_mark b' = Box_blocked \<or> sb_mark b' = Box_open" "sb_queue b' = []" "sb_stack b' = []"
      using b'(1) ok e(3) by (auto simp: w_ok_def contents_def intro: box_mark.exhaust)
    then show ?thesis
      using e True ok b'(1)
      by (auto simp: wr_fetch_def sbox_try_block_def w_ok_def settled_def unsent_def)
  next
    fix x
    assume x: "sbox_dequeue (w_box s) = Inr (Some x, b')" "contents (w_box s) = x # contents b'"
    then have "w_ok (s\<lparr>w_box := b', w_cur := x\<rparr>)" "x \<noteq> []"
      using ok True b'(1) by (cases x; auto simp: w_ok_def unsent_def)+
    then show ?thesis using x True by (simp add: wr_fetch_def)
  qed
qed (use ok in \<open>simp add: wr_fetch_def\<close>)

lemma wrote_ok:
  assumes ok: "w_ok s" and c: "w_cur s = c # cs" and k: "w_written s + k \<le> length c"
    and s': "s' = s\<lparr>w_calls := n, w_short := sh, w_written := w_written s + k,
      w_wire := w_wire s @ take k (drop (w_written s) c)\<rparr>"
  shows "w_written s + k < length c \<Longrightarrow> w_ok s'" "w_written s + k = length c \<Longrightarrow> w_ok (write_loop s')"
proof -
  let ?R = "concat cs @ concat (map concat (contents (w_box s)))"
  have "take k (drop (w_written s) c) @ drop (w_written s + k) c = drop (w_written s) c"
    by (metis append_take_drop_id drop_drop add.commute)
  then have bytes: "w_wire s' @ drop (w_written s + k) c @ ?R = w_wire s @ unsent s"
    using c k by (simp add: s' unsent_def)
  have sent: "w_wire s @ unsent s = concat (map concat (w_sent s))" using ok by (simp add: w_ok_def)
  show "w_ok s'" if "w_written s + k < length c"
  proof -
    have "unsent s' = drop (w_written s + k) c @ ?R" using that by (simp add: s' unsent_def c)
    then show ?thesis using that ok c bytes sent by (simp add: w_ok_def s')
  qed
  show "w_ok (write_loop s')" if "w_written s + k = length c"
  proof -
    have "unsent (write_loop s') = ?R" by (simp add: s' unsent_def c write_loop_def)
    moreover have "drop (w_written s + k) c = []" using that by simp
    ultimately have "w_wire s' @ unsent (write_loop s') = concat (map concat (w_sent s))"
      using bytes sent by simp
    then show ?thesis using ok c by (cases cs) (auto simp: w_ok_def write_loop_def s')
  qed
qed

lemma wr_pass_ok:
  assumes ok: "w_ok s" and sock: "socket_ok sock" "\<And>i n. sock i n \<noteq> W_error"
  shows "\<exists>again s'. wr_pass sock s = Inr (again, s') \<and> w_ok s' \<and> w_sent s' = w_sent s \<and>
    (\<not> again \<longrightarrow> settled s')"
  using wr_fetch_ok [OF ok]
proof (elim disjE exE conjE)
  fix s1
  assume "wr_fetch s = Inr (True, s1)" "w_ok s1" "settled s1" "w_sent s1 = w_sent s"
  then show ?thesis by (auto simp: wr_pass_def)
next
  fix s1
  assume f: "wr_fetch s = Inr (False, s1)" "w_ok s1" "w_cur s1 \<noteq> []" "w_sent s1 = w_sent s"
  obtain c cs where c: "w_cur s1 = c # cs" using f(3) by (cases "w_cur s1") auto
  let ?rest = "drop (w_written s1) c"
  let ?r = "sock (w_calls s1) (length ?rest)"
  let ?s = "s1\<lparr>w_calls := w_calls s1 + 1, w_short := (?r \<noteq> Wrote (length ?rest))\<rparr>"
  have w: "w_written s1 < length c" "sb_mark (w_box s1) = Box_open"
    using f(2) c by (auto simp: w_ok_def intro: box_mark.exhaust)
  have s: "w_ok ?s" using f(2) by (simp add: w_ok_def unsent_def)
  have stop: "settled t" if "w_box t = w_box s1" "w_short t" for t
    using that w(2) by (simp add: settled_def)
  consider (again) "?r = W_again" | (none) "?r = Wrote 0"
    | (some) k where "?r = Wrote k" "0 < k" "w_written s1 + k < length c"
    | (all) k where "?r = Wrote k" "0 < k" "w_written s1 + k = length c"
    using sock w(1) by (cases ?r) (force simp: socket_ok_def)+
  then show ?thesis
  proof cases
    case again
    then show ?thesis using f(1,4) s stop [of ?s] by (auto simp: wr_pass_def Let_def c)
  next
    case none
    then show ?thesis using f(1,4) s stop [of ?s] w(1) by (auto simp: wr_pass_def Let_def c)
  next
    case some
    let ?t = "?s\<lparr>w_written := w_written s1 + k, w_wire := w_wire s1 @ take k ?rest\<rparr>"
    have "w_ok ?t" by (rule wrote_ok(1) [OF f(2) c]) (use some in simp_all)
    moreover have "wr_pass sock s = Inr (False, ?t)"
      using f(1) some by (simp add: wr_pass_def Let_def c)
    moreover have "w_sent ?t = w_sent s" "settled ?t" using f(4) some by (auto intro!: stop)
    ultimately show ?thesis by blast
  next
    case all
    let ?t = "?s\<lparr>w_written := w_written s1 + k, w_wire := w_wire s1 @ take k ?rest\<rparr>"
    have "w_ok (write_loop ?t)" by (rule wrote_ok(2) [OF f(2) c]) (use all in simp_all)
    moreover have "wr_pass sock s = Inr (True, write_loop ?t)"
      using f(1) all by (simp add: wr_pass_def Let_def c)
    moreover have "w_sent (write_loop ?t) = w_sent s" using f(4) by (simp add: write_loop_def)
    ultimately show ?thesis by blast
  qed
qed

lemma handle_write_ok:
  assumes "socket_ok sock" "\<And>i n. sock i n \<noteq> W_error" "w_ok s"
  shows "\<exists>s'. handle_write sock s = Inr s' \<and> w_ok s' \<and> settled s' \<and> w_sent s' = w_sent s"
  using assms
proof (induction sock s rule: handle_write.induct)
  case (1 sock s)
  obtain again s1 where p: "wr_pass sock s = Inr (again, s1)" "w_ok s1" "w_sent s1 = w_sent s"
    "\<not> again \<longrightarrow> settled s1"
    using wr_pass_ok [OF 1(4,2,3)] by blast
  show ?case
  proof (cases again)
    case True
    then have "\<exists>s'. handle_write sock s1 = Inr s' \<and> w_ok s' \<and> settled s' \<and> w_sent s' = w_sent s1"
      using 1(1) [OF p(1) refl _ 1(2,3) p(2)] by simp
    then show ?thesis using True p by (subst handle_write.simps) simp
  next
    case False
    then show ?thesis using p by (subst handle_write.simps) simp
  qed
qed

definition linked_ok :: "linked \<Rightarrow> bool" where
  "linked_ok c \<longleftrightarrow> c \<noteq> [] \<and> [] \<notin> set c"

lemma async_write_ok:
  assumes sock: "socket_ok sock" "\<And>i n. sock i n \<noteq> W_error" and s: "w_ok s" "settled s" and c: "linked_ok c"
  shows "\<exists>s'. async_write_list sock c s = Inr (0, s') \<and> w_ok s' \<and> settled s' \<and> w_sent s' = w_sent s @ [c]"
proof (cases "sb_mark (w_box s) = Box_open")
  case True
  then show ?thesis
    using s c by (auto simp: async_write_list_def async_write_def sbox_enqueue_def w_ok_def settled_def
        unsent_def contents_def linked_ok_def)
next
  case False
  let ?s = "s\<lparr>w_box := (w_box s)\<lparr>sb_stack := c # sb_stack (w_box s), sb_mark := Box_open\<rparr>,
    w_sent := w_sent s @ [c]\<rparr>"
  have m: "sb_mark (w_box s) = Box_blocked" "w_cur s = []" "contents (w_box s) = []"
    using False s by (auto simp: settled_def)
  then have "w_ok ?s"
    using s c by (auto simp: w_ok_def unsent_def contents_def linked_ok_def)
  then obtain s' where "handle_write sock ?s = Inr s'" "w_ok s'" "settled s'" "w_sent s' = w_sent ?s"
    using handle_write_ok [OF sock] by blast
  then show ?thesis
    using m c by (auto simp: async_write_list_def async_write_def sbox_enqueue_def linked_ok_def)
qed

lemma wr_run_ok:
  assumes sock: "socket_ok sock" "\<And>i n. sock i n \<noteq> W_error"
  shows "w_ok s \<Longrightarrow> settled s \<Longrightarrow> list_all linked_ok (sends es) \<Longrightarrow>
    \<exists>s'. wr_run sock es s = Inr s' \<and> w_ok s' \<and> settled s' \<and> w_sent s' = w_sent s @ sends es"
proof (induction es arbitrary: s)
  case (Cons e es)
  show ?case
  proof (cases e)
    case (Send c)
    then obtain s1 where "async_write_list sock c s = Inr (0, s1)" "w_ok s1" "settled s1" "w_sent s1 = w_sent s @ [c]"
      using async_write_ok [OF sock Cons.prems(1,2), of c] Cons.prems(3) by auto
    then show ?thesis using Cons.IH [of s1] Cons.prems(3) Send by auto
  next
    case Writable
    obtain s1 where "handle_write sock s = Inr s1" "w_ok s1" "settled s1" "w_sent s1 = w_sent s"
      using handle_write_ok [OF sock Cons.prems(1)] by blast
    then show ?thesis using Cons.IH [of s1] Cons.prems(3) Writable by auto
  qed
qed simp

lemma wr_init_ok: "w_ok wr_init" "settled wr_init" "w_sent wr_init = []"
  by (simp_all add: wr_init_def w_ok_def settled_def unsent_def sbox_new_def contents_def)

lemma write_order:
  assumes "socket_ok sock" "\<And>i n. sock i n \<noteq> W_error" "list_all linked_ok (sends es)"
  shows "\<exists>s. wr_run sock es wr_init = Inr s \<and>
    w_wire s @ unsent s = concat (map concat (sends es)) \<and>
    (w_short s \<or> w_wire s = concat (map concat (sends es)))"
proof -
  obtain s where s: "wr_run sock es wr_init = Inr s" "w_ok s" "settled s" "w_sent s = sends es"
    using wr_run_ok [OF assms(1,2) wr_init_ok(1,2) assms(3)] wr_init_ok(3) by auto
  then have "w_wire s @ unsent s = concat (map concat (sends es))" by (simp add: w_ok_def)
  moreover have "unsent s = []" if "\<not> w_short s" using s(3) that by (simp add: settled_def unsent_def)
  ultimately show ?thesis using s(1) by fastforce
qed


text \<open>A socket that takes three bytes at a time, and nothing at every fourth call.\<close>

definition slow_socket :: socket where
  "slow_socket i n = (if i mod 4 = 3 then W_again else Wrote (min 3 n))"


section \<open>Empty buffers\<close>

definition stuck :: "u8 list \<Rightarrow> wside \<Rightarrow> bool" where
  "stuck h s \<longleftrightarrow> w_cur s = [[]] \<and> w_written s = 0 \<and> sb_mark (w_box s) = Box_open \<and> w_wire s = h"

lemma stuck_write:
  assumes "socket_ok sock" "\<And>i n. sock i n \<noteq> W_error" "stuck h s"
  shows "\<exists>s'. handle_write sock s = Inr s' \<and> stuck h s'"
proof -
  have "sock (w_calls s) 0 = Wrote 0 \<or> sock (w_calls s) 0 = W_again"
    using assms(1,2) by (cases "sock (w_calls s) 0") (auto simp: socket_ok_def)
  then show ?thesis
    using assms(3) by (subst handle_write.simps) (auto simp: wr_pass_def wr_fetch_def stuck_def Let_def)
qed

lemma stuck_run:
  assumes sock: "socket_ok sock" "\<And>i n. sock i n \<noteq> W_error"
  shows "stuck h s \<Longrightarrow> [] \<notin> set (sends es) \<Longrightarrow> \<exists>s'. wr_run sock es s = Inr s' \<and> stuck h s'"
proof (induction es arbitrary: s)
  case (Cons e es)
  show ?case
  proof (cases e)
    case (Send c)
    then have "\<exists>s'. async_write_list sock c s = Inr (0, s') \<and> stuck h s'"
      using Cons.prems by (auto simp: async_write_list_def async_write_def sbox_enqueue_def stuck_def)
    then show ?thesis using Cons.IH Cons.prems(2) Send by auto
  next
    case Writable
    then show ?thesis using stuck_write [OF sock Cons.prems(1)] Cons.IH Cons.prems(2) by auto
  qed
qed simp

text \<open>
  C32. An empty buffer blocks the connection for good.  \<open>Node::deliver_message\<close> sends the metadata of a
  message linked to a buffer for its body; if the body is empty, the metadata is written, and from
  then on no byte of any later message is, although the socket would take it.
\<close>

theorem empty_body_stalls:
  assumes "\<And>i n. sock i n = Wrote n" "h \<noteq> []" "[] \<notin> set (sends es)"
  shows "\<exists>s. wr_run sock (Send [h, []] # es) wr_init = Inr s \<and> w_wire s = h"
proof -
  have sock: "socket_ok sock" "\<And>i n. sock i n \<noteq> W_error" using assms(1) by (simp_all add: socket_ok_def)
  have "\<exists>s. async_write_list sock [h, []] wr_init = Inr (0, s) \<and> stuck h s"
    using assms(1,2)
    by (simp add: async_write_list_def async_write_def sbox_enqueue_def wr_init_def sbox_new_def
        handle_write.simps wr_pass_def wr_fetch_def sbox_dequeue_def dequeue_one Let_def write_loop_def
        stuck_def)
  then obtain s where s: "async_write_list sock [h, []] wr_init = Inr (0, s)" "stuck h s" by blast
  obtain s' where "wr_run sock es s = Inr s'" "stuck h s'"
    using stuck_run [OF sock s(2) assms(3)] by blast
  then show ?thesis using s(1) by (auto simp: stuck_def)
qed

theorem empty_body_stalls_witness:
  "\<exists>s. wr_run (\<lambda>i n. Wrote n) [Send [[1, 2], []], Send [[3]], Writable] wr_init = Inr s \<and> w_wire s = [1, 2]"
  by (rule empty_body_stalls) simp_all

end
