(* ===== verification/Receiver.thy ===== *)
theory Receiver
  imports Stream_Handler
begin

text \<open>
  The read side of a stream handler, and the two stream managers that cut the bytes of a socket into
  messages: \<open>GatewayReceiver\<close> between nodes (\<open>include/mola/gateway.hpp\<close>, \<open>src/gateway.cpp\<close>) and
  \<open>BuiltinReceiver\<close> for the sockets of modules (\<open>src/network.cpp\<close>).
\<close>

section \<open>The read side of a handler\<close>

text \<open>
  The manager, the bytes collected in the current buffer, the size of the buffer as the code believes
  it, the bytes really allocated, and whether the handler waits for read events.
\<close>

record 'r rside =
  r_mgr :: 'r
  r_buf :: "u8 list"
  r_size :: nat
  r_cap :: nat
  r_reading :: bool

text \<open>What \<open>read\<close> returns: bytes (none at the end of the stream), -1 with \<open>EAGAIN\<close>, or another error.\<close>

datatype read_ret = Got "u8 list" | R_again | R_error

text \<open>The virtual functions of a stream manager.\<close>

record 'r manager =
  get_buffer :: "'r \<Rightarrow> ((nat \<times> nat) \<times> 'r) res"
  consume :: "u8 list \<Rightarrow> 'r \<Rightarrow> 'r res"
  io_failure :: "'r \<Rightarrow> 'r"

definition read_loop :: "'r manager \<Rightarrow> 'r rside \<Rightarrow> 'r rside res" where
  "read_loop M s =
     bind_res (get_buffer M (r_mgr s)) (\<lambda>((n, c), m).
     Inr (s\<lparr>r_mgr := m, r_buf := [], r_size := n, r_cap := c\<rparr>))"

definition rd_start :: "'r manager \<Rightarrow> 'r \<Rightarrow> 'r rside res" where
  "rd_start M m = read_loop M \<lparr>r_mgr = m, r_buf = [], r_size = 0, r_cap = 0, r_reading = True\<rparr>"

definition handle_read :: "'r manager \<Rightarrow> read_ret \<Rightarrow> 'r rside \<Rightarrow> (bool \<times> 'r rside) res" where
  "handle_read M ret s =
     (case ret of
        R_error \<Rightarrow> Inr (False, s\<lparr>r_mgr := io_failure M (r_mgr s), r_reading := False\<rparr>)
      | R_again \<Rightarrow> Inr (False, s)
      | Got bs \<Rightarrow>
          if bs = [] then Inr (False, s\<lparr>r_mgr := io_failure M (r_mgr s), r_reading := False\<rparr>)
          else if r_cap s < length (r_buf s @ bs) then Inl Out_of_range
          else if length (r_buf s @ bs) = r_size s then
            bind_res (consume M (r_buf s @ bs) (r_mgr s)) (\<lambda>m.
            bind_res (read_loop M (s\<lparr>r_mgr := m\<rparr>)) (\<lambda>s. Inr (True, s)))
          else Inr (True, s\<lparr>r_buf := r_buf s @ bs\<rparr>))"

text \<open>
  Reading from a socket that holds the bytes \<open>net\<close>: at each event the kernel hands over at most \<open>lim\<close>
  bytes, at most what there is, and at most what was asked for.
\<close>

definition read_some :: "nat \<Rightarrow> u8 list \<Rightarrow> 'r rside \<Rightarrow> read_ret" where
  "read_some lim net s =
     (let k = min lim (min (r_size s - length (r_buf s)) (length net)) in
      if k = 0 then R_again else Got (take k net))"

fun rd_run :: "'r manager \<Rightarrow> nat list \<Rightarrow> u8 list \<Rightarrow> 'r rside \<Rightarrow> ('r rside \<times> u8 list) res" where
  "rd_run M [] net s = Inr (s, net)"
| "rd_run M (lim # lims) net s =
     (let ret = read_some lim net s;
          net' = (case ret of Got bs \<Rightarrow> drop (length bs) net | _ \<Rightarrow> net) in
      bind_res (handle_read M ret s) (\<lambda>(go, s). rd_run M lims net' s))"

text \<open>The reference: one byte at a time.\<close>

fun rd_feed :: "'r manager \<Rightarrow> u8 list \<Rightarrow> 'r rside \<Rightarrow> 'r rside res" where
  "rd_feed M [] s = Inr s"
| "rd_feed M (b # bs) s = bind_res (handle_read M (Got [b]) s) (\<lambda>(go, s). rd_feed M bs s)"

lemma rd_feed_append: "rd_feed M (xs @ ys) s = bind_res (rd_feed M xs s) (rd_feed M ys)"
proof (induction xs arbitrary: s)
  case (Cons x xs)
  then show ?case by (cases "handle_read M (Got [x]) s") auto
qed simp

lemma read_loop_buf: "read_loop M (s\<lparr>r_buf := b, r_mgr := m\<rparr>) = read_loop M (s\<lparr>r_mgr := m\<rparr>)"
  by (simp add: read_loop_def)

lemma read_is_feed:
  assumes "bs \<noteq> []" "length (r_buf s) + length bs \<le> r_size s"
  shows "rd_feed M bs s = bind_res (handle_read M (Got bs) s) (\<lambda>(go, s). Inr s)"
  using assms
proof (induction bs arbitrary: s)
  case (Cons b bs)
  show ?case
  proof (cases "bs = []")
    case False
    let ?s = "s\<lparr>r_buf := r_buf s @ [b]\<rparr>"
    have h: "handle_read M (Got [b]) s = (if r_cap s < length (r_buf s) + 1 then Inl Out_of_range else Inr (True, ?s))"
      using Cons.prems False by (cases bs) (auto simp: handle_read_def)
    have "rd_feed M bs ?s = bind_res (handle_read M (Got bs) ?s) (\<lambda>(go, s). Inr s)"
      using Cons.IH [of ?s] Cons.prems False by simp
    then show ?thesis using h False by (auto simp: handle_read_def read_loop_buf)
  qed (cases "handle_read M (Got [b]) s"; auto)
qed simp

section \<open>Stream managers\<close>

text \<open>
  What the handler relies on: a manager never asks for an empty buffer (\<open>read\<close> would return 0, which the
  handler takes for the end of the stream).  Then only the bytes matter, not how they are cut.
\<close>

locale stream_manager =
  fixes M :: "'r manager" and inv :: "'r \<Rightarrow> bool"
  assumes get_law: "inv m \<Longrightarrow> get_buffer M m = Inr ((n, c), m') \<Longrightarrow> 0 < n \<and> inv m'"
    and consume_law: "inv m \<Longrightarrow> consume M bs m = Inr m' \<Longrightarrow> inv m'"
begin

lemma start_waiting:
  "inv m \<Longrightarrow> rd_start M m = Inr s \<Longrightarrow> inv (r_mgr s) \<and> length (r_buf s) < r_size s"
  by (auto simp: rd_start_def read_loop_def bind_res_Inr_iff dest: get_law)

lemma handle_read_waiting:
  assumes "inv (r_mgr s)" "bs \<noteq> []" "length (r_buf s) + length bs \<le> r_size s"
    "handle_read M (Got bs) s = Inr (go, s')"
  shows "inv (r_mgr s') \<and> length (r_buf s') < r_size s'"
proof (cases "length (r_buf s @ bs) = r_size s")
  case True
  then obtain m where m: "consume M (r_buf s @ bs) (r_mgr s) = Inr m" "read_loop M (s\<lparr>r_mgr := m\<rparr>) = Inr s'"
    using assms(2,4) by (auto simp: handle_read_def bind_res_Inr_iff split: if_splits)
  then have "inv m" using consume_law assms(1) by blast
  then show ?thesis using m(2) by (auto simp: read_loop_def bind_res_Inr_iff dest: get_law)
next
  case False
  then have "s' = s\<lparr>r_buf := r_buf s @ bs\<rparr>"
    using assms(2,4) by (simp add: handle_read_def split: if_splits)
  then show ?thesis using False assms(1,3) by simp
qed

lemma run_is_feed:
  assumes "inv (r_mgr s)" "length (r_buf s) < r_size s" "\<forall>l\<in>set lims. 0 < l" "length net \<le> length lims"
  shows "rd_run M lims net s = bind_res (rd_feed M net s) (\<lambda>s. Inr (s, []))"
  using assms
proof (induction lims arbitrary: net s)
  case (Cons lim lims)
  show ?case
  proof (cases "net = []")
    case True
    then show ?thesis using Cons.IH [of s "[]"] Cons.prems by (simp add: read_some_def handle_read_def)
  next
    case False
    define k where "k = min lim (min (r_size s - length (r_buf s)) (length net))"
    let ?bs = "take k net"
    have k: "0 < k" "k \<le> length net" "length (r_buf s) + k \<le> r_size s"
      using Cons.prems(2,3) False by (simp_all add: k_def)
    have len: "length ?bs = k" using k(2) by simp
    have bs: "?bs \<noteq> []" "length (r_buf s) + length ?bs \<le> r_size s" using k False by (simp_all add: len)
    have ret: "read_some lim net s = Got ?bs"
      using k(1) by (simp add: read_some_def Let_def flip: k_def)
    have net: "net = ?bs @ drop k net" by simp
    have step: "rd_run M (lim # lims) net s =
        bind_res (handle_read M (Got ?bs) s) (\<lambda>(go, s). rd_run M lims (drop k net) s)"
      by (simp add: ret len del: length_take)
    show ?thesis
    proof (cases "handle_read M (Got ?bs) s")
      case (Inl e)
      then have "rd_feed M ?bs s = Inl e" using read_is_feed [OF bs] by simp
      then have "rd_feed M net s = Inl e" by (subst net, subst rd_feed_append) simp
      then show ?thesis unfolding step Inl by simp
    next
      case (Inr p)
      obtain go s' where p: "p = (go, s')" by (cases p)
      have "rd_feed M ?bs s = Inr s'" using read_is_feed [OF bs] Inr p by simp
      then have f: "rd_feed M net s = rd_feed M (drop k net) s'"
        by (subst net, subst rd_feed_append) simp
      have w: "inv (r_mgr s') \<and> length (r_buf s') < r_size s'"
        using handle_read_waiting [OF Cons.prems(1) bs] Inr p by blast
      have "rd_run M lims (drop k net) s' = bind_res (rd_feed M (drop k net) s') (\<lambda>s. Inr (s, []))"
        by (rule Cons.IH) (use w Cons.prems(3,4) k(1,2) in auto)
      then show ?thesis unfolding step Inr p f by simp
    qed
  qed
qed simp

end

section \<open>Messages between nodes\<close>

datatype gw_state = STATE_HANDSHAKE | STATE_WAIT_HANDSHAKE | STATE_GET_HEAD | STATE_GET_BODY

text \<open>
  A \<open>GatewayReceiver\<close>.  Of its surroundings: the nodes the node manager finds, each with its client if
  it has one; the address of the receiver's own client; the identifier of the local node; and the
  messages handed to the dispatcher.
\<close>

record 'u gateway =
  g_state :: gw_state
  g_nid :: u32
  g_raw :: "'u wrapper option"
  g_nodes :: "u32 \<Rightarrow> addr option option"
  g_client :: addr
  g_local :: u32
  g_out :: "'u wrapper list"

definition GatewayReceiver_new ::
    "bool \<Rightarrow> u32 \<Rightarrow> (u32 \<Rightarrow> addr option option) \<Rightarrow> addr \<Rightarrow> u32 \<Rightarrow> 'u gateway" where
  "GatewayReceiver_new passive nid nodes client loc =
     \<lparr>g_state = (if passive then STATE_WAIT_HANDSHAKE else STATE_HANDSHAKE), g_nid = nid, g_raw = None,
      g_nodes = nodes, g_client = client, g_local = loc, g_out = []\<rparr>"

text \<open>\<open>deliver_message\<close>; a message for another node ends the process.\<close>

definition gw_deliver :: "'u gateway \<Rightarrow> 'u gateway res" where
  "gw_deliver g =
     (case g_raw g of
        None \<Rightarrow> Inl Wild_deref
      | Some w \<Rightarrow>
          if is_local (g_local g) (target (w_meta w))
          then Inr (g\<lparr>g_raw := None, g_out := g_out g @ [w]\<rparr>) else Inl Assert_failed)"

text \<open>A handshake is the identifier of the peer, in network byte order; the machine is little-endian.\<close>

definition gw_handshake :: "u8 list \<Rightarrow> 'u gateway \<Rightarrow> 'u gateway" where
  "gw_handshake bs g =
     (let nid = bswap32 (of_le32 bs);
          nodes = (if g_nodes g nid = Some None then (g_nodes g)(nid \<mapsto> Some (g_client g)) else g_nodes g) in
      g\<lparr>g_nid := nid, g_nodes := nodes, g_state := STATE_GET_HEAD\<rparr>)"

text \<open>The buffer of a header is the metadata of the new message itself.\<close>

definition gw_head :: "u8 list \<Rightarrow> 'u gateway \<Rightarrow> 'u gateway res" where
  "gw_head bs g =
     (if length bs \<noteq> META_SIZE then Inl Assert_failed
      else case g_raw g of
             None \<Rightarrow> Inl Wild_deref
           | Some w \<Rightarrow>
               let m = (meta_of_bytes bs)\<lparr>data_type := TYPE_STREAM\<rparr>; g = g\<lparr>g_raw := Some (w\<lparr>w_meta := m\<rparr>)\<rparr> in
               if 0 < msize m then Inr (g\<lparr>g_state := STATE_GET_BODY\<rparr>) else gw_deliver g)"

definition gw_body :: "u8 list \<Rightarrow> 'u gateway \<Rightarrow> 'u gateway res" where
  "gw_body bs g =
     (case g_raw g of
        None \<Rightarrow> Inl Wild_deref
      | Some w \<Rightarrow>
          if unat (msize (w_meta w)) \<noteq> length bs then Inl Assert_failed
          else bind_res (gw_deliver (g\<lparr>g_raw := Some (set_stream_data (Some bs) w)\<rparr>)) (\<lambda>g.
               Inr (g\<lparr>g_state := STATE_GET_HEAD\<rparr>)))"

definition gw_consume :: "u8 list \<Rightarrow> 'u gateway \<Rightarrow> 'u gateway res" where
  "gw_consume bs g =
     (case g_state g of
        STATE_WAIT_HANDSHAKE \<Rightarrow> Inr (gw_handshake bs g)
      | STATE_HANDSHAKE \<Rightarrow> gw_head bs (g\<lparr>g_state := STATE_GET_HEAD\<rparr>)
      | STATE_GET_HEAD \<Rightarrow> gw_head bs g
      | STATE_GET_BODY \<Rightarrow> gw_body bs g)"

definition gw_get_buffer :: "'u gateway \<Rightarrow> ((nat \<times> nat) \<times> 'u gateway) res" where
  "gw_get_buffer g =
     (case g_state g of
        STATE_WAIT_HANDSHAKE \<Rightarrow> Inr ((4, 4), g)
      | STATE_GET_BODY \<Rightarrow>
          (case g_raw g of
             None \<Rightarrow> Inl Assert_failed
           | Some w \<Rightarrow> let n = unat (msize (w_meta w)) in Inr ((n, n), g))
      | _ \<Rightarrow> Inr ((META_SIZE, META_SIZE), g\<lparr>g_state := STATE_GET_HEAD, g_raw := Some (wrap_stream None 0)\<rparr>))"

text \<open>A failure makes the node manager forget the peer.\<close>

definition gw_io_failure :: "'u gateway \<Rightarrow> 'u gateway" where
  "gw_io_failure g = g\<lparr>g_nodes := (g_nodes g)(g_nid g := None)\<rparr>"

definition gw_manager :: "'u gateway manager" where
  "gw_manager = \<lparr>get_buffer = gw_get_buffer, consume = gw_consume, io_failure = gw_io_failure\<rparr>"

lemma gw_manager_simps [simp]:
  "get_buffer gw_manager = gw_get_buffer" "consume gw_manager = gw_consume" "io_failure gw_manager = gw_io_failure"
  by (simp_all add: gw_manager_def)

definition gw_inv :: "'u gateway \<Rightarrow> bool" where
  "gw_inv g \<longleftrightarrow>
     (g_state g = STATE_GET_BODY \<longrightarrow> (\<exists>w. g_raw g = Some w \<and> 0 < msize (w_meta w)))"

lemma gw_deliver_state: "gw_deliver g = Inr g' \<Longrightarrow> g_state g' = g_state g"
  by (auto simp: gw_deliver_def split: option.splits if_splits)

interpretation gws: stream_manager "gw_manager :: 'u gateway manager" gw_inv
proof
  fix m m' :: "'u gateway" and n c
  assume "gw_inv m" "get_buffer gw_manager m = Inr ((n, c), m')"
  then show "0 < n \<and> gw_inv m'"
    by (auto simp: gw_get_buffer_def gw_inv_def META_SIZE_def Let_def unat_gt_0
        split: gw_state.splits option.splits)
next
  fix m m' :: "'u gateway" and bs
  assume "gw_inv m" "consume gw_manager bs m = Inr m'"
  then show "gw_inv m'"
    by (auto simp: gw_consume_def gw_handshake_def gw_head_def gw_body_def gw_inv_def Let_def
        bind_res_Inr_iff dest: gw_deliver_state split: gw_state.splits option.splits if_splits)
qed

text \<open>The buffers \<open>Node::deliver_message\<close> sends for a serialized message: its metadata linked to its body.\<close>

definition node_buffers :: "metadata \<times> u8 list \<Rightarrow> linked" where
  "node_buffers = (\<lambda>(m, b). [meta_bytes m, b])"

text \<open>The handshake \<open>Node::get_client\<close> sends first on a new connection.\<close>

definition handshake_bytes :: "u32 \<Rightarrow> u8 list" where
  "handshake_bytes nid = le32 (bswap32 nid)"

definition frame_ok :: "u32 \<Rightarrow> metadata \<times> u8 list \<Rightarrow> bool" where
  "frame_ok loc = (\<lambda>(m, b). unat (msize m) = length b \<and> is_local loc (target m))"

definition received :: "metadata \<times> u8 list \<Rightarrow> 'u wrapper" where
  "received = (\<lambda>(m, b). \<lparr>w_meta = m\<lparr>data_type := TYPE_STREAM\<rparr>,
     w_data = Stream_data (if b = [] then None else Some b)\<rparr>)"

lemma received_target [simp]: "target (w_meta (received (m, b))) = target m"
  by (simp add: received_def)

lemma feed_block:
  assumes "r_buf s = []" "bs \<noteq> []" "length bs = r_size s" "r_size s \<le> r_cap s"
  shows "rd_feed M bs s = bind_res (consume M bs (r_mgr s)) (\<lambda>m. read_loop M (s\<lparr>r_mgr := m\<rparr>))"
proof -
  have "rd_feed M bs s = bind_res (handle_read M (Got bs) s) (\<lambda>(go, s). Inr s)"
    using assms by (intro read_is_feed) simp_all
  also have "\<dots> = bind_res (consume M bs (r_mgr s)) (\<lambda>m. read_loop M (s\<lparr>r_mgr := m\<rparr>))"
  proof (cases "consume M bs (r_mgr s)")
    case (Inr m)
    then show ?thesis
      using assms by (cases "read_loop M (s\<lparr>r_mgr := m\<rparr>)") (simp_all add: handle_read_def)
  qed (use assms in \<open>simp add: handle_read_def\<close>)
  finally show ?thesis .
qed

text \<open>Between two messages the receiver waits for a header.\<close>

definition at_head :: "'u gateway \<Rightarrow> 'u gateway rside \<Rightarrow> bool" where
  "at_head g s \<longleftrightarrow>
     r_mgr s = g\<lparr>g_state := STATE_GET_HEAD, g_raw := Some (wrap_stream None 0)\<rparr> \<and>
     r_buf s = [] \<and> r_size s = META_SIZE \<and> r_cap s = META_SIZE"

lemma read_loop_head:
  "\<exists>s'. read_loop gw_manager (s\<lparr>r_mgr := g\<lparr>g_state := STATE_GET_HEAD, g_raw := x, g_out := ws\<rparr>\<rparr>) = Inr s' \<and>
    at_head (g\<lparr>g_out := ws\<rparr>) s'"
  by (simp add: read_loop_def gw_get_buffer_def at_head_def)

lemma read_loop_at_head:
  "g_state (r_mgr s) = STATE_GET_HEAD \<Longrightarrow> \<exists>s'. read_loop gw_manager s = Inr s' \<and> at_head (r_mgr s) s'"
  by (simp add: read_loop_def gw_get_buffer_def at_head_def)

lemma feed_frame:
  fixes g :: "'u gateway"
  assumes h: "at_head g s" and ok: "frame_ok (g_local g) mb"
  shows "\<exists>s'. rd_feed gw_manager (concat (node_buffers mb)) s = Inr s' \<and>
    at_head (g\<lparr>g_out := g_out g @ [received mb]\<rparr>) s'"
proof -
  obtain m b where mb: "mb = (m, b)" by (cases mb)
  let ?m = "m\<lparr>data_type := TYPE_STREAM\<rparr>"
  let ?raw = "(wrap_stream None 0)\<lparr>w_meta := ?m\<rparr> :: 'u wrapper"
  let ?g = "g\<lparr>g_state := STATE_GET_HEAD, g_raw := Some ?raw\<rparr>"
  have sz: "unat (msize m) = length b" "is_local (g_local g) (target m)"
    using ok by (simp_all add: frame_ok_def mb)
  have head: "rd_feed gw_manager (meta_bytes m) s =
      bind_res (gw_head (meta_bytes m) (r_mgr s)) (\<lambda>g. read_loop gw_manager (s\<lparr>r_mgr := g\<rparr>))"
    using h by (subst feed_block) (auto simp: at_head_def META_SIZE_def gw_consume_def
        simp flip: length_0_conv)
  have hd: "gw_head (meta_bytes m) (r_mgr s) =
      (if 0 < msize m then Inr (?g\<lparr>g_state := STATE_GET_BODY\<rparr>) else gw_deliver ?g)"
    using h meta_of_bytes_meta [of m "[]"] by (simp add: gw_head_def at_head_def Let_def)
  show ?thesis
  proof (cases "b = []")
    case True
    then have "msize m = 0" using sz(1) by (simp add: unat_eq_0)
    moreover have "?raw = received mb" by (simp add: received_def mb True wrap_stream_def)
    ultimately have "rd_feed gw_manager (meta_bytes m) s = read_loop gw_manager
        (s\<lparr>r_mgr := g\<lparr>g_state := STATE_GET_HEAD, g_raw := None, g_out := g_out g @ [received mb]\<rparr>\<rparr>)"
      using sz(2) mb by (simp add: head hd gw_deliver_def)
    then show ?thesis
      using read_loop_head [where s = s and g = g and x = None and ws = "g_out g @ [received mb]"] True by (simp add: mb node_buffers_def)
  next
    case False
    let ?s = "s\<lparr>r_mgr := ?g\<lparr>g_state := STATE_GET_BODY\<rparr>, r_buf := [], r_size := length b, r_cap := length b\<rparr>"
    have "0 < msize m" using False sz(1) by (metis length_greater_0_conv unat_0 word_gt_0 less_irrefl)
    then have "rd_feed gw_manager (meta_bytes m) s = Inr ?s"
      using sz(1) by (simp add: head hd read_loop_def gw_get_buffer_def Let_def)
    moreover have "rd_feed gw_manager b ?s =
        bind_res (gw_body b (r_mgr ?s)) (\<lambda>g. read_loop gw_manager (?s\<lparr>r_mgr := g\<rparr>))"
      using False by (subst feed_block) (simp_all add: gw_consume_def)
    moreover have "set_stream_data (Some b) ?raw = received mb"
      using False by (simp add: received_def mb wrap_stream_def set_stream_data_def)
    then have "gw_body b (r_mgr ?s) =
        Inr (g\<lparr>g_state := STATE_GET_HEAD, g_raw := None, g_out := g_out g @ [received mb]\<rparr>)"
      using sz by (simp add: gw_body_def gw_deliver_def mb)
    ultimately show ?thesis
      using read_loop_head [where s = ?s and g = g and x = None and ws = "g_out g @ [received mb]"]
      by (simp add: mb node_buffers_def rd_feed_append)
  qed
qed

lemma feed_frames:
  assumes "at_head g s" "list_all (frame_ok (g_local g)) ms"
  shows "\<exists>s'. rd_feed gw_manager (concat (map concat (map node_buffers ms))) s = Inr s' \<and>
    at_head (g\<lparr>g_out := g_out g @ map received ms\<rparr>) s'"
  using assms
proof (induction ms arbitrary: g s)
  case (Cons mb ms)
  obtain s1 where s1: "rd_feed gw_manager (concat (node_buffers mb)) s = Inr s1"
    "at_head (g\<lparr>g_out := g_out g @ [received mb]\<rparr>) s1"
    using feed_frame [OF Cons.prems(1), of mb] Cons.prems(2) by auto
  then show ?case using Cons.IH [OF s1(2)] Cons.prems(2) by (auto simp: rd_feed_append)
qed simp

text \<open>A passive receiver gets the handshake and then the messages, however the bytes are cut.\<close>

lemma gateway_receives:
  assumes "list_all (frame_ok loc) ms" "\<forall>l\<in>set lims. 0 < l"
    and net: "net = handshake_bytes nid @ concat (map concat (map node_buffers ms))"
    and "length net \<le> length lims"
  shows "\<exists>s0 s. rd_start gw_manager (GatewayReceiver_new True 0 nodes cl loc :: 'u gateway) = Inr s0 \<and>
    rd_run gw_manager lims net s0 = Inr (s, []) \<and>
    g_out (r_mgr s) = map received ms \<and> g_nid (r_mgr s) = nid"
proof -
  let ?g = "GatewayReceiver_new True 0 nodes cl loc :: 'u gateway"
  let ?s = "\<lparr>r_mgr = ?g, r_buf = [], r_size = 4, r_cap = 4, r_reading = True\<rparr>"
  have s0: "rd_start gw_manager ?g = Inr ?s"
    by (simp add: rd_start_def read_loop_def gw_get_buffer_def GatewayReceiver_new_def)
  let ?h = "gw_handshake (handshake_bytes nid) ?g"
  have h: "g_nid ?h = nid" "g_local ?h = loc" "g_out ?h = []" "g_state ?h = STATE_GET_HEAD"
    by (simp_all add: gw_handshake_def handshake_bytes_def GatewayReceiver_new_def Let_def bswap32_invol)
  have "rd_feed gw_manager (handshake_bytes nid) ?s = read_loop gw_manager (?s\<lparr>r_mgr := ?h\<rparr>)"
    by (subst feed_block)
      (auto simp: handshake_bytes_def gw_consume_def GatewayReceiver_new_def simp flip: length_0_conv)
  then obtain s1 where s1: "rd_feed gw_manager (handshake_bytes nid) ?s = Inr s1" "at_head ?h s1"
    using read_loop_at_head [of "?s\<lparr>r_mgr := ?h\<rparr>"] h(4) by auto
  obtain s where s: "rd_feed gw_manager net ?s = Inr s" "at_head (?h\<lparr>g_out := map received ms\<rparr>) s"
    using feed_frames [OF s1(2)] assms(1) s1(1) h by (auto simp: net rd_feed_append)
  have "rd_run gw_manager lims net ?s = bind_res (rd_feed gw_manager net ?s) (\<lambda>s. Inr (s, []))"
    using assms(2,4) by (intro gws.run_is_feed) (simp_all add: gw_inv_def GatewayReceiver_new_def)
  then show ?thesis using s0 s h by (auto simp: at_head_def)
qed

section \<open>Packages of the sockets of modules\<close>

text \<open>The callbacks of a protocol, \<open>mola_proto\<close>, that the receiver and the sender use.\<close>

record proto =
  header_size :: u64
  body_size :: "u8 list \<Rightarrow> u64"
  make_buffer :: "(u8 list \<Rightarrow> u8 list) option"

datatype bi_state = STATE_GET_LEN | STATE_GET_BUF

text \<open>A \<open>BuiltinReceiver\<close>, the flag of its client, and the packages handed to a worker.\<close>

record builtin =
  b_state :: bi_state
  b_len :: u64
  b_disabled :: bool
  b_out :: "u8 list list"

definition bi_new :: builtin where
  "bi_new = \<lparr>b_state = STATE_GET_LEN, b_len = 0, b_disabled = False, b_out = []\<rparr>"

text \<open>Both buffers have one byte more than their size; the sum is computed in 64 bits.\<close>

definition bi_get_buffer :: "proto \<Rightarrow> builtin \<Rightarrow> ((nat \<times> nat) \<times> builtin) res" where
  "bi_get_buffer P b =
     (let b = (if b_state b = STATE_GET_LEN then b\<lparr>b_len := header_size P\<rparr> else b) in
      if b_len b = 0 then Inl Assert_failed
      else Inr ((unat (b_len b), unat (b_len b + 1)), b))"

definition bi_consume :: "proto \<Rightarrow> u8 list \<Rightarrow> builtin \<Rightarrow> builtin res" where
  "bi_consume P bs b =
     (if unat (b_len b) \<noteq> length bs then Inl Assert_failed
      else case b_state b of
             STATE_GET_LEN \<Rightarrow>
               let b = b\<lparr>b_len := body_size P bs\<rparr> in
               Inr (if 0 < b_len b then b\<lparr>b_state := STATE_GET_BUF\<rparr> else b)
           | STATE_GET_BUF \<Rightarrow>
               let b = (if b_disabled b then b else b\<lparr>b_out := b_out b @ [bs]\<rparr>) in
               Inr (b\<lparr>b_state := STATE_GET_LEN\<rparr>))"

definition bi_manager :: "proto \<Rightarrow> builtin manager" where
  "bi_manager P = \<lparr>get_buffer = bi_get_buffer P, consume = bi_consume P, io_failure = (\<lambda>b. b)\<rparr>"

lemma bi_manager_simps [simp]:
  "get_buffer (bi_manager P) = bi_get_buffer P" "consume (bi_manager P) = bi_consume P"
  by (simp_all add: bi_manager_def)

interpretation bis: stream_manager "bi_manager P" "\<lambda>_. True"
  for P
  by unfold_locales (auto simp: bi_get_buffer_def Let_def unat_gt_0 split: if_splits)

text \<open>The default protocol: the size of the package as a \<open>size_t\<close>, then the package.\<close>

definition le64 :: "u64 \<Rightarrow> u8 list" where
  "le64 x = le32 (ucast x) @ le32 (ucast (drop_bit 32 x))"

definition of_le64 :: "u8 list \<Rightarrow> u64" where
  "of_le64 bs = ucast (of_le32 (take 4 bs)) OR push_bit 32 (ucast (of_le32 (drop 4 bs)))"

lemma of_le64_le64 [simp]: "of_le64 (le64 x) = x"
proof -
  have "of_le64 (le64 x) = ucast (ucast x :: u32) OR push_bit 32 (ucast (ucast (drop_bit 32 x) :: u32))"
    by (simp add: of_le64_def le64_def)
  also have "\<dots> = x"
  proof (rule bit_word_eqI)
    fix n assume "n < LENGTH(64)"
    then show "bit (ucast (ucast x :: u32) OR push_bit 32 (ucast (ucast (drop_bit 32 x) :: u32)) :: u64) n = bit x n"
      by (cases "n < 32") (auto simp: bit_simps)
  qed
  finally show ?thesis .
qed

lemma length_le64 [simp]: "length (le64 x) = 8"
  by (simp add: le64_def)

definition simple_make_buffer :: "u8 list \<Rightarrow> u8 list" where
  "simple_make_buffer bs = le64 (of_nat (length bs)) @ bs"

definition default_proto :: proto where
  "default_proto = \<lparr>header_size = 8, body_size = of_le64, make_buffer = Some simple_make_buffer\<rparr>"

definition SendToSocket :: "proto \<Rightarrow> socket \<Rightarrow> u8 list \<Rightarrow> wside \<Rightarrow> wside res" where
  "SendToSocket P sock bs s =
     (let pbuf = (case make_buffer P of None \<Rightarrow> bs | Some f \<Rightarrow> f bs) in
      bind_res (async_write sock [pbuf] s) (\<lambda>(r, s). Inr s))"

text \<open>Waiting for a header, and for a body, of the default protocol.\<close>

definition at_len :: "builtin \<Rightarrow> builtin rside \<Rightarrow> bool" where
  "at_len b s \<longleftrightarrow> r_mgr s = b\<lparr>b_state := STATE_GET_LEN, b_len := 8\<rparr> \<and> r_buf s = [] \<and> r_size s = 8 \<and> r_cap s = 9"

lemma bi_start: "\<exists>s. rd_start (bi_manager default_proto) bi_new = Inr s \<and> at_len bi_new s"
  by (simp add: rd_start_def read_loop_def bi_get_buffer_def default_proto_def bi_new_def at_len_def)

lemma feed_header:
  assumes "at_len b s" "length h = 8"
  shows "rd_feed (bi_manager default_proto) h s = read_loop (bi_manager default_proto)
    (s\<lparr>r_mgr := b\<lparr>b_state := (if of_le64 h = 0 then STATE_GET_LEN else STATE_GET_BUF), b_len := of_le64 h\<rparr>\<rparr>)"
proof -
  have "h \<noteq> []" using assms(2) by auto
  then show ?thesis
    using assms by (subst feed_block; cases b)
      (auto simp: at_len_def bi_consume_def default_proto_def Let_def word_gt_0)
qed

lemma unat_size: "n < 2 ^ 64 \<Longrightarrow> unat (of_nat n :: u64) = n"
  by (simp add: unat_of_nat)

lemma feed_package:
  assumes h: "at_len b s" "length p < 2 ^ 64 - 1" "\<not> b_disabled b"
  shows "\<exists>s'. rd_feed (bi_manager default_proto) (simple_make_buffer p) s = Inr s' \<and>
    at_len (b\<lparr>b_out := b_out b @ (if p = [] then [] else [p])\<rparr>) s'"
proof -
  let ?n = "of_nat (length p) :: u64"
  have n: "unat ?n = length p" using h(2) by (intro unat_size) simp
  note hd = feed_header [OF h(1), of "le64 ?n", simplified]
  show ?thesis
  proof (cases "p = []")
    case True
    then show ?thesis
      using hd by (cases b) (simp add: simple_make_buffer_def read_loop_def bi_get_buffer_def default_proto_def at_len_def)
  next
    case False
    let ?b = "b\<lparr>b_state := STATE_GET_BUF, b_len := ?n\<rparr>"
    let ?s = "s\<lparr>r_mgr := ?b, r_buf := [], r_size := length p, r_cap := unat (?n + 1)\<rparr>"
    have n0: "?n \<noteq> 0" using n False by (metis length_0_conv unat_0)
    have cap: "length p \<le> unat (?n + 1)"
    proof -
      have "unat (of_nat (length p + 1) :: u64) = length p + 1" using h(2) by (intro unat_size) simp
      moreover have "?n + 1 = of_nat (length p + 1)" by simp
      ultimately show ?thesis by (simp add: add.commute)
    qed
    have "rd_feed (bi_manager default_proto) (le64 ?n) s = Inr ?s"
      using hd n0 n by (simp add: read_loop_def bi_get_buffer_def)
    moreover have "rd_feed (bi_manager default_proto) p ?s =
        bind_res (bi_consume default_proto p ?b) (\<lambda>m. read_loop (bi_manager default_proto) (?s\<lparr>r_mgr := m\<rparr>))"
      using False cap by (subst feed_block) simp_all
    ultimately show ?thesis
      using False n h(3)
      by (cases b) (simp add: simple_make_buffer_def rd_feed_append bi_consume_def Let_def read_loop_def
          bi_get_buffer_def default_proto_def at_len_def)
  qed
qed

lemma feed_packages:
  assumes "at_len b s" "\<not> b_disabled b" "\<forall>p\<in>set ps. length p < 2 ^ 64 - 1"
  shows "\<exists>s'. rd_feed (bi_manager default_proto) (concat (map simple_make_buffer ps)) s = Inr s' \<and>
    at_len (b\<lparr>b_out := b_out b @ filter (\<lambda>p. p \<noteq> []) ps\<rparr>) s'"
  using assms
proof (induction ps arbitrary: b s)
  case (Cons p ps)
  obtain s1 where s1: "rd_feed (bi_manager default_proto) (simple_make_buffer p) s = Inr s1"
    "at_len (b\<lparr>b_out := b_out b @ (if p = [] then [] else [p])\<rparr>) s1"
    using feed_package [OF Cons.prems(1)] Cons.prems(2,3) by auto
  then show ?case using Cons.IH [OF s1(2)] Cons.prems(2,3) by (auto simp: rd_feed_append)
qed simp

text \<open>
  What is sent on a socket with the default protocol is what arrives.  However the bytes of the
  packages are cut into reads, the receiver hands over exactly the non-empty packages, complete and in
  order; empty packages disappear.
\<close>

lemma package_roundtrip:
  assumes "\<forall>p\<in>set ps. length p < 2 ^ 64 - 1" "\<forall>l\<in>set lims. 0 < l"
    and "length (concat (map simple_make_buffer ps)) \<le> length lims"
  shows "\<exists>s0 s. rd_start (bi_manager default_proto) bi_new = Inr s0 \<and>
    rd_run (bi_manager default_proto) lims (concat (map simple_make_buffer ps)) s0 = Inr (s, []) \<and>
    b_out (r_mgr s) = filter (\<lambda>p. p \<noteq> []) ps"
proof -
  obtain s0 where s0: "rd_start (bi_manager default_proto) bi_new = Inr s0" "at_len bi_new s0"
    using bi_start by blast
  have new: "\<not> b_disabled bi_new" "b_out bi_new = []" by (simp_all add: bi_new_def)
  obtain s where s: "rd_feed (bi_manager default_proto) (concat (map simple_make_buffer ps)) s0 = Inr s"
    "at_len (bi_new\<lparr>b_out := filter (\<lambda>p. p \<noteq> []) ps\<rparr>) s"
    using feed_packages [OF s0(2) new(1) assms(1)] new(2) by auto
  have "rd_run (bi_manager default_proto) lims (concat (map simple_make_buffer ps)) s0 = Inr (s, [])"
    using bis.run_is_feed [OF TrueI _ assms(2,3), of s0 default_proto] s(1) s0(2) by (simp add: at_len_def)
  then show ?thesis using s0(1) s(2) by (auto simp: at_len_def)
qed



end
