(* ===== verification/Options.thy ===== *)
theory Options
  imports Text_Stream
begin

text \<open>
  Options of the command line tools (\<open>include/mola/options.hpp\<close>, \<open>src/options.cpp\<close>): the table of typed
  options, the syntax of options in files, and the command line.
\<close>

section \<open>The table\<close>

datatype otype = O_FLAG | O_NUM | O_STR

datatype ovalue = V_flag bool | V_num u32 | V_str string

text \<open>The name table lists names and types; the option table holds a type and a value by name.\<close>

type_synonym nametable = "(string \<times> otype) list"
type_synonym otable = "string \<Rightarrow> (otype \<times> ovalue) option"

definition get_option_type :: "nametable \<Rightarrow> string \<Rightarrow> otype option" where
  "get_option_type names key = map_of names key"

definition set_option_str :: "nametable \<Rightarrow> string \<Rightarrow> string \<Rightarrow> otable \<Rightarrow> otable res" where
  "set_option_str names key v tab =
     (if get_option_type names key = Some O_STR then Inr (tab(key \<mapsto> (O_STR, V_str v))) else Inl Assert_failed)"

definition set_option_num :: "nametable \<Rightarrow> string \<Rightarrow> u32 \<Rightarrow> otable \<Rightarrow> otable res" where
  "set_option_num names key v tab =
     (if get_option_type names key = Some O_NUM then Inr (tab(key \<mapsto> (O_NUM, V_num v))) else Inl Assert_failed)"

definition set_option_flag :: "nametable \<Rightarrow> string \<Rightarrow> bool \<Rightarrow> otable \<Rightarrow> otable res" where
  "set_option_flag names key v tab =
     (if get_option_type names key = Some O_FLAG then Inr (tab(key \<mapsto> (O_FLAG, V_flag v))) else Inl Assert_failed)"

text \<open>\<open>option\<close>: a missing entry is an assertion.\<close>

definition option_value :: "otable \<Rightarrow> string \<Rightarrow> ovalue res" where
  "option_value tab name = (case tab name of None \<Rightarrow> Inl Assert_failed | Some (t, v) \<Rightarrow> Inr v)"

definition strprefix :: "string \<Rightarrow> string \<Rightarrow> string option" where
  "strprefix str pat =
     (if length pat \<le> length str \<and> take (length pat) str = pat then Some (drop (length pat) str) else None)"

text \<open>One option: a flag, perhaps with \<open>no\<close> in front, or a name and a value; unknown ones are reported.\<close>

definition process_flag :: "nametable \<Rightarrow> string \<Rightarrow> otable \<Rightarrow> otable res" where
  "process_flag names copy tab =
     (let (name, v) = (case strprefix copy ''no'' of None \<Rightarrow> (copy, True) | Some trailer \<Rightarrow> (trailer, False)) in
      if get_option_type names name = Some O_FLAG then set_option_flag names name v tab else Inr tab)"

definition process_value :: "nametable \<Rightarrow> string \<Rightarrow> string \<Rightarrow> otable \<Rightarrow> otable res" where
  "process_value names copy val tab =
     (case get_option_type names copy of
        Some O_STR \<Rightarrow> set_option_str names copy val tab
      | Some O_NUM \<Rightarrow>
          if val = [] then Inl Assert_failed
          else bind_res (stoul val) (\<lambda>n. set_option_num names copy (ucast n) tab)
      | _ \<Rightarrow> Inr tab)"

definition process_one_option :: "nametable \<Rightarrow> string \<Rightarrow> otable \<Rightarrow> otable res" where
  "process_one_option names opt tab =
     (let copy = takeWhile (\<lambda>c. c \<noteq> CHR ''='') opt in
      if copy = opt then process_flag names opt tab
      else process_value names copy (drop (length copy + 1) opt) tab)"

section \<open>Options in a file\<close>

definition OPTBUFSIZE :: nat where "OPTBUFSIZE = 1024"

abbreviation nul :: char where "nul \<equiv> CHR 0x00"
abbreviation quote :: char where "quote \<equiv> CHR 0x27"

text \<open>
  The scanning loop, on the memory from \<open>out\<close> on; \<open>cb\<close> is what \<open>copybuf\<close> holds.  The results: the
  copied option, the number of characters read, and whether the string is done.
\<close>

fun scan_option :: "bool \<Rightarrow> bool \<Rightarrow> string \<Rightarrow> string \<Rightarrow> nat \<Rightarrow> (string \<times> nat \<times> bool) res" where
  "scan_option quoting quotenext cb [] n = Inl Out_of_range"
| "scan_option quoting quotenext cb (c # out) n =
     (if c = nul then Inr (cb, n + 1, True)
      else if quoting then
        if c = quote then scan_option False quotenext cb out (n + 1)
        else if OPTBUFSIZE \<le> length cb then Inl Out_of_range
        else scan_option True quotenext (cb @ [c]) out (n + 1)
      else if quotenext then
        if OPTBUFSIZE \<le> length cb then Inl Out_of_range else scan_option False False (cb @ [c]) out (n + 1)
      else if c = quote then scan_option True False cb out (n + 1)
      else if c = CHR 0x5C then scan_option False True cb out (n + 1)
      else if c = CHR ''#'' then Inr (cb, n + 1, True)
      else if \<not> is_space c then
        if OPTBUFSIZE \<le> length cb then Inl Out_of_range else scan_option False False (cb @ [c]) out (n + 1)
      else (case out of [] \<Rightarrow> Inl Out_of_range | d # _ \<Rightarrow> Inr (cb, n + 1, d = nul)))"

text \<open>\<open>process_first_option\<close>: how far the buffer pointer moved, whether there is more, and the table.\<close>

definition process_first_option :: "nametable \<Rightarrow> string \<Rightarrow> otable \<Rightarrow> (nat \<times> bool \<times> otable) res" where
  "process_first_option names mem tab =
     (let ws = takeWhile is_space mem in
      bind_res (scan_option False False [] (drop (length ws) mem) (length ws)) (\<lambda>(cb, n, string_done).
      if OPTBUFSIZE \<le> length cb then Inl Out_of_range
      else bind_res (if cb \<noteq> [] then process_one_option names cb tab else Inr tab) (\<lambda>tab.
      Inr (n, \<not> string_done, tab))))"

lemma scan_option_count:
  "scan_option q qn cb out n = Inr (cb', n', d) \<Longrightarrow> n < n' \<and> n' \<le> n + length out"
  by (induction q qn cb out n rule: scan_option.induct) (auto split: if_splits list.splits)

lemma process_first_progress:
  assumes "process_first_option names mem tab = Inr (n, b, tab')"
  shows "0 < n \<and> n \<le> length mem"
proof -
  let ?ws = "takeWhile is_space mem"
  obtain cb d where "scan_option False False [] (drop (length ?ws) mem) (length ?ws) = Inr (cb, n, d)"
    using assms by (auto simp: process_first_option_def Let_def bind_res_Inr_iff split: if_splits)
  then show ?thesis using scan_option_count length_takeWhile_le [of is_space mem] by fastforce
qed

text \<open>The inner loop: all options of a line, with the distance the pointer moved.\<close>

function process_line :: "nametable \<Rightarrow> string \<Rightarrow> otable \<Rightarrow> (nat \<times> otable) res" where
  "process_line names mem tab =
     (case process_first_option names mem tab of
        Inl e \<Rightarrow> Inl e
      | Inr (n, go, tab) \<Rightarrow>
          if go then bind_res (process_line names (drop n mem) tab) (\<lambda>(k, tab). Inr (n + k, tab))
          else Inr (n, tab))"
  by pat_completeness auto
termination
  by (relation "measure (\<lambda>(names, mem, tab). length mem)") (auto dest: process_first_progress)

declare process_line.simps [simp del]

text \<open>
  The lines of a file are read to \<open>buf + p\<close>, where \<open>p\<close> is where the last line ended: the pointer is
  never set back.  A line of more than 1023 characters leaves the stream failed but not at its end: every
  further round stores an empty line at the pointer and moves it by one, until it leaves the buffer.
  A file is the nonempty list of its pieces between newlines.
\<close>

fun process_lines :: "nametable \<Rightarrow> nat \<Rightarrow> string list \<Rightarrow> otable \<Rightarrow> otable res" where
  "process_lines names p [] tab = Inr tab"
| "process_lines names p (l # ls) tab =
     (let st = take (OPTBUFSIZE - 1) l in
      if OPTBUFSIZE < p + length st + 1 then Inl Out_of_range
      else bind_res (process_line names (st @ [nul]) tab) (\<lambda>(k, tab).
           if OPTBUFSIZE \<le> length l then Inl Out_of_range else process_lines names (p + k) ls tab))"

text \<open>\<open>None\<close> is a file that cannot be opened.\<close>

definition process_options_from_file :: "nametable \<Rightarrow> string list option \<Rightarrow> otable \<Rightarrow> otable res" where
  "process_options_from_file names file tab =
     (case file of None \<Rightarrow> Inr tab | Some ls \<Rightarrow> process_lines names 0 ls tab)"

section \<open>The command line\<close>

fun process_all :: "nametable \<Rightarrow> string list \<Rightarrow> otable \<Rightarrow> otable res" where
  "process_all names [] tab = Inr tab"
| "process_all names (x # xs) tab = bind_res (process_one_option names x tab) (process_all names xs)"

definition process_defaults :: "nametable \<Rightarrow> string list \<Rightarrow> otable \<Rightarrow> otable res" where
  "process_defaults names defaults tab =
     bind_res (process_all names defaults tab) (\<lambda>tab.
     if list_all (\<lambda>(n, t). tab n \<noteq> None) names then Inr tab else Inl Assert_failed)"

text \<open>The arguments: whether the system file is read, the user's file, the options; or an exit.\<close>

record cmdline =
  cl_sys :: bool
  cl_file :: "string option"
  cl_opts :: "string list"

fun parse_args :: "string list \<Rightarrow> cmdline \<Rightarrow> int + cmdline" where
  "parse_args [] c = Inr c"
| "parse_args (a # as) c =
     (if a = ''--help'' then Inl 0
      else if a = ''-n'' then parse_args as (c\<lparr>cl_sys := False\<rparr>)
      else if a = ''-o'' then
        (case as of [] \<Rightarrow> Inl (-1) | x # as \<Rightarrow> parse_args as (c\<lparr>cl_opts := cl_opts c @ [x]\<rparr>))
      else if a = ''-F'' then
        (case as of [] \<Rightarrow> Inl (-1) | x # as \<Rightarrow> parse_args as (c\<lparr>cl_file := Some x\<rparr>))
      else if a = ''--print-config'' then Inl 0
      else Inl (-1))"

definition read_configs ::
    "nametable \<Rightarrow> string option \<Rightarrow> (string \<Rightarrow> string list option) \<Rightarrow> cmdline \<Rightarrow> otable \<Rightarrow> otable res" where
  "read_configs names sys_conf files c tab =
     bind_res (if cl_sys c then process_options_from_file names (files (the sys_conf)) tab else Inr tab) (\<lambda>tab.
     bind_res (case cl_file c of None \<Rightarrow> Inr tab | Some f \<Rightarrow> process_options_from_file names (files f) tab) (\<lambda>tab.
     process_all names (cl_opts c) tab))"

text \<open>The table, or the status the process exits with; \<open>files\<close> are the files by name.\<close>

definition process_options ::
    "nametable \<Rightarrow> string list \<Rightarrow> string option \<Rightarrow> (string \<Rightarrow> string list option) \<Rightarrow> string list \<Rightarrow>
     (int + otable) res" where
  "process_options names defaults sys_conf files args =
     bind_res (process_defaults names defaults Map.empty) (\<lambda>tab.
     case parse_args args \<lparr>cl_sys = (sys_conf \<noteq> None), cl_file = None, cl_opts = []\<rparr> of
       Inl st \<Rightarrow> Inr (Inl st)
     | Inr c \<Rightarrow>
         if \<not> cl_sys c \<and> cl_file c = None then Inr (Inl (-1))
         else bind_res (read_configs names sys_conf files c tab) (\<lambda>tab. Inr (Inr tab)))"

section \<open>Types\<close>

fun has_otype :: "otype \<Rightarrow> ovalue \<Rightarrow> bool" where
  "has_otype O_FLAG (V_flag b) = True"
| "has_otype O_NUM (V_num n) = True"
| "has_otype O_STR (V_str s) = True"
| "has_otype _ _ = False"

definition tab_ok :: "nametable \<Rightarrow> otable \<Rightarrow> bool" where
  "tab_ok names tab \<longleftrightarrow>
     (\<forall>k t v. tab k = Some (t, v) \<longrightarrow> get_option_type names k = Some t \<and> has_otype t v)"

text \<open>A step keeps the table well typed and forgets no option.\<close>

definition tab_step :: "nametable \<Rightarrow> otable \<Rightarrow> otable \<Rightarrow> bool" where
  "tab_step names tab tab' \<longleftrightarrow> (tab_ok names tab \<longrightarrow> tab_ok names tab') \<and> dom tab \<subseteq> dom tab'"

named_theorems tab_steps "operations that are table steps"

lemma tab_step_refl [simp]: "tab_step names tab tab"
  by (simp add: tab_step_def)

lemma tab_step_trans: "tab_step names a b \<Longrightarrow> tab_step names b c \<Longrightarrow> tab_step names a c"
  by (auto simp: tab_step_def)

lemma tab_step_upd:
  "get_option_type names key = Some t \<Longrightarrow> has_otype t v \<Longrightarrow> tab_step names tab (tab(key \<mapsto> (t, v)))"
  by (auto simp: tab_step_def tab_ok_def)

lemma set_option_step [tab_steps]:
  "set_option_str names key s tab = Inr tab' \<Longrightarrow> tab_step names tab tab'"
  "set_option_num names key n tab = Inr tab' \<Longrightarrow> tab_step names tab tab'"
  "set_option_flag names key b tab = Inr tab' \<Longrightarrow> tab_step names tab tab'"
  by (auto simp: set_option_str_def set_option_num_def set_option_flag_def intro: tab_step_upd split: if_splits)

lemma process_flag_step [tab_steps]:
  "process_flag names opt tab = Inr tab' \<Longrightarrow> tab_step names tab tab'"
  by (cases "strprefix opt ''no''") (auto simp: process_flag_def Let_def intro: tab_steps split: if_splits)

lemma process_value_step [tab_steps]:
  "process_value names opt val tab = Inr tab' \<Longrightarrow> tab_step names tab tab'"
  by (auto simp: process_value_def bind_res_Inr_iff intro: tab_steps split: if_splits option.splits otype.splits)

lemma process_one_step [tab_steps]:
  "process_one_option names opt tab = Inr tab' \<Longrightarrow> tab_step names tab tab'"
  by (auto simp: process_one_option_def Let_def intro: tab_steps split: if_splits)

lemma process_first_step [tab_steps]:
  "process_first_option names mem tab = Inr (n, b, tab') \<Longrightarrow> tab_step names tab tab'"
  by (auto simp: process_first_option_def Let_def bind_res_Inr_iff intro: tab_steps split: if_splits)

lemma process_line_step [tab_steps]:
  "process_line names mem tab = Inr (k, tab') \<Longrightarrow> tab_step names tab tab'"
proof (induction names mem tab arbitrary: k rule: process_line.induct)
  case (1 names mem tab)
  obtain n go tab1 where f: "process_first_option names mem tab = Inr (n, go, tab1)"
    using 1(2) by (subst (asm) process_line.simps) (auto split: sum.splits)
  then have "tab_step names tab1 tab'"
    using 1(1) [OF f refl refl] 1(2)
    by (subst (asm) (2) process_line.simps) (auto simp: bind_res_Inr_iff split: if_splits)
  then show ?case using process_first_step [OF f] tab_step_trans by blast
qed

lemma process_lines_step [tab_steps]:
  "process_lines names p ls tab = Inr tab' \<Longrightarrow> tab_step names tab tab'"
proof (induction names p ls tab rule: process_lines.induct)
  case (2 names p l ls tab)
  then show ?case
    by (auto simp: Let_def bind_res_Inr_iff split: if_splits intro: tab_step_trans process_line_step)
qed simp

lemma process_file_step [tab_steps]:
  "process_options_from_file names file tab = Inr tab' \<Longrightarrow> tab_step names tab tab'"
  by (auto simp: process_options_from_file_def intro: tab_steps split: option.splits)

lemma process_all_step [tab_steps]:
  "process_all names xs tab = Inr tab' \<Longrightarrow> tab_step names tab tab'"
proof (induction names xs tab rule: process_all.induct)
  case (2 names x xs tab)
  then show ?case by (auto simp: bind_res_Inr_iff intro: tab_step_trans process_one_step)
qed simp

lemma read_configs_step [tab_steps]:
  assumes "read_configs names sys_conf files c tab = Inr tab'"
  shows "tab_step names tab tab'"
proof -
  obtain tab1 tab2 where
    f: "(if cl_sys c then process_options_from_file names (files (the sys_conf)) tab else Inr tab) = Inr tab1"
      "(case cl_file c of None \<Rightarrow> Inr tab1 | Some f \<Rightarrow> process_options_from_file names (files f) tab1) = Inr tab2"
      "process_all names (cl_opts c) tab2 = Inr tab'"
    using assms unfolding read_configs_def bind_res_Inr_iff by blast
  have "tab_step names tab tab1" using f(1) by (auto intro: tab_steps split: if_splits)
  moreover have "tab_step names tab1 tab2" using f(2) by (auto intro: tab_steps split: option.splits)
  ultimately show ?thesis using process_all_step [OF f(3)] tab_step_trans by blast
qed

text \<open>
  C34. Options are well typed.  When the defaults, the files and the command line have been processed,
  the table has an entry for every declared option and for no other, and the entry has the declared
  type and a value of that type, so that no later access fails or reads the wrong member of the union.
\<close>

theorem options_well_typed:
  assumes "process_options names defaults sys_conf files args = Inr (Inr tab)"
  shows "\<forall>n. (case get_option_type names n of
                None \<Rightarrow> tab n = None
              | Some t \<Rightarrow> \<exists>v. tab n = Some (t, v) \<and> has_otype t v \<and> option_value tab n = Inr v)"
proof -
  let ?c = "parse_args args \<lparr>cl_sys = (sys_conf \<noteq> None), cl_file = None, cl_opts = []\<rparr>"
  obtain tab0 where d: "process_defaults names defaults Map.empty = Inr tab0"
    and r: "(case ?c of Inl st \<Rightarrow> Inr (Inl st) | Inr c \<Rightarrow>
      if \<not> cl_sys c \<and> cl_file c = None then Inr (Inl (-1))
      else bind_res (read_configs names sys_conf files c tab0) (\<lambda>tab. Inr (Inr tab))) = Inr (Inr tab)"
    using assms unfolding process_options_def bind_res_Inr_iff by blast
  then obtain c where "read_configs names sys_conf files c tab0 = Inr tab"
    by (cases ?c) (auto simp: bind_res_Inr_iff split: if_splits)
  then have s: "tab_step names tab0 tab" by (rule read_configs_step)
  have "tab_step names Map.empty tab0" and all: "\<forall>(n, t)\<in>set names. n \<in> dom tab0"
    using d by (auto simp: process_defaults_def bind_res_Inr_iff list_all_iff dom_def intro: tab_steps split: if_splits)
  then have ok: "tab_ok names tab" using s by (auto simp: tab_step_def tab_ok_def)
  show ?thesis
  proof
    fix n
    show "case get_option_type names n of None \<Rightarrow> tab n = None
      | Some t \<Rightarrow> \<exists>v. tab n = Some (t, v) \<and> has_otype t v \<and> option_value tab n = Inr v"
    proof (cases "get_option_type names n")
      case None
      then show ?thesis using ok by (cases "tab n") (auto simp: tab_ok_def)
    next
      case (Some t)
      then have "n \<in> dom tab0" using all by (auto simp: get_option_type_def dest!: map_of_SomeD)
      then have "n \<in> dom tab" using s by (auto simp: tab_step_def)
      then obtain t' v where "tab n = Some (t', v)" by auto
      then show ?thesis using ok Some by (auto simp: tab_ok_def option_value_def)
    qed
  qed
qed

definition sample_names :: nametable where
  "sample_names = [(''daemon'', O_FLAG), (''threads'', O_NUM), (''ns'', O_STR)]"

theorem options_well_typed_witness:
  "\<exists>tab. process_options sample_names [''nodaemon'', ''threads=1'', ''ns=''] None (\<lambda>_. None)
      [''-F'', ''conf'', ''-o'', ''daemon''] = Inr (Inr tab) \<and>
    (\<exists>v. tab ''threads'' = Some (O_NUM, v) \<and> has_otype O_NUM v)"
proof -
  obtain tab where tab: "process_options sample_names [''nodaemon'', ''threads=1'', ''ns=''] None (\<lambda>_. None)
      [''-F'', ''conf'', ''-o'', ''daemon''] = Inr (Inr tab)"
    by (simp add: process_options_def process_defaults_def process_one_option_def process_flag_def
        process_value_def set_option_flag_def set_option_num_def set_option_str_def strprefix_def
        sample_names_def get_option_type_def read_configs_def process_options_from_file_def stoul_def
        skip_ws_def is_space_def take_sign_def is_digit_def nat_of_digits_def digit_val_def Let_def)
  then show ?thesis using options_well_typed [OF tab, THEN spec, of "''threads''"]
    by (auto simp: sample_names_def get_option_type_def)
qed

section \<open>The buffer of a file\<close>

definition plain :: "char \<Rightarrow> bool" where
  "plain c \<longleftrightarrow> c \<noteq> nul \<and> c \<noteq> quote \<and> c \<noteq> CHR 0x5C \<and> c \<noteq> CHR ''#'' \<and> \<not> is_space c"

lemma scan_plain:
  assumes "\<forall>c\<in>set l. plain c" "length cb + length l \<le> OPTBUFSIZE"
  shows "scan_option False False cb (l @ [nul]) n = Inr (cb @ l, n + length l + 1, True)"
  using assms by (induction l arbitrary: cb n) (auto simp: plain_def)

lemma process_line_plain:
  assumes "\<forall>c\<in>set l. plain c" "l \<noteq> []" "length l < OPTBUFSIZE" "process_one_option names l tab = Inr tab'"
  shows "process_line names (l @ [nul]) tab = Inr (length l + 1, tab')"
proof -
  obtain c l' where l: "l = c # l'" using assms(2) by (cases l) auto
  then have "takeWhile is_space (l @ [nul]) = []" using assms(1) by (simp add: plain_def)
  then have "process_first_option names (l @ [nul]) tab = Inr (length l + 1, False, tab')"
    using scan_plain [of l "[]" 0] assms by (simp add: process_first_option_def Let_def)
  then show ?thesis by (subst process_line.simps) simp
qed

text \<open>
  C35. The pointer into the buffer is not set back between the lines of a file, so a file whose lines are
  all short enough still overflows the buffer once they are longer than it together.
\<close>

theorem config_file_overflow:
  assumes "\<forall>c\<in>set l. plain c" "l \<noteq> []" "length l < OPTBUFSIZE" "process_one_option names l tab = Inr tab'"
    and "length l' < OPTBUFSIZE" "OPTBUFSIZE < length l + length l' + 2"
  shows "process_options_from_file names (Some (l # l' # ls)) tab = Inl Out_of_range"
  using assms process_line_plain [OF assms(1-4)] by (simp add: process_options_from_file_def OPTBUFSIZE_def Let_def)

theorem config_file_overflow_witness:
  "process_options_from_file [] (Some [replicate 600 CHR ''a'', replicate 600 CHR ''b'']) Map.empty = Inl Out_of_range"
proof (rule config_file_overflow)
  have "process_flag [] l tab = Inr tab" for l tab
    by (auto simp: process_flag_def Let_def get_option_type_def split: prod.split)
  then show "process_one_option [] (replicate 600 CHR ''a'') Map.empty = Inr Map.empty"
    by (simp add: process_one_option_def takeWhile_eq_all_conv Let_def process_value_def get_option_type_def)
qed (auto simp: plain_def is_space_def OPTBUFSIZE_def)

end
