(* ===== verification/Scheduler.thy ===== *)
theory Scheduler
  imports Actor "HOL-Library.Multiset"
begin

text \<open>
  Workers that run actors (\<open>Worker::run\<close> in \<open>include/mola/scheduler.hpp\<close> with \<open>Actor::execute\<close> and
  \<open>Actor::deliver_message\<close>), as steps of any number of workers and senders.  The
  tasks that wait in the queues of the scheduling strategy are a multiset: \<^theory_text>\<open>Work_Steal\<close> shows that the
  strategy takes exactly the task it returns.
\<close>

section \<open>Workers and actors\<close>

text \<open>
  The mailboxes of the actors, the waiting tasks, and what each worker runs.  For specification: the
  messages sent to each actor and those it has handled.
\<close>

record 'u sched =
  sc_box :: "nat \<Rightarrow> 'u abox"
  sc_jobs :: "nat multiset"
  sc_run :: "nat \<Rightarrow> nat option"
  sc_sent :: "nat \<Rightarrow> 'u wrapper list"
  sc_done :: "nat \<Rightarrow> 'u wrapper list"

definition box_new :: "'u abox" where
  "box_new = \<lparr>bx_stack = [], bx_queues = [[], []], bx_mark = Box_blocked\<rparr>"

text \<open>
  Loading modules enqueues the instances of those that start by themselves; no message is in their
  mailboxes.
\<close>

definition sched_init :: "nat list \<Rightarrow> 'u sched" where
  "sched_init autos = \<lparr>sc_box = (\<lambda>_. box_new), sc_jobs = mset autos, sc_run = (\<lambda>_. None), sc_sent = (\<lambda>_. []), sc_done = (\<lambda>_. [])\<rparr>"

text \<open>\<open>deliver_message\<close>: the sender that unblocks the mailbox hands the actor to the scheduler.\<close>

definition sched_send :: "nat \<Rightarrow> 'u wrapper \<Rightarrow> 'u sched \<Rightarrow> 'u sched option" where
  "sched_send i w s =
     (case box_enqueue w (sc_box s i) of
        (r, b) \<Rightarrow>
          if r = MAILBOX_FAILURE then None
          else Some (s\<lparr>sc_box := (sc_box s)(i := b),
                       sc_sent := (sc_sent s)(i := sc_sent s i @ [w]),
                       sc_jobs := (if r = MAILBOX_UNBLOCKED then add_mset i (sc_jobs s) else sc_jobs s)\<rparr>))"

text \<open>
  A worker takes a task; it takes a message out of the mailbox; its execution of the actor ends.  To
  take a message out of a closed mailbox is to follow a wild pointer: there is no such step.
\<close>

definition worker_take :: "nat \<Rightarrow> nat \<Rightarrow> 'u sched \<Rightarrow> 'u sched option" where
  "worker_take k i s =
     (if sc_run s k = None \<and> i \<in># sc_jobs s
      then Some (s\<lparr>sc_jobs := sc_jobs s - {#i#}, sc_run := (sc_run s)(k \<mapsto> i)\<rparr>) else None)"

definition worker_message :: "nat \<Rightarrow> 'u sched \<Rightarrow> 'u sched option" where
  "worker_message k s =
     (case sc_run s k of
        None \<Rightarrow> None
      | Some i \<Rightarrow>
          if bx_mark (sc_box s i) = Box_closed then None
          else (case box_dequeue (sc_box s i) of
             (None, b) \<Rightarrow> None
           | (Some w, b) \<Rightarrow>
               Some (s\<lparr>sc_box := (sc_box s)(i := b), sc_done := (sc_done s)(i := sc_done s i @ [w])\<rparr>)))"

definition worker_finish :: "nat \<Rightarrow> 'u sched \<Rightarrow> 'u sched option" where
  "worker_finish k s =
     (case sc_run s k of
        None \<Rightarrow> None
      | Some i \<Rightarrow>
          (case (if bx_mark (sc_box s i) = Box_blocked then (True, sc_box s i) else box_try_block (sc_box s i)) of
             (blocked, b) \<Rightarrow>
               Some (s\<lparr>sc_run := (sc_run s)(k := None), sc_box := (sc_box s)(i := b),
                       sc_jobs := (if blocked then sc_jobs s else add_mset i (sc_jobs s))\<rparr>)))"

text \<open>An actor that throws closes its mailbox, and the worker deletes it.\<close>

definition worker_exit :: "nat \<Rightarrow> 'u sched \<Rightarrow> 'u sched option" where
  "worker_exit k s =
     (case sc_run s k of
        None \<Rightarrow> None
      | Some i \<Rightarrow>
          Some (s\<lparr>sc_run := (sc_run s)(k := None),
                  sc_box := (sc_box s)(i := (sc_box s i)\<lparr>bx_mark := Box_closed\<rparr>)\<rparr>))"

inductive sched_step :: "'u sched \<Rightarrow> 'u sched \<Rightarrow> bool" where
  "sched_send i w s = Some s' \<Longrightarrow> sched_step s s'"
| "worker_take k i s = Some s' \<Longrightarrow> sched_step s s'"
| "worker_message k s = Some s' \<Longrightarrow> sched_step s s'"
| "worker_finish k s = Some s' \<Longrightarrow> sched_step s s'"
| "worker_exit k s = Some s' \<Longrightarrow> sched_step s s'"

inductive_cases sched_stepE: "sched_step s s'"

inductive sched_reach :: "nat list \<Rightarrow> 'u sched \<Rightarrow> bool" for autos where
  sched_start: "sched_reach autos (sched_init autos)"
| sched_next: "sched_reach autos s \<Longrightarrow> sched_step s s' \<Longrightarrow> sched_reach autos s'"

section \<open>Every actor with messages is scheduled, once\<close>

text \<open>How often an actor is waiting or running.\<close>

definition runners :: "'u sched \<Rightarrow> nat \<Rightarrow> nat set" where
  "runners s i = {k. sc_run s k = Some i}"

text \<open>A waiting or running actor has an open mailbox, and the other way round.\<close>

definition actor_inv :: "'u sched \<Rightarrow> nat \<Rightarrow> bool" where
  "actor_inv s i \<longleftrightarrow>
     length (bx_queues (sc_box s i)) = 2 \<and>
     mset (sc_sent s i) = mset (sc_done s i) + mset (pending (sc_box s i)) \<and>
     (bx_mark (sc_box s i) = Box_blocked \<longrightarrow> pending (sc_box s i) = []) \<and>
     (if bx_mark (sc_box s i) = Box_open
      then count (sc_jobs s) i = 1 \<and> runners s i = {} \<or> count (sc_jobs s) i = 0 \<and> (\<exists>k. runners s i = {k})
      else count (sc_jobs s) i = 0 \<and> runners s i = {})"

lemma actor_inv_frame:
  assumes "sc_box s' i = sc_box s i" "count (sc_jobs s') i = count (sc_jobs s) i" "runners s' i = runners s i"
    and "sc_sent s' i = sc_sent s i" "sc_done s' i = sc_done s i"
  shows "actor_inv s' i = actor_inv s i"
  unfolding actor_inv_def assms ..

lemma send_inv:
  assumes inv: "actor_inv s i" and st: "sched_send j w s = Some s'"
  shows "actor_inv s' i"
proof (cases "j = i")
  case False
  with st show ?thesis
    by (subst actor_inv_frame [of s' i s])
      (auto simp: sched_send_def runners_def inv split: prod.splits if_splits)
next
  case True
  have p: "mset (pending (b\<lparr>bx_stack := w # bx_stack b\<rparr>)) = add_mset w (mset (pending b))"
    "mset (pending (b\<lparr>bx_stack := w # bx_stack b, bx_mark := m\<rparr>)) = add_mset w (mset (pending b))" for b :: "'a abox" and m
    by (simp_all add: pending_def)
  show ?thesis
    using inv st True
    by (cases "bx_mark (sc_box s i)")
      (auto simp: sched_send_def actor_inv_def box_enqueue_def runners_def p)
qed

lemma runners_take: "sc_run s k = None \<Longrightarrow> runners (s\<lparr>sc_jobs := q, sc_run := (sc_run s)(k \<mapsto> j)\<rparr>) i =
    (if i = j then insert k (runners s i) else runners s i)"
  by (auto simp: runners_def)

lemma take_inv:
  assumes inv: "actor_inv s i" and st: "worker_take k j s = Some s'"
  shows "actor_inv s' i"
proof -
  have s': "s' = s\<lparr>sc_jobs := sc_jobs s - {#j#}, sc_run := (sc_run s)(k \<mapsto> j)\<rparr>"
    and k: "sc_run s k = None" and j: "j \<in># sc_jobs s"
    using st by (auto simp: worker_take_def split: if_splits)
  show ?thesis
  proof (cases "j = i")
    case False
    then show ?thesis
      using inv by (subst actor_inv_frame [of s' i s]) (auto simp: s' runners_take [OF k])
  next
    case True
    then have "i \<in># sc_jobs s" using j by simp
    then have "bx_mark (sc_box s i) = Box_open" "count (sc_jobs s) i = 1" "runners s i = {}"
      using inv by (auto simp: actor_inv_def count_eq_zero_iff split: if_splits)
    then show ?thesis using inv True by (simp add: actor_inv_def s' runners_take [OF k])
  qed
qed

lemma message_inv:
  assumes inv: "actor_inv s i" and st: "worker_message k s = Some s'"
  shows "actor_inv s' i"
proof -
  obtain j w b where j: "sc_run s k = Some j" and w: "box_dequeue (sc_box s j) = (Some w, b)"
    and s': "s' = s\<lparr>sc_box := (sc_box s)(j := b), sc_done := (sc_done s)(j := sc_done s j @ [w])\<rparr>"
    using st by (auto simp: worker_message_def split: option.splits prod.splits if_splits)
  have r: "runners s' = runners s" by (simp add: s' runners_def fun_eq_iff)
  show ?thesis
  proof (cases "j = i")
    case False
    then show ?thesis using inv by (subst actor_inv_frame [of s' i s]) (auto simp: s' runners_def)
  next
    case True
    have "pending (sc_box s i) \<noteq> []"
      using w True box_dequeue_empty [of "sc_box s i"] by auto
    moreover have "box_ok (sc_box s i)" using inv by (simp add: actor_inv_def box_ok_def)
    ultimately have "box_ok b" "bx_mark b = bx_mark (sc_box s i)"
      "mset (pending (sc_box s i)) = add_mset w (mset (pending b))"
      using box_dequeue_some [of "sc_box s i"] w True by auto
    moreover have "sc_box s' i = b" "sc_jobs s' = sc_jobs s" "sc_sent s' = sc_sent s" "sc_done s' i = sc_done s i @ [w]"
      using True by (simp_all add: s')
    ultimately show ?thesis using inv by (auto simp: actor_inv_def box_ok_def r split: if_splits)
  qed
qed

lemma runners_stop: "sc_run s k = Some j \<Longrightarrow> {l. ((sc_run s)(k := None)) l = Some i} =
    (if i = j then runners s i - {k} else runners s i)"
  by (auto simp: runners_def)

lemma stop_inv:
  assumes inv: "actor_inv s i" and j: "sc_run s k = Some j" and run: "sc_run s' = (sc_run s)(k := None)"
    and fr: "sc_sent s' = sc_sent s" "sc_done s' = sc_done s" "\<And>l. l \<noteq> j \<Longrightarrow> sc_box s' l = sc_box s l"
      "\<And>l. l \<noteq> j \<Longrightarrow> count (sc_jobs s') l = count (sc_jobs s) l"
    and own: "bx_stack (sc_box s' j) = bx_stack (sc_box s j)" "bx_queues (sc_box s' j) = bx_queues (sc_box s j)"
      "bx_mark (sc_box s' j) = Box_blocked \<Longrightarrow> pending (sc_box s j) = []"
      "count (sc_jobs s') j = count (sc_jobs s) j + (if bx_mark (sc_box s' j) = Box_open then 1 else 0)"
  shows "actor_inv s' i"
proof -
  have r: "runners s' i = (if i = j then runners s i - {k} else runners s i)"
    using runners_stop [OF j] by (simp add: runners_def run)
  show ?thesis
  proof (cases "i = j")
    case False
    then show ?thesis using inv r fr by (subst actor_inv_frame [of s' i s]) auto
  next
    case True
    have "k \<in> runners s i" using j True by (simp add: runners_def)
    then have "runners s i = {k}" "count (sc_jobs s) i = 0"
      using inv by (auto simp: actor_inv_def split: if_splits)
    then show ?thesis using inv r fr own True by (auto simp: actor_inv_def pending_def)
  qed
qed

lemma finish_inv:
  assumes inv: "actor_inv s i" and st: "worker_finish k s = Some s'"
  shows "actor_inv s' i"
proof -
  obtain j where j: "sc_run s k = Some j" using st unfolding worker_finish_def by (cases "sc_run s k") auto
  obtain z b where b: "(if bx_mark (sc_box s j) = Box_blocked then (True, sc_box s j) else box_try_block (sc_box s j)) = (z, b)"
    by (cases "if bx_mark (sc_box s j) = Box_blocked then (True, sc_box s j) else box_try_block (sc_box s j)")
  have s': "s' = s\<lparr>sc_run := (sc_run s)(k := None), sc_box := (sc_box s)(j := b),
      sc_jobs := (if z then sc_jobs s else add_mset j (sc_jobs s))\<rparr>"
    using st unfolding worker_finish_def j option.case b by simp
  show ?thesis
  proof (cases "i = j")
    case False
    then show ?thesis
      using inv runners_stop [OF j, of i]
      by (subst actor_inv_frame [of s' i s]) (simp_all add: s' runners_def)
  next
    case True
    then have "k \<in> runners s j" using j by (simp add: runners_def)
    then have op: "bx_mark (sc_box s j) = Box_open" using inv True by (auto simp: actor_inv_def split: if_splits)
    have "(z \<longrightarrow> pending (sc_box s j) = [] \<and> b = (sc_box s j)\<lparr>bx_mark := Box_blocked\<rparr>) \<and> (\<not> z \<longrightarrow> b = sc_box s j)"
      using b by (auto simp: op box_try_block_def pending_def split: if_splits)
    then show ?thesis
      by (intro stop_inv [OF inv j]) (auto simp: s' op)
  qed
qed

lemma exit_inv:
  assumes inv: "actor_inv s i" and st: "worker_exit k s = Some s'"
  shows "actor_inv s' i"
proof -
  obtain j where j: "sc_run s k = Some j" using st unfolding worker_exit_def by (cases "sc_run s k") auto
  show ?thesis
    using st j by (intro stop_inv [OF inv j]) (auto simp: worker_exit_def)
qed

lemmas step_invs = send_inv take_inv message_inv finish_inv exit_inv

lemma reach_inv:
  assumes "sched_reach autos s" "i \<notin> set autos"
  shows "actor_inv s i"
  using assms(1)
proof induction
  case sched_start
  have "count (mset autos) i = 0" using assms(2) by (simp add: count_eq_zero_iff)
  then show ?case by (simp add: sched_init_def actor_inv_def box_new_def pending_def runners_def)
next
  case (sched_next s s')
  from sched_next(2,3) show ?case by (cases rule: sched_step.cases) (auto intro: step_invs)
qed

section \<open>The loop of a worker\<close>

text \<open>
  What \<open>Worker::run\<close> does with the result of \<open>execute\<close>: an actor that can go on is enqueued again, one
  that has ended is deleted.  The steps above are those of an execution of an actor whose handlers
  leave its own mailbox alone, whatever the other threads do between them.
\<close>

definition worker_run :: "nat \<Rightarrow> exec_status \<Rightarrow> 'u abox \<Rightarrow> 'u sched \<Rightarrow> 'u sched" where
  "worker_run k ret b s =
     (case sc_run s k of
        None \<Rightarrow> s
      | Some i \<Rightarrow>
          s\<lparr>sc_run := (sc_run s)(k := None), sc_box := (sc_box s)(i := b),
            sc_jobs := (if ret = RESUMABLE then add_mset i (sc_jobs s) else sc_jobs s)\<rparr>)"

definition box_frame :: "'u handler \<Rightarrow> bool" where
  "box_frame h \<longleftrightarrow> (\<forall>w a. case h w a of Inl a' \<Rightarrow> a_box a' = a_box a | Inr a' \<Rightarrow> a_box a' = a_box a)"

lemma box_frameD:
  assumes "box_frame h"
  shows "h w a = Inl b \<Longrightarrow> a_box b = a_box a" and "h w a = Inr b \<Longrightarrow> a_box b = a_box a"
  using assms [unfolded box_frame_def, rule_format, of a w] by auto

lemma leave_ctx_frame: "leave_ctx a = Inr a' \<Longrightarrow> a_box a' = a_box a \<and> a_message a' = None"
  by (auto simp: leave_ctx_def delete_req_ctx_def release_reqid_def bind_res_Inr_iff
    split: option.splits if_splits)

lemma message_step:
  assumes "sc_run s k = Some i" "bx_mark (sc_box s i) \<noteq> Box_closed" "box_dequeue (sc_box s i) = (Some w, b)"
  shows "sched_step s (s\<lparr>sc_box := (sc_box s)(i := b), sc_done := (sc_done s)(i := sc_done s i @ [w])\<rparr>)"
  using assms by (intro sched_step.intros(3) [of k]) (simp add: worker_message_def)

lemma dequeue_mark: "box_dequeue b = (r, b') \<Longrightarrow> bx_mark b' = bx_mark b"
  by (auto simp: box_dequeue_def split: prod.splits)

lemma dequeue_none: "box_dequeue b = (None, b') \<Longrightarrow> box_ok b \<Longrightarrow> b' = b"
  using box_dequeue_some [of b] box_dequeue_empty [of b] by fastforce

lemma dequeue_some_ok: "box_dequeue b = (Some w, b') \<Longrightarrow> box_ok b \<Longrightarrow> box_ok b'"
  using box_dequeue_some [of b] box_dequeue_empty [of b] by fastforce

lemma sched_same:
  "sc_box s i = b \<Longrightarrow> s\<lparr>sc_box := (sc_box s)(i := b), sc_done := (sc_done s)(i := sc_done s i @ [])\<rparr> = s"
  by (cases s) auto

lemma exec_loop_steps:
  assumes "exec_loop fuel h thr n a = Some (Inr (ws, x, a'))" "box_frame h" "a_message a = None"
    and "sc_run s k = Some i" "sc_box s i = a_box a" "box_ok (a_box a)" "bx_mark (a_box a) \<noteq> Box_closed"
  shows "sched_step\<^sup>*\<^sup>* s (s\<lparr>sc_box := (sc_box s)(i := a_box a'), sc_done := (sc_done s)(i := sc_done s i @ ws)\<rparr>)
    \<and> bx_mark (a_box a') \<noteq> Box_closed"
  using assms
proof (induction fuel h thr n a arbitrary: ws s rule: exec_loop.induct)
  case (1 h thr n a)
  then show ?case by simp
next
  case (2 fuel h thr n a)
  note sm = 2(4-8)
  obtain r b where d: "box_dequeue (a_box a) = (r, b)" by (cases "box_dequeue (a_box a)")
  show ?case
  proof (cases "n \<le> thr")
    case False
    then have e: "ws = []" "a' = a" using 2(2) by simp_all
    show ?thesis unfolding e sched_same [of s i "a_box a", OF sm(3)] using sm by simp
  next
    case n: True
    show ?thesis
    proof (cases r)
      case None
      then have "get_message a = a" using d dequeue_none [of "a_box a" b] sm by (simp add: get_message_def)
      then have e: "ws = []" "a' = a" using 2(2) sm n by simp_all
      show ?thesis unfolding e sched_same [of s i "a_box a", OF sm(3)] using sm by simp
    next
      case (Some w)
      let ?a1 = "a\<lparr>a_box := b, a_message := Some w\<rparr>"
      let ?s = "s\<lparr>sc_box := (sc_box s)(i := b), sc_done := (sc_done s)(i := sc_done s i @ [w])\<rparr>"
      have g: "get_message a = ?a1" using d Some by (simp add: get_message_def)
      have st: "sched_step s ?s" using message_step [of s k i w b] sm d Some by simp
      have mk: "bx_mark b \<noteq> Box_closed" using dequeue_mark [OF d] sm by simp
      have e: "a_box (enter_ctx w ?a1) = b" by (simp add: enter_ctx_def set_current_ctx_def)
      show ?thesis
      proof (cases "h w (enter_ctx w ?a1)")
        case (Inl a2)
        then have "a_box a2 = b" using box_frameD(1) [OF 2(3)] e by simp
        moreover have "ws = [w]" "a' = a2" using 2(2) n g Inl by (simp_all add: Let_def)
        ultimately show ?thesis using r_into_rtranclp [of sched_step, OF st] mk by (simp del: fun_upd_apply)
      next
        case (Inr a2)
        then have a2: "a_box a2 = b"
          using box_frameD(2) [OF 2(3)] e by simp
        obtain a3 where l: "leave_ctx a2 = Inr a3"
          using 2(2) n g Inr by (auto simp: Let_def split: sum.splits)
        let ?n = "(if is_reply w then n - 1 else n) + 1"
        obtain ws' where ws: "exec_loop fuel h thr ?n a3 = Some (Inr (ws', x, a'))" "ws = w # ws'"
          using 2(2) n g Inr l by (auto simp: Let_def bind_res_Inr_iff)
        have "sched_step\<^sup>*\<^sup>* ?s (?s\<lparr>sc_box := (sc_box ?s)(i := a_box a'), sc_done := (sc_done ?s)(i := sc_done ?s i @ ws')\<rparr>)
            \<and> bx_mark (a_box a') \<noteq> Box_closed"
          by (rule 2(1) [OF n g [symmetric] _ refl Inr l ws(1) 2(3)])
            (use sm leave_ctx_frame [OF l] a2 mk dequeue_some_ok [OF d [unfolded Some]] in simp_all)
        moreover have "?s\<lparr>sc_box := (sc_box ?s)(i := a_box a'), sc_done := (sc_done ?s)(i := sc_done ?s i @ ws')\<rparr> =
            s\<lparr>sc_box := (sc_box s)(i := a_box a'), sc_done := (sc_done s)(i := sc_done s i @ ws)\<rparr>"
          by (simp add: ws(2))
        ultimately show ?thesis using st converse_rtranclp_into_rtranclp [of sched_step s] by metis
      qed
    qed
  qed
qed

lemma execute_steps:
  assumes ex: "execute fuel h init thr a = Some (Inr (ws, ret, a'))"
    and fr: "box_frame h" "\<And>a. a_box (init a) = a_box a \<and> a_message (init a) = a_message a" "a_message a = None"
    and s: "sc_run s k = Some i" "sc_box s i = a_box a" "box_ok (a_box a)" "bx_mark (a_box a) \<noteq> Box_closed"
  shows "sched_step\<^sup>*\<^sup>* s (worker_run k ret (a_box a') (s\<lparr>sc_done := (sc_done s)(i := sc_done s i @ ws)\<rparr>))"
proof -
  let ?a1 = "if a_status a = ACTOR_STARTUP then (init a)\<lparr>a_status := ACTOR_RUNNING\<rparr> else a"
  obtain x a2 where l: "exec_loop fuel h thr 1 ?a1 = Some (Inr (ws, x, a2))"
    and ret: "Inr (ws, ret, a') = (if x then Inr (ws, EXIT, a2\<lparr>a_box := (a_box a2)\<lparr>bx_mark := Box_closed\<rparr>\<rparr>)
          else if bx_mark (a_box a2) = Box_blocked then Inr (ws, BLOCKED, a2)
          else (case box_try_block (a_box a2) of
                  (True, b) \<Rightarrow> Inr (ws, BLOCKED, a2\<lparr>a_box := b\<rparr>)
                | (False, b) \<Rightarrow> Inr (ws, RESUMABLE, a2\<lparr>a_box := b\<rparr>)) :: (_ \<times> _ \<times> 'a actor) res)"
    using ex by (auto simp: execute_def Let_def bind_res_Inr_iff split: if_splits prod.splits bool.splits)
  let ?s1 = "s\<lparr>sc_box := (sc_box s)(i := a_box a2), sc_done := (sc_done s)(i := sc_done s i @ ws)\<rparr>"
  have "a_message ?a1 = None" "a_box ?a1 = a_box a" using fr by simp_all
  then have st: "sched_step\<^sup>*\<^sup>* s ?s1" using exec_loop_steps [OF l fr(1), of s k i] s by simp
  have "sched_step ?s1 (worker_run k ret (a_box a') (s\<lparr>sc_done := (sc_done s)(i := sc_done s i @ ws)\<rparr>))"
  proof (cases x)
    case True
    then show ?thesis
      using ret s by (intro sched_step.intros(5) [of k]) (simp add: worker_exit_def worker_run_def)
  next
    case False
    then show ?thesis
      using ret s by (intro sched_step.intros(4) [of k])
        (auto simp: worker_finish_def worker_run_def split: if_splits prod.splits bool.splits)
  qed
  with st show ?thesis by simp
qed

section \<open>Properties\<close>


lemma sample_sched: "\<exists>s :: nat sched. sched_reach [] s \<and> sc_run s 0 = Some 7 \<and> sc_run s 1 = None"
proof -
  let ?s0 = "sched_init [] :: nat sched"
  let ?b = "box_new\<lparr>bx_stack := [sample_request], bx_mark := Box_open\<rparr>"
  let ?s1 = "?s0\<lparr>sc_box := (sc_box ?s0)(7 := ?b), sc_sent := (sc_sent ?s0)(7 := sc_sent ?s0 7 @ [sample_request]),
    sc_jobs := add_mset 7 (sc_jobs ?s0)\<rparr>"
  let ?s2 = "?s1\<lparr>sc_jobs := sc_jobs ?s1 - {#7#}, sc_run := (sc_run ?s1)(0 \<mapsto> 7)\<rparr>"
  have "sched_send 7 sample_request ?s0 = Some ?s1"
    by (simp add: sched_send_def sched_init_def box_enqueue_def box_new_def)
  moreover have "worker_take 0 7 ?s1 = Some ?s2" by (simp add: worker_take_def sched_init_def)
  ultimately have "sched_reach [] ?s2" by (blast intro: sched_reach.intros sched_step.intros)
  moreover have "sc_run ?s2 0 = Some 7" "sc_run ?s2 1 = None" by (simp_all add: sched_init_def)
  ultimately show ?thesis by blast
qed


text \<open>
  C36. An actor that its module starts is enqueued with a blocked mailbox.  The first message then enqueues
  it a second time, and two workers can run the actor at once.
\<close>

theorem autostart_runs_twice:
  fixes w :: "'u wrapper"
  assumes "i \<in> set autos" and "k \<noteq> l"
  shows "\<exists>s :: 'u sched. sched_reach autos s \<and> sc_run s k = Some i \<and> sc_run s l = Some i"
proof -
  let ?s0 = "sched_init autos :: 'u sched"
  let ?s1 = "?s0\<lparr>sc_jobs := sc_jobs ?s0 - {#i#}, sc_run := (sc_run ?s0)(k \<mapsto> i)\<rparr>"
  let ?s2 = "?s1\<lparr>sc_box := (sc_box ?s1)(i := box_new\<lparr>bx_stack := [w], bx_mark := Box_open\<rparr>),
    sc_sent := (sc_sent ?s1)(i := sc_sent ?s1 i @ [w]), sc_jobs := add_mset i (sc_jobs ?s1)\<rparr>"
  let ?s3 = "?s2\<lparr>sc_jobs := sc_jobs ?s2 - {#i#}, sc_run := (sc_run ?s2)(l \<mapsto> i)\<rparr>"
  have t1: "worker_take k i ?s0 = Some ?s1" using assms by (simp add: worker_take_def sched_init_def)
  have t2: "sched_send i w ?s1 = Some ?s2"
    by (simp add: sched_send_def sched_init_def box_enqueue_def box_new_def)
  have t3: "worker_take l i ?s2 = Some ?s3" using assms by (simp add: worker_take_def sched_init_def)
  have "sched_reach autos ?s3"
    by (rule sched_next [OF sched_next [OF sched_next [OF sched_start
          sched_step.intros(2) [OF t1]] sched_step.intros(1) [OF t2]] sched_step.intros(2) [OF t3]])
  moreover have "sc_run ?s3 k = Some i" "sc_run ?s3 l = Some i" using assms by simp_all
  ultimately show ?thesis by blast
qed

theorem autostart_runs_twice_witness:
  "\<exists>s :: nat sched. sched_reach [3] s \<and> sc_run s 0 = Some 3 \<and> sc_run s 1 = Some 3"
  using autostart_runs_twice [of 3 "[3]" 0 1, where ?'u = nat] by simp

end
