(* ===== verification/Zookeeper.thy ===== *)
theory Zookeeper
  imports Node_Manager Message
begin

text \<open>
  The engine that keeps a cluster in ZooKeeper (\<open>include/mola/zookeeper.hpp\<close>, \<open>src/zookeeper.cpp\<close>):
  module identifiers, joining and leaving, synchronisation of the nodes, watches, events, and the
  distributed lock.  The ZooKeeper client library is the parameter \<open>k\<close> of the definitions.
\<close>

section \<open>The service\<close>

text \<open>
  The calls the engine makes, on a state of the service; \<open>zoo_create\<close> has a flag for ephemeral
  sequence nodes and gives the path of the new node, \<open>zoo_get\<close> gives no data when the node has none.
\<close>

datatype zk_rc = ZOK | ZNONODE | ZNODEEXISTS | ZERROR

record 'z zk =
  zoo_create :: "string \<Rightarrow> string option \<Rightarrow> bool \<Rightarrow> 'z \<Rightarrow> zk_rc \<times> string \<times> 'z"
  zoo_delete :: "string \<Rightarrow> 'z \<Rightarrow> zk_rc \<times> 'z"
  zoo_get :: "string \<Rightarrow> bool \<Rightarrow> 'z \<Rightarrow> zk_rc \<times> string option \<times> 'z"
  zoo_set :: "string \<Rightarrow> string \<Rightarrow> 'z \<Rightarrow> zk_rc \<times> 'z"
  zoo_get_children :: "string \<Rightarrow> 'z \<Rightarrow> zk_rc \<times> string list \<times> 'z"
  zoo_exists :: "string \<Rightarrow> 'z \<Rightarrow> zk_rc \<times> 'z"

section \<open>Paths\<close>

definition MAX_NODE_STR_LEN :: nat where "MAX_NODE_STR_LEN = 1024"

definition NM_ZNODE :: "string option \<Rightarrow> string" where
  "NM_ZNODE ns = (if ns = None \<or> ns = Some [] then ''/MOLA'' else ''/'' @ the ns)"

definition NODE_ZNODE :: "string \<Rightarrow> string" where "NODE_ZNODE nm = nm @ ''/NODES''"
definition MODULE_ZNODE :: "string \<Rightarrow> string" where "MODULE_ZNODE nm = nm @ ''/MODULES''"
definition LOCK_ZNODE :: "string \<Rightarrow> string" where "LOCK_ZNODE nm = nm @ ''/LOCKS''"
definition CLIENT_ZNODE :: "string \<Rightarrow> string" where "CLIENT_ZNODE nm = nm @ ''/CLIENTS''"
definition EVENT_ZNODE :: "string \<Rightarrow> string" where "EVENT_ZNODE nm = nm @ ''/EVENTS''"

text \<open>
  \<open>printf\<close> with \<open>%010d\<close>, and into a local buffer.  Names that come from users are checked against the
  size of the buffer; the name of the root is taken to leave room for the numbers behind it.
\<close>

definition fmt010d :: "int \<Rightarrow> string" where
  "fmt010d v =
     (let d = nat_str (nat \<bar>v\<bar>) in
      if v < 0 then CHR ''-'' # replicate (9 - length d) CHR ''0'' @ d
      else replicate (10 - length d) CHR ''0'' @ d)"

definition into_buf :: "string \<Rightarrow> string res" where
  "into_buf s = (if length s < MAX_NODE_STR_LEN then Inr s else Inl Out_of_range)"

text \<open>\<open>strrchr (path, '/') + 1\<close>, and a C string that ends at a NUL.\<close>

definition last_part :: "string \<Rightarrow> string" where
  "last_part p = rev (takeWhile (\<lambda>c. c \<noteq> CHR ''/'') (rev p))"

definition c_str :: "string \<Rightarrow> string" where
  "c_str s = takeWhile (\<lambda>c. c \<noteq> CHR 0x00) s"

definition ZKID_TO_CLIENTID :: "u32 \<Rightarrow> u32" where "ZKID_TO_CLIENTID i = i + 0x10000"
definition CLIENTID_TO_ZKID :: "u32 \<Rightarrow> u32" where "CLIENTID_TO_ZKID i = i - 0x10000"
definition ZKID_TO_NODEID :: "u32 \<Rightarrow> u32" where "ZKID_TO_NODEID i = i + 1"
definition NODEID_TO_ZKID :: "u32 \<Rightarrow> u32" where "NODEID_TO_ZKID i = i - 1"
definition IS_CLIENT_ID :: "u32 \<Rightarrow> bool" where "IS_CLIENT_ID i \<longleftrightarrow> 0x10000 \<le> i"

text \<open>The macro \<open>FOR_EACH_ZNODE\<close> goes through the children from the last to the first.\<close>

definition FOR_EACH_ZNODE :: "string \<Rightarrow> string list \<Rightarrow> string list" where
  "FOR_EACH_ZNODE parent cs = map (\<lambda>c. take (MAX_NODE_STR_LEN - 1) (parent @ ''/'' @ c)) (rev cs)"

definition foreach_node :: "'z zk \<Rightarrow> string \<Rightarrow> 'z \<Rightarrow> zk_rc \<times> string list \<times> 'z" where
  "foreach_node k parent z =
     (case zoo_get_children k parent z of
        (rc, cs, z) \<Rightarrow> (rc, if rc = ZOK then FOR_EACH_ZNODE parent cs else [], z))"

text \<open>
  Reading a node into a buffer whose end is then set to NUL: the call must succeed with some data, and
  data that fills the buffer puts the NUL behind it.
\<close>

definition terminated :: "string option \<Rightarrow> string res" where
  "terminated d =
     (case d of
        None \<Rightarrow> Inl Assert_failed
      | Some s \<Rightarrow>
          if s = [] then Inl Assert_failed
          else if MAX_NODE_STR_LEN \<le> length s then Inl Out_of_range else Inr (c_str s))"

definition read_znode :: "'z zk \<Rightarrow> string \<Rightarrow> bool \<Rightarrow> 'z \<Rightarrow> (string \<times> 'z) res" where
  "read_znode k path watch z =
     (case zoo_get k path watch z of
        (rc, d, z) \<Rightarrow>
          if rc \<noteq> ZOK then Inl Assert_failed else bind_res (terminated d) (\<lambda>s. Inr (s, z)))"

section \<open>Module identifiers\<close>

text \<open>The counter is read and written in two calls; \<open>seq_write\<close> is the second.\<close>

definition seq_write :: "'z zk \<Rightarrow> string \<Rightarrow> u32 \<Rightarrow> 'z \<Rightarrow> 'z res" where
  "seq_write k path i z =
     (case zoo_set k path (nat_str (unat (i + 1))) z of
        (rc, z) \<Rightarrow> if rc = ZOK then Inr z else Inl Assert_failed)"

definition seq_read :: "'z zk \<Rightarrow> string \<Rightarrow> 'z \<Rightarrow> (u32 \<times> 'z) res" where
  "seq_read k path z =
     bind_res (read_znode k path False z) (\<lambda>(s, z). bind_res (stoul s) (\<lambda>n. Inr (ucast n, z)))"

definition get_and_inc_seq_num :: "'z zk \<Rightarrow> string \<Rightarrow> 'z \<Rightarrow> (u32 \<times> 'z) res" where
  "get_and_inc_seq_num k path z =
     bind_res (seq_read k path z) (\<lambda>(i, z). bind_res (seq_write k path i z) (\<lambda>z. Inr (i, z)))"

text \<open>
  The state of the engine: the name of its root, whether it is compiled for a client, whether it has a
  handle, the cache of modules in the order of \<open>std::map\<close>, the inherited node manager with its pool of
  delayed tasks, and the local node.
\<close>

record 'w zk_engine =
  ze_nm :: string
  ze_client :: bool
  ze_up :: bool
  ze_modules :: "(string \<times> u16) list"
  ze_mgr :: node_mgr
  ze_pool :: "'w pool"
  ze_local :: node

fun name_insert :: "string \<Rightarrow> u16 \<Rightarrow> (string \<times> u16) list \<Rightarrow> (string \<times> u16) list" where
  "name_insert s i [] = [(s, i)]"
| "name_insert s i ((t, j) # xs) =
     (if s = t then (t, j) # xs
      else if lexordp (\<lambda>a b. (of_char a :: nat) < of_char b) s t then (s, i) # (t, j) # xs
      else (t, j) # name_insert s i xs)"

text \<open>The search through the children: the identifier of the last match.\<close>

fun search_module :: "'z zk \<Rightarrow> string \<Rightarrow> string list \<Rightarrow> u16 \<Rightarrow> 'z \<Rightarrow> (u16 \<times> 'z) res" where
  "search_module k name [] i z = Inr (i, z)"
| "search_module k name (p # ps) i z =
     (if last_part p = name then
        bind_res (read_znode k p True z) (\<lambda>(s, z).
        bind_res (stoul s) (\<lambda>n. search_module k name ps (ucast n) z))
      else search_module k name ps i z)"

definition lookup_module :: "'z zk \<Rightarrow> string \<Rightarrow> string \<Rightarrow> 'z \<Rightarrow> (u16 \<times> 'z) res" where
  "lookup_module k nm name z =
     (case zoo_get_children k (MODULE_ZNODE nm) z of
        (rc, cs, z) \<Rightarrow>
          if rc \<noteq> ZOK then Inl Wild_deref
          else search_module k name (FOR_EACH_ZNODE (MODULE_ZNODE nm) cs) invalid_module z)"

definition create_module :: "'z zk \<Rightarrow> string \<Rightarrow> string \<Rightarrow> u16 \<Rightarrow> 'z \<Rightarrow> 'z res" where
  "create_module k nm name i z =
     bind_res (into_buf (MODULE_ZNODE nm @ ''/'' @ name)) (\<lambda>path.
     case zoo_create k path (Some (nat_str (unat i))) False z of
       (rc, _, z) \<Rightarrow> if rc = ZOK then Inr z else Inl Assert_failed)"

definition zk_get_module_id ::
    "'z zk \<Rightarrow> string \<Rightarrow> bool \<Rightarrow> 'w zk_engine \<Rightarrow> 'z \<Rightarrow> (u16 \<times> 'w zk_engine \<times> 'z) res" where
  "zk_get_module_id k name create e z =
     (case map_of (ze_modules e) name of
        Some i \<Rightarrow> Inr (i, e, z)
      | None \<Rightarrow>
          bind_res (lookup_module k (ze_nm e) name z) (\<lambda>(i, z).
          if i = invalid_module \<and> create then
            bind_res (get_and_inc_seq_num k (MODULE_ZNODE (ze_nm e)) z) (\<lambda>(n, z).
            bind_res (create_module k (ze_nm e) name (ucast n) z) (\<lambda>z.
            Inr (ucast n, e\<lparr>ze_modules := name_insert name (ucast n) (ze_modules e)\<rparr>, z)))
          else Inr (i, e, z)))"

fun search_name :: "'z zk \<Rightarrow> u16 \<Rightarrow> string list \<Rightarrow> string \<Rightarrow> 'z \<Rightarrow> (string \<times> 'z) res" where
  "search_name k i [] name z = Inr (name, z)"
| "search_name k i (p # ps) name z =
     bind_res (read_znode k p False z) (\<lambda>(s, z).
     bind_res (stoul s) (\<lambda>n. search_name k i ps (if ucast n = i then last_part p else name) z))"

definition zk_get_module_name :: "'z zk \<Rightarrow> u16 \<Rightarrow> 'w zk_engine \<Rightarrow> 'z \<Rightarrow> (string \<times> 'z) res" where
  "zk_get_module_name k i e z =
     (case find (\<lambda>(_, j). j = i) (ze_modules e) of
        Some (name, _) \<Rightarrow> Inr (name, z)
      | None \<Rightarrow>
          (case zoo_get_children k (MODULE_ZNODE (ze_nm e)) z of
             (rc, cs, z) \<Rightarrow>
               if rc \<noteq> ZOK then Inl Wild_deref
               else search_name k i (FOR_EACH_ZNODE (MODULE_ZNODE (ze_nm e)) cs) [] z))"

section \<open>Nodes\<close>

text \<open>The path of a node or a client; the number is printed as a signed one.\<close>

definition node_path :: "string \<Rightarrow> u32 \<Rightarrow> string" where
  "node_path nm i = NODE_ZNODE nm @ ''/'' @ fmt010d (sint (NODEID_TO_ZKID i))"

definition client_path :: "string \<Rightarrow> u32 \<Rightarrow> string" where
  "client_path nm i = CLIENT_ZNODE nm @ ''/'' @ fmt010d (sint (CLIENTID_TO_ZKID i))"

text \<open>Decoding a node asks the engine for the names of its modules, one by one.\<close>

fun name_modules ::
    "'z zk \<Rightarrow> 'w zk_engine \<Rightarrow> (string \<times> u16 \<times> bool) list \<Rightarrow> 'z \<Rightarrow> ((string \<times> u16 \<times> bool) list \<times> 'z) res" where
  "name_modules k e [] z = Inr ([], z)"
| "name_modules k e ((_, m, pub) # ms) z =
     bind_res (zk_get_module_name k m e z) (\<lambda>(s, z).
     bind_res (name_modules k e ms z) (\<lambda>(ms, z). Inr ((s, m, pub) # ms, z)))"

definition zk_find_node ::
    "'z zk \<Rightarrow> u32 \<times> u32 \<times> string \<times> u16 \<Rightarrow> u32 \<Rightarrow> 'w zk_engine \<Rightarrow> 'z \<Rightarrow> (node option \<times> 'z) res" where
  "zk_find_node k junk nid e z =
     (if nid = ANY \<or> nid = LOCAL then Inl Assert_failed
      else case zoo_get k ((if IS_CLIENT_ID nid then client_path else node_path) (ze_nm e) nid) True z of
        (rc, d, z) \<Rightarrow>
          if rc \<noteq> ZOK then Inr (None, z)
          else bind_res (terminated d) (\<lambda>info.
               let n = decode (\<lambda>_. []) junk nid info in
               bind_res (name_modules k e (n_modules n) z) (\<lambda>(ms, z). Inr (Some (n\<lparr>n_modules := ms\<rparr>), z))))"

text \<open>
  \<open>sync_all_nodes\<close>: the identifiers of the other nodes; then each is fetched, and if one is new or has
  changed the caches are dropped and the delayed tasks started.
\<close>

fun node_ids :: "u32 \<Rightarrow> string list \<Rightarrow> u32 list res" where
  "node_ids me [] = Inr []"
| "node_ids me (p # ps) =
     bind_res (stoul (last_part p)) (\<lambda>n.
     bind_res (node_ids me ps) (\<lambda>is.
     Inr (if ZKID_TO_NODEID (ucast n) \<noteq> me then ZKID_TO_NODEID (ucast n) # is else is)))"

fun sync_nodes ::
    "'z zk \<Rightarrow> u32 \<times> u32 \<times> string \<times> u16 \<Rightarrow> u32 list \<Rightarrow> bool \<Rightarrow> 'w zk_engine \<Rightarrow> 'z \<Rightarrow> (bool \<times> 'w zk_engine \<times> 'z) res" where
  "sync_nodes k junk [] notify e z = Inr (notify, e, z)"
| "sync_nodes k junk (i # is) notify e z =
     bind_res (zk_find_node k junk i e z) (\<lambda>(r, z).
     case r of
       None \<Rightarrow> sync_nodes k junk is notify e z
     | Some n \<Rightarrow>
         (case update_cached_node n (ze_mgr e) of
            (new, m) \<Rightarrow> sync_nodes k junk is (notify \<or> new) (e\<lparr>ze_mgr := m\<rparr>) z))"

definition trigger_delay_tasks :: "'w zk_engine \<Rightarrow> 'w zk_engine" where
  "trigger_delay_tasks e = e\<lparr>ze_pool := pool_notify ''NODE_CHANGE'' (ze_pool e)\<rparr>"

definition zk_sync_all_nodes ::
    "'z zk \<Rightarrow> u32 \<times> u32 \<times> string \<times> u16 \<Rightarrow> 'w zk_engine \<Rightarrow> 'z \<Rightarrow> (nat \<times> 'w zk_engine \<times> 'z) res" where
  "zk_sync_all_nodes k junk e z =
     (case foreach_node k (NODE_ZNODE (ze_nm e)) z of
        (rc, ps, z) \<Rightarrow>
          bind_res (node_ids (n_id (ze_local e)) ps) (\<lambda>is.
          bind_res (sync_nodes k junk is False e z) (\<lambda>(notify, e, z).
          Inr (length is + 1,
               (if notify then trigger_delay_tasks (e\<lparr>ze_mgr := invalid_thread_cache (ze_mgr e)\<rparr>) else e), z))))"

text \<open>Nodes with the address of the local node are left over from an earlier run.\<close>

fun delete_zombies :: "'z zk \<Rightarrow> string \<Rightarrow> node \<Rightarrow> node list \<Rightarrow> 'z \<Rightarrow> 'z" where
  "delete_zombies k nm me [] z = z"
| "delete_zombies k nm me (n # ns) z =
     delete_zombies k nm me ns (if same_addr me n then snd (zoo_delete k (node_path nm (n_id n)) z) else z)"

text \<open>\<open>sscanf\<close> of a number with \<open>%010d\<close>: at most ten characters after white space.\<close>

definition scan_d10 :: "string \<Rightarrow> int option" where
  "scan_d10 s =
     (case take_sign (take 10 (skip_ws s)) of
        (neg, r) \<Rightarrow>
          let ds = takeWhile is_digit r; v = int (nat_of_digits ds) in
          if ds = [] then None else Some (if neg then - v else v))"

definition join_dir :: "'w zk_engine \<Rightarrow> string" where
  "join_dir e = (if ze_client e then CLIENT_ZNODE (ze_nm e) else NODE_ZNODE (ze_nm e))"

definition join_id :: "bool \<Rightarrow> int \<Rightarrow> u32" where
  "join_id client i = (if client then ZKID_TO_CLIENTID (of_int i) else ZKID_TO_NODEID (of_int i))"

text \<open>The second half of \<open>join\<close>: the node of the local node is created and its number read back.\<close>

definition join_node :: "'z zk \<Rightarrow> 'w zk_engine \<Rightarrow> 'z \<Rightarrow> (int \<times> 'w zk_engine \<times> 'z) res" where
  "join_node k e z =
     (let path = join_dir e @ ''/'' in
      case zoo_create k path (Some (encode (ze_local e))) True z of
        (rc, my_path, z) \<Rightarrow>
          if rc \<noteq> ZOK then Inl Assert_failed
          else if take (length path) my_path \<noteq> path then Inl Assert_failed
          else (case scan_d10 (drop (length path) my_path) of
                  None \<Rightarrow> Inl Assert_failed
                | Some i \<Rightarrow>
                    let node = (ze_local e)\<lparr>n_id := join_id (ze_client e) i\<rparr> in
                    Inr (0, e\<lparr>ze_local := node, ze_mgr := snd (update_cached_node node (ze_mgr e))\<rparr>, z)))"

definition join :: "'z zk \<Rightarrow> u32 \<times> u32 \<times> string \<times> u16 \<Rightarrow> 'w zk_engine \<Rightarrow> 'z \<Rightarrow> (int \<times> 'w zk_engine \<times> 'z) res" where
  "join k junk e z =
     (if \<not> ze_up e then Inr (-1, e, z)
      else bind_res (if ze_client e then Inr (e, z)
                     else bind_res (zk_sync_all_nodes k junk e z) (\<lambda>(_, e, z).
                          Inr (e, delete_zombies k (ze_nm e) (ze_local e) (map snd (alive (ze_mgr e))) z)))
           (\<lambda>(e, z). join_node k e z))"

definition leave :: "'z zk \<Rightarrow> 'w zk_engine \<Rightarrow> 'z \<Rightarrow> (int \<times> 'z) res" where
  "leave k e z =
     (if \<not> ze_up e then Inr (-1, z)
      else case zoo_delete k ((if ze_client e then client_path else node_path) (ze_nm e) (n_id (ze_local e))) z of
             (rc, z) \<Rightarrow> if rc = ZOK then Inr (0, z) else Inl Assert_failed)"

section \<open>Connecting\<close>

text \<open>
  The option is \<open>hosts\<close> or \<open>hosts=timeout\<close>, split by \<open>strtok\<close>; \<open>init\<close> is \<open>zookeeper_init\<close> (whether it
  gives a handle) and \<open>polls\<close> what \<open>zoo_state\<close> answers, every 100 milliseconds.
\<close>

definition SESSION_TIMEOUT :: int where "SESSION_TIMEOUT = 30000"

definition connect_option :: "string \<Rightarrow> (string option \<times> string option)" where
  "connect_option s =
     (let s = dropWhile (\<lambda>c. c = CHR ''='') s;
          h = takeWhile (\<lambda>c. c \<noteq> CHR ''='') s;
          r = dropWhile (\<lambda>c. c = CHR ''='') (drop (length h) s);
          t = takeWhile (\<lambda>c. c \<noteq> CHR ''='') r
      in (if h = [] then None else Some h, if h = [] \<or> t = [] then None else Some t))"

definition scan_timeout :: "string option \<Rightarrow> int option" where
  "scan_timeout t =
     (case t of
        None \<Rightarrow> Some SESSION_TIMEOUT
      | Some s \<Rightarrow>
          (case take_sign (skip_ws s) of
             (neg, r) \<Rightarrow>
               let ds = takeWhile is_digit r; v = of_nat (nat_of_digits ds) :: u32 in
               if ds = [] then None else Some (sint (if neg then - v else v))))"

text \<open>The loop that waits for the connection: the state is polled, then the retries are counted.\<close>

fun poll_state :: "int \<Rightarrow> int \<Rightarrow> bool list \<Rightarrow> bool option" where
  "poll_state retry max_retry [] = None"
| "poll_state retry max_retry (up # ps) =
     (if up then Some True
      else if max_retry \<le> retry + 1 then Some False else poll_state (retry + 1) max_retry ps)"

lemma poll_state_returns:
  "max_retry - retry \<le> int (length ps) \<Longrightarrow> ps \<noteq> [] \<Longrightarrow> \<exists>up. poll_state retry max_retry ps = Some up"
proof (induction ps arbitrary: retry)
  case (Cons up ps)
  then show ?case using Cons.IH [of "retry + 1"] by (cases ps) auto
qed simp

definition create_dirs :: "'z zk \<Rightarrow> string \<Rightarrow> 'z \<Rightarrow> bool \<times> 'z" where
  "create_dirs k nm z =
     fold (\<lambda>d (ok, z). case zoo_create k (d nm) (Some ''0'') False z of (rc, _, z) \<Rightarrow> (ok \<and> rc = ZOK, z))
       [NODE_ZNODE, MODULE_ZNODE, LOCK_ZNODE, CLIENT_ZNODE, EVENT_ZNODE] (True, z)"

text \<open>What \<open>connect\<close> does with the tree: an error code, or 0.\<close>

definition connect_tree :: "'z zk \<Rightarrow> string \<Rightarrow> bool \<Rightarrow> 'z \<Rightarrow> (zk_rc \<times> 'z) res" where
  "connect_tree k nm reset z =
     (let z = (if reset then
                 (case foreach_node k (NODE_ZNODE nm) z of
                    (_, ps, z) \<Rightarrow> fold (\<lambda>p z. snd (zoo_delete k p z)) ps z) else z)
      in case zoo_create k nm (Some ''ICT'') False z of
           (rc, _, z) \<Rightarrow>
             if rc = ZOK then (case create_dirs k nm z of (ok, z) \<Rightarrow> if ok then Inr (ZOK, z) else Inl Assert_failed)
             else if rc = ZNODEEXISTS then Inr (ZOK, z) else Inr (rc, z))"

definition connect ::
    "'z zk \<Rightarrow> (string option \<Rightarrow> int \<Rightarrow> bool) \<Rightarrow> bool list \<Rightarrow> string \<Rightarrow> bool \<Rightarrow> 'w zk_engine \<Rightarrow> 'z \<Rightarrow>
     (bool \<times> 'w zk_engine \<times> 'z) res option" where
  "connect k init polls opt reset e z =
     (case connect_option opt of
        (hosts, t) \<Rightarrow>
          (case scan_timeout t of
             None \<Rightarrow> Some (Inr (False, e, z))
           | Some timeout \<Rightarrow>
               if \<not> init hosts timeout then Some (Inr (False, e\<lparr>ze_up := False\<rparr>, z))
               else (case poll_state 0 (timeout div 100) polls of
                       None \<Rightarrow> None
                     | Some False \<Rightarrow> Some (Inr (False, e\<lparr>ze_up := True\<rparr>, z))
                     | Some True \<Rightarrow>
                         Some (bind_res (connect_tree k (ze_nm e) reset z) (\<lambda>(rc, z).
                           Inr (rc = ZOK, e\<lparr>ze_up := True\<rparr>, z))))))"

definition disconnect :: "'w zk_engine \<Rightarrow> int \<times> 'w zk_engine" where
  "disconnect e = (if ze_up e then (0, e\<lparr>ze_up := False\<rparr>) else (-1, e))"

section \<open>The distributed lock\<close>

text \<open>
  A lock of one process: the path of its node, and the inherited \<open>AsyncLock\<close>, whose queue holds
  closures that call \<open>acquire\<close> or \<open>zk_lock\<close> again for a callback.
\<close>

datatype 'c lk_cb = Reacquire 'c | Retry 'c

record 'c zlock =
  zl_path :: string
  zl_acquired :: bool
  zl_queue :: "'c lk_cb list"

definition Lock_new :: "'c zlock" where
  "Lock_new = \<lparr>zl_path = [], zl_acquired = False, zl_queue = []\<rparr>"

definition zone_path :: "string \<Rightarrow> string \<Rightarrow> string" where
  "zone_path nm zone = LOCK_ZNODE nm @ ''/'' @ zone"

definition lock_path :: "string \<Rightarrow> string \<Rightarrow> u64 \<Rightarrow> string" where
  "lock_path nm zone i = zone_path nm zone @ ''/'' @ nat_str (unat i)"

text \<open>The calls that create the directories of a lock and its own node.\<close>

definition make_znode :: "'z zk \<Rightarrow> string \<Rightarrow> 'z \<Rightarrow> 'z res" where
  "make_znode k path z =
     bind_res (into_buf path) (\<lambda>path.
     case zoo_create k path None False z of
       (rc, _, z) \<Rightarrow> if rc = ZOK \<or> rc = ZNODEEXISTS then Inr z else Inl Assert_failed)"

definition make_seq :: "'z zk \<Rightarrow> string \<Rightarrow> 'z \<Rightarrow> (string \<times> 'z) res" where
  "make_seq k dir z =
     bind_res (into_buf (dir @ ''/'')) (\<lambda>parent.
     case zoo_create k parent None True z of
       (rc, my_path, z) \<Rightarrow> if rc = ZOK then Inr (my_path, z) else Inl Assert_failed)"

text \<open>\<open>get_least_seq\<close>: the node with the least number, and a watch on it.\<close>

fun least_seq :: "int \<Rightarrow> string list \<Rightarrow> int res" where
  "least_seq m [] = Inr m"
| "least_seq m (p # ps) =
     bind_res (stoul (last_part p)) (\<lambda>n.
     let seq = sint (ucast n :: u32) in least_seq (if seq < m then seq else m) ps)"

definition least_path :: "'z zk \<Rightarrow> string \<Rightarrow> 'z \<Rightarrow> (string \<times> 'z) res" where
  "least_path k parent z =
     (case foreach_node k parent z of
        (rc, ps, z) \<Rightarrow>
          bind_res (least_seq 2147483647 ps) (\<lambda>m.
          bind_res (into_buf (parent @ ''/'' @ fmt010d m)) (\<lambda>p. Inr (p, z))))"

definition get_least_seq :: "'z zk \<Rightarrow> string \<Rightarrow> 'z \<Rightarrow> (string \<times> zk_rc \<times> 'z) res" where
  "get_least_seq k parent z =
     bind_res (least_path k parent z) (\<lambda>(p, z). case zoo_exists k p z of (rc, z) \<Rightarrow> Inr (p, rc, z))"

text \<open>\<open>zk_lock\<close>: the callbacks it grants the lock to are in the result.\<close>

definition own_node :: "'z zk \<Rightarrow> string \<Rightarrow> string \<Rightarrow> u64 \<Rightarrow> string \<Rightarrow> 'z \<Rightarrow> (string \<times> 'z) res" where
  "own_node k nm zone i path z =
     (if path = [] then
        bind_res (make_znode k (zone_path nm zone) z) (\<lambda>z.
        bind_res (make_znode k (lock_path nm zone i) z) (\<lambda>z.
        make_seq k (lock_path nm zone i) z))
      else bind_res (into_buf (lock_path nm zone i)) (\<lambda>_. Inr (path, z)))"

definition zk_lock ::
    "'z zk \<Rightarrow> string \<Rightarrow> string \<Rightarrow> u64 \<Rightarrow> 'c \<Rightarrow> 'c zlock \<Rightarrow> 'z \<Rightarrow> ('c zlock \<times> 'c list \<times> 'z) res" where
  "zk_lock k nm zone i c l z =
     bind_res (own_node k nm zone i (zl_path l) z) (\<lambda>(path, z).
     bind_res (get_least_seq k (lock_path nm zone i) z) (\<lambda>(lowest, _, z).
     let l = l\<lparr>zl_path := path\<rparr> in
     if path = lowest then Inr (l, [c], z) else Inr (l\<lparr>zl_queue := Retry c # zl_queue l\<rparr>, [], z)))"

definition zl_acquire ::
    "'z zk \<Rightarrow> string \<Rightarrow> string \<Rightarrow> u64 \<Rightarrow> 'c \<Rightarrow> 'c zlock \<Rightarrow> 'z \<Rightarrow> ('c zlock \<times> 'c list \<times> 'z) res" where
  "zl_acquire k nm zone i c l z =
     (if zl_acquired l then Inr (l\<lparr>zl_queue := zl_queue l @ [Reacquire c]\<rparr>, [], z)
      else zk_lock k nm zone i c (l\<lparr>zl_acquired := True\<rparr>) z)"

text \<open>\<open>Lock::notify\<close>, and the end of \<open>AsyncLock::release\<close>: the closure in front is called.\<close>

definition run_front ::
    "'z zk \<Rightarrow> string \<Rightarrow> string \<Rightarrow> u64 \<Rightarrow> 'c zlock \<Rightarrow> 'z \<Rightarrow> ('c zlock \<times> 'c list \<times> 'z) res" where
  "run_front k nm zone i l z =
     (case zl_queue l of
        [] \<Rightarrow> Inr (l, [], z)
      | Retry c # q \<Rightarrow> zk_lock k nm zone i c (l\<lparr>zl_queue := q\<rparr>) z
      | Reacquire c # q \<Rightarrow> zl_acquire k nm zone i c (l\<lparr>zl_queue := q\<rparr>) z)"

type_synonym 'c lock_tab = "string \<Rightarrow> u64 \<rightharpoonup> 'c zlock"

definition set_lock :: "string \<Rightarrow> u64 \<Rightarrow> 'c zlock \<Rightarrow> 'c lock_tab \<Rightarrow> 'c lock_tab" where
  "set_lock zone i l tab = tab(zone := (tab zone)(i \<mapsto> l))"

definition zk_lock_op ::
    "'z zk \<Rightarrow> string \<Rightarrow> string \<Rightarrow> u64 \<Rightarrow> 'c \<Rightarrow> 'c lock_tab \<Rightarrow> 'z \<Rightarrow> ('c lock_tab \<times> 'c list \<times> 'z) res" where
  "zk_lock_op k nm zone i c tab z =
     bind_res (zl_acquire k nm zone i c (case tab zone i of None \<Rightarrow> Lock_new | Some l \<Rightarrow> l) z) (\<lambda>(l, gs, z).
     Inr (set_lock zone i l tab, gs, z))"

definition zk_unlock_op ::
    "'z zk \<Rightarrow> string \<Rightarrow> string \<Rightarrow> u64 \<Rightarrow> 'c lock_tab \<Rightarrow> 'z \<Rightarrow> ('c lock_tab \<times> 'c list \<times> 'z) res" where
  "zk_unlock_op k nm zone i tab z =
     (case tab zone i of
        None \<Rightarrow> Inl Assert_failed
      | Some l \<Rightarrow>
          (case zoo_delete k (zl_path l) z of
             (rc, z) \<Rightarrow>
               if rc \<noteq> ZOK then Inl Assert_failed
               else bind_res (run_front k nm zone i (l\<lparr>zl_path := [], zl_acquired := False\<rparr>) z) (\<lambda>(l, gs, z).
                    Inr (set_lock zone i l tab, gs, z))))"

definition wakeup_internal ::
    "'z zk \<Rightarrow> string \<Rightarrow> string \<Rightarrow> u64 \<Rightarrow> 'c lock_tab \<Rightarrow> 'z \<Rightarrow> ('c lock_tab \<times> 'c list \<times> 'z) res" where
  "wakeup_internal k nm zone i tab z =
     (case tab zone i of
        None \<Rightarrow> Inr (tab, [], z)
      | Some l \<Rightarrow> bind_res (run_front k nm zone i l z) (\<lambda>(l, gs, z). Inr (set_lock zone i l tab, gs, z)))"

section \<open>Watches and events\<close>

text \<open>
  The path of a deleted lock node: \<open>/zone/id/rest\<close> behind the name of the directory; and that of a
  node or a client.
\<close>

definition scan_lock :: "string \<Rightarrow> u64 option" where
  "scan_lock s =
     (case take_sign (skip_ws (tl s)) of
        (neg, r) \<Rightarrow>
          let ds = takeWhile is_digit r; v = of_nat (nat_of_digits ds) :: u64; t = drop (length ds) r in
          if ds \<noteq> [] \<and> take 1 t = ''/'' \<and> skip_ws (drop 1 t) \<noteq> [] then Some (if neg then - v else v) else None)"

definition lock_event :: "string \<Rightarrow> string \<Rightarrow> (string \<times> u64) option" where
  "lock_event nm path =
     (let n = length (LOCK_ZNODE nm); p = drop n path in
      if take n path = LOCK_ZNODE nm \<and> take 1 p = ''/'' then
        let zone = takeWhile (\<lambda>c. c \<noteq> CHR ''/'') (tl p); e = drop (length zone) (tl p) in
        if e = [] then None else map_option (Pair zone) (scan_lock e)
      else None)"

definition gone_event :: "string \<Rightarrow> string \<Rightarrow> u32 option" where
  "gone_event dir path =
     (let n = length dir; p = drop n path in
      if take n path = dir \<and> take 1 p = ''/'' then map_option of_int (scan_d10 (tl p)) else None)"

datatype ev_type = ZOO_CREATED_EVENT | ZOO_DELETED_EVENT | ZOO_CHANGED_EVENT | ZOO_CHILD_EVENT

definition on_event :: "string \<Rightarrow> 'w zk_engine \<Rightarrow> 'w zk_engine" where
  "on_event ev e = e\<lparr>ze_pool := pool_notify ev (ze_pool e)\<rparr>"

text \<open>
  \<open>zk_watcher\<close>.  \<open>strncpy\<close> copies the zone into an array that is not cleared: \<open>rest\<close> is what the array
  holds behind it, up to the next NUL.
\<close>

definition zk_watcher ::
    "'z zk \<Rightarrow> u32 \<times> u32 \<times> string \<times> u16 \<Rightarrow> string \<Rightarrow> ev_type \<Rightarrow> string \<Rightarrow> 'w zk_engine \<Rightarrow> 'c lock_tab \<Rightarrow> 'z \<Rightarrow>
     ('w zk_engine \<times> 'c lock_tab \<times> 'c list \<times> 'z) res" where
  "zk_watcher k junk rest type path e tab z =
     (case type of
        ZOO_CHILD_EVENT \<Rightarrow>
          if path = NODE_ZNODE (ze_nm e)
          then bind_res (zk_sync_all_nodes k junk e z) (\<lambda>(_, e, z). Inr (e, tab, [], z))
          else Inr (e, tab, [], z)
      | ZOO_DELETED_EVENT \<Rightarrow>
          (case lock_event (ze_nm e) path of
             Some (zone, i) \<Rightarrow>
               bind_res (wakeup_internal k (ze_nm e) (c_str (zone @ rest)) i tab z) (\<lambda>(tab, gs, z). Inr (e, tab, gs, z))
           | None \<Rightarrow>
               (case gone_event (NODE_ZNODE (ze_nm e)) path of
                  Some i \<Rightarrow> Inr (e\<lparr>ze_mgr := delete_node (ZKID_TO_NODEID i) (ze_mgr e)\<rparr>, tab, [], z)
                | None \<Rightarrow>
                    (case gone_event (CLIENT_ZNODE (ze_nm e)) path of
                       Some i \<Rightarrow> Inr (e\<lparr>ze_mgr := delete_node (ZKID_TO_CLIENTID i) (ze_mgr e)\<rparr>, tab, [], z)
                     | None \<Rightarrow> Inl Assert_failed)))
      | ZOO_CHANGED_EVENT \<Rightarrow>
          let n = length (EVENT_ZNODE (ze_nm e)) in
          if take n path = EVENT_ZNODE (ze_nm e)
          then Inr (on_event (drop (n + 1) path) e, tab, [], snd (snd (zoo_get k path True z)))
          else Inr (e, tab, [], z)
      | ZOO_CREATED_EVENT \<Rightarrow> Inr (e, tab, [], z))"

text \<open>\<open>now\<close> is the text of the current time.\<close>

definition publish_event :: "'z zk \<Rightarrow> string \<Rightarrow> string \<Rightarrow> 'w zk_engine \<Rightarrow> 'z \<Rightarrow> ('w zk_engine \<times> 'z) res" where
  "publish_event k now ev e z =
     bind_res (into_buf (EVENT_ZNODE (ze_nm e) @ ''/'' @ ev)) (\<lambda>path.
     case zoo_create k path None False z of
       (rc, _, z) \<Rightarrow>
         Inr (on_event ev e, if rc = ZOK \<or> rc = ZNODEEXISTS then snd (zoo_set k path now z) else z))"

definition subscribe_event :: "'z zk \<Rightarrow> string \<Rightarrow> 'w task \<Rightarrow> 'w zk_engine \<Rightarrow> 'z \<Rightarrow> ('w zk_engine \<times> 'z) res" where
  "subscribe_event k ev h e z =
     (let e = e\<lparr>ze_pool := pool_add ev h (ze_pool e)\<rparr> in
      bind_res (into_buf (EVENT_ZNODE (ze_nm e) @ ''/'' @ ev)) (\<lambda>path. Inr (e, snd (zoo_exists k path z))))"

end
