(* ===== verification/Zk_Laws.thy ===== *)
theory Zk_Laws
  imports Zookeeper
begin

text \<open>
  What the engine relies on of ZooKeeper, as documented: the tree of nodes and the counters of sequence
  nodes, as long as the session is connected; and lemmas about paths and numbers in them.
\<close>

section \<open>Laws of the service\<close>

definition in_dir :: "string \<Rightarrow> string \<Rightarrow> bool" where
  "in_dir d p \<longleftrightarrow> (\<exists>n. p = d @ ''/'' @ n \<and> CHR ''/'' \<notin> set n)"

definition parent_of :: "string \<Rightarrow> string" where
  "parent_of p = take (length p - length (last_part p) - 1) p"

text \<open>A path begins with a slash and has no empty part.\<close>

definition valid_path :: "string \<Rightarrow> bool" where
  "valid_path p \<longleftrightarrow>
     take 1 p = ''/'' \<and> last_part p \<noteq> [] \<and> successively (\<lambda>a b. a \<noteq> CHR ''/'' \<or> b \<noteq> CHR ''/'') p"

definition create_law :: "'z zk \<Rightarrow> ('z \<Rightarrow> string \<rightharpoonup> string option) \<Rightarrow> bool" where
  "create_law k nodes \<longleftrightarrow> (\<forall>p d z rc q z'. zoo_create k p d False z = (rc, q, z') \<longrightarrow>
     (rc = ZOK \<longrightarrow> p \<notin> dom (nodes z) \<and> nodes z' = (nodes z)(p \<mapsto> d)) \<and>
     (rc \<noteq> ZOK \<longrightarrow> nodes z' = nodes z) \<and>
     (valid_path p \<longrightarrow> p \<in> dom (nodes z) \<longrightarrow> rc = ZNODEEXISTS) \<and>
     (valid_path p \<longrightarrow> p \<notin> dom (nodes z) \<longrightarrow> parent_of p \<in> dom (nodes z) \<longrightarrow> rc = ZOK))"

text \<open>The number of a sequence node is new and greater than the ones before, and printed with ten digits.\<close>

definition sequence_law :: "'z zk \<Rightarrow> ('z \<Rightarrow> string \<rightharpoonup> string option) \<Rightarrow> ('z \<Rightarrow> string \<Rightarrow> nat) \<Rightarrow> bool" where
  "sequence_law k nodes seq \<longleftrightarrow> (\<forall>p d z rc q z'. zoo_create k (p @ ''/'') d True z = (rc, q, z') \<longrightarrow>
     (rc = ZOK \<longrightarrow> q \<notin> dom (nodes z) \<and> nodes z' = (nodes z)(q \<mapsto> d) \<and>
        (\<exists>n. seq z p \<le> n \<and> n < seq z' p \<and> (n < 2 ^ 31 \<longrightarrow> q = p @ ''/'' @ fmt010d (int n)))) \<and>
     (rc \<noteq> ZOK \<longrightarrow> nodes z' = nodes z) \<and>
     (p \<notin> dom (nodes z) \<longrightarrow> rc \<noteq> ZOK) \<and>
     (valid_path p \<longrightarrow> p \<in> dom (nodes z) \<longrightarrow>
        (\<forall>n\<ge>seq z p. p @ ''/'' @ fmt010d (int n) \<notin> dom (nodes z)) \<longrightarrow> rc = ZOK))"

definition delete_law :: "'z zk \<Rightarrow> ('z \<Rightarrow> string \<rightharpoonup> string option) \<Rightarrow> bool" where
  "delete_law k nodes \<longleftrightarrow> (\<forall>p z rc z'. zoo_delete k p z = (rc, z') \<longrightarrow>
     (rc = ZOK \<longrightarrow> p \<in> dom (nodes z) \<and> nodes z' = (nodes z)(p := None)) \<and>
     (rc \<noteq> ZOK \<longrightarrow> nodes z' = nodes z) \<and>
     (p \<in> dom (nodes z) \<longrightarrow> (\<forall>q. in_dir p q \<longrightarrow> q \<notin> dom (nodes z)) \<longrightarrow> rc = ZOK))"

definition read_law :: "'z zk \<Rightarrow> ('z \<Rightarrow> string \<rightharpoonup> string option) \<Rightarrow> ('z \<Rightarrow> string \<Rightarrow> nat) \<Rightarrow> bool" where
  "read_law k nodes seq \<longleftrightarrow>
     (\<forall>p w z rc d z'. zoo_get k p w z = (rc, d, z') \<longrightarrow>
        nodes z' = nodes z \<and> seq z' = seq z \<and> (rc = ZOK \<longleftrightarrow> p \<in> dom (nodes z)) \<and>
        (rc = ZOK \<longrightarrow> nodes z p = Some d)) \<and>
     (\<forall>p z rc z'. zoo_exists k p z = (rc, z') \<longrightarrow>
        nodes z' = nodes z \<and> seq z' = seq z \<and> (rc = ZOK \<longleftrightarrow> p \<in> dom (nodes z))) \<and>
     (\<forall>p z rc cs z'. zoo_get_children k p z = (rc, cs, z') \<longrightarrow>
        nodes z' = nodes z \<and> seq z' = seq z \<and> (rc = ZOK \<longleftrightarrow> p \<in> dom (nodes z)) \<and>
        (rc = ZOK \<longrightarrow> distinct cs \<and> (\<forall>c. c \<in> set cs \<longleftrightarrow> CHR ''/'' \<notin> set c \<and> p @ ''/'' @ c \<in> dom (nodes z))))"

definition write_law :: "'z zk \<Rightarrow> ('z \<Rightarrow> string \<rightharpoonup> string option) \<Rightarrow> bool" where
  "write_law k nodes \<longleftrightarrow> (\<forall>p d z rc z'. zoo_set k p d z = (rc, z') \<longrightarrow>
     (rc = ZOK \<longleftrightarrow> p \<in> dom (nodes z)) \<and>
     nodes z' = (if rc = ZOK then (nodes z)(p \<mapsto> Some d) else nodes z))"

text \<open>A call takes no counter back, and advances it by one at most.\<close>

definition counter_law :: "'z zk \<Rightarrow> ('z \<Rightarrow> string \<Rightarrow> nat) \<Rightarrow> bool" where
  "counter_law k seq \<longleftrightarrow>
     (\<forall>p d s z x. seq (snd (snd (zoo_create k p d s z))) x \<in> {seq z x, seq z x + 1}) \<and>
     (\<forall>p z x. seq (snd (zoo_delete k p z)) x \<in> {seq z x, seq z x + 1}) \<and>
     (\<forall>p d z x. seq (snd (zoo_set k p d z)) x \<in> {seq z x, seq z x + 1})"

definition zk_ok :: "'z zk \<Rightarrow> ('z \<Rightarrow> string \<rightharpoonup> string option) \<Rightarrow> ('z \<Rightarrow> string \<Rightarrow> nat) \<Rightarrow> bool" where
  "zk_ok k nodes seq \<longleftrightarrow>
     create_law k nodes \<and> sequence_law k nodes seq \<and> delete_law k nodes \<and> read_law k nodes seq \<and>
     write_law k nodes \<and> counter_law k seq"

section \<open>Numbers in paths\<close>

lemma length_nat_str: "n < 10 ^ Suc k \<Longrightarrow> length (nat_str n) \<le> Suc k"
proof (induction k arbitrary: n)
  case 0
  then show ?case by (simp add: nat_str.simps)
next
  case (Suc k)
  show ?case
  proof (cases "n < 10")
    case True
    then show ?thesis by (simp add: nat_str.simps)
  next
    case False
    have "n div 10 < 10 ^ Suc k" using Suc.prems by (simp add: less_mult_imp_div_less)
    then show ?thesis using Suc.IH [of "n div 10"] False by (subst nat_str.simps) simp
  qed
qed

lemma digits_zeros: "nat_of_digits (replicate m CHR ''0'' @ s) = nat_of_digits s"
  by (induction m) (simp_all add: nat_of_digits_def digit_val_def)

lemma fmt_nat: "fmt010d (int n) = replicate (10 - length (nat_str n)) CHR ''0'' @ nat_str n"
  by (simp add: fmt010d_def Let_def)

lemma zero_digit [simp]: "is_digit CHR ''0''" by (simp add: is_digit_def)

lemma fmt_digits: "c \<in> set (fmt010d (int n)) \<Longrightarrow> is_digit c"
  using nat_str_digits by (auto simp: fmt_nat)

lemma fmt_all [simp]: "takeWhile is_digit (fmt010d (int n)) = fmt010d (int n)"
  using fmt_digits by (simp add: takeWhile_eq_all_conv)

lemma fmt_value [simp]: "nat_of_digits (fmt010d (int n)) = n"
  unfolding fmt_nat digits_zeros by simp

lemma fmt_inj: "fmt010d (int m) = fmt010d (int n) \<longleftrightarrow> m = n"
  by (metis fmt_value)

lemma fmt_length: "n < 2 ^ 31 \<Longrightarrow> length (fmt010d (int n)) = 10"
  using length_nat_str [of n 9] by (simp add: fmt_nat)

lemma fmt_nonempty [simp]: "fmt010d (int n) \<noteq> []"
  by (simp add: fmt_nat)

lemma no_slash_digit: "\<not> is_digit CHR ''/''" by (simp add: is_digit_def)

lemma fmt_no_slash [simp]: "CHR ''/'' \<notin> set (fmt010d (int n))"
  using fmt_digits [of "CHR ''/''"] no_slash_digit by blast

lemma fmt_start: "skip_ws (fmt010d (int n)) = fmt010d (int n) \<and> take_sign (fmt010d (int n)) = (False, fmt010d (int n))"
proof (cases "fmt010d (int n)")
  case (Cons c r)
  have "is_digit c" using fmt_digits [of c n] Cons by simp
  then show ?thesis using digit_not_space [of c] unfolding Cons by (auto simp: skip_ws_def take_sign_def is_digit_def)
qed simp

lemma stoul_fmt: "n < 2 ^ 64 \<Longrightarrow> stoul (fmt010d (int n)) = Inr (of_nat n)"
  using fmt_start [of n] by (simp add: stoul_def Let_def)

lemma scan_fmt: "n < 2 ^ 31 \<Longrightarrow> scan_d10 (fmt010d (int n)) = Some (int n)"
  using fmt_start [of n] fmt_length [of n] by (simp add: scan_d10_def Let_def)

lemma last_part_append [simp]: "CHR ''/'' \<notin> set s \<Longrightarrow> last_part (p @ CHR ''/'' # s) = s"
  by (simp add: last_part_def takeWhile_append2 takeWhile_append)

lemma parent_append [simp]: "CHR ''/'' \<notin> set s \<Longrightarrow> parent_of (p @ CHR ''/'' # s) = p"
  by (simp add: parent_of_def)

lemma in_dir_iff [simp]: "in_dir d (d @ CHR ''/'' # n) \<longleftrightarrow> CHR ''/'' \<notin> set n"
  by (auto simp: in_dir_def)

section \<open>A tree in memory\<close>

text \<open>
  A service that satisfies the laws: an association list of the nodes, and one counter for all
  sequence nodes.
\<close>

type_synonym mem = "(string \<times> string option) list \<times> nat"

definition mem_nodes :: "mem \<Rightarrow> string \<rightharpoonup> string option" where
  "mem_nodes z = map_of (fst z)"

definition mem_seq :: "mem \<Rightarrow> string \<Rightarrow> nat" where
  "mem_seq z p = snd z"

definition mem_children :: "mem \<Rightarrow> string \<Rightarrow> string list" where
  "mem_children z p =
     remdups (map last_part (filter (\<lambda>q. CHR ''/'' \<in> set q \<and> parent_of q = p) (map fst (fst z))))"

definition mem_create :: "string \<Rightarrow> string option \<Rightarrow> bool \<Rightarrow> mem \<Rightarrow> zk_rc \<times> string \<times> mem" where
  "mem_create p d s z =
     (let q = (if s then p @ fmt010d (int (snd z)) else p) in
      if mem_nodes z q \<noteq> None then (ZNODEEXISTS, [], z)
      else if mem_nodes z (parent_of q) = None then (ZNONODE, [], z)
      else (ZOK, q, ((q, d) # fst z, if s then snd z + 1 else snd z)))"

definition mem_delete :: "string \<Rightarrow> mem \<Rightarrow> zk_rc \<times> mem" where
  "mem_delete p z =
     (if mem_nodes z p = None then (ZNONODE, z)
      else if mem_children z p \<noteq> [] then (ZERROR, z)
      else (ZOK, (filter (\<lambda>(q, _). q \<noteq> p) (fst z), snd z)))"

definition mem_zk :: "mem zk" where
  "mem_zk =
     \<lparr>zoo_create = mem_create, zoo_delete = mem_delete,
      zoo_get = (\<lambda>p w z. case mem_nodes z p of None \<Rightarrow> (ZNONODE, None, z) | Some d \<Rightarrow> (ZOK, d, z)),
      zoo_set = (\<lambda>p d z. if mem_nodes z p = None then (ZNONODE, z) else (ZOK, ((p, Some d) # fst z, snd z))),
      zoo_get_children = (\<lambda>p z. if mem_nodes z p = None then (ZNONODE, [], z) else (ZOK, mem_children z p, z)),
      zoo_exists = (\<lambda>p z. (if mem_nodes z p = None then ZNONODE else ZOK, z))\<rparr>"

lemma split_last: "CHR ''/'' \<in> set q \<Longrightarrow> parent_of q @ CHR ''/'' # last_part q = q \<and> CHR ''/'' \<notin> set (last_part q)"
proof -
  assume "CHR ''/'' \<in> set q"
  then obtain a b where "q = a @ CHR ''/'' # b" "CHR ''/'' \<notin> set b" by (metis split_list_last)
  then show ?thesis by simp
qed

lemma mem_children_iff:
  "c \<in> set (mem_children z p) \<longleftrightarrow> CHR ''/'' \<notin> set c \<and> p @ CHR ''/'' # c \<in> dom (mem_nodes z)"
proof
  assume "c \<in> set (mem_children z p)"
  then obtain q where "q \<in> dom (mem_nodes z)" "CHR ''/'' \<in> set q" "parent_of q = p" "c = last_part q"
    by (auto simp: mem_children_def mem_nodes_def dom_map_of_conv_image_fst)
  then show "CHR ''/'' \<notin> set c \<and> p @ CHR ''/'' # c \<in> dom (mem_nodes z)" using split_last [of q] by simp
next
  assume a: "CHR ''/'' \<notin> set c \<and> p @ CHR ''/'' # c \<in> dom (mem_nodes z)"
  let ?q = "p @ CHR ''/'' # c"
  have "?q \<in> set (map fst (fst z))" using a by (simp add: mem_nodes_def dom_map_of_conv_image_fst)
  then have "?q \<in> set (filter (\<lambda>q. CHR ''/'' \<in> set q \<and> parent_of q = p) (map fst (fst z)))" using a by simp
  then have "last_part ?q \<in> set (mem_children z p)" unfolding mem_children_def set_remdups set_map by (rule imageI)
  then show "c \<in> set (mem_children z p)" using a by simp
qed

lemma mem_distinct: "distinct (mem_children z p)"
  by (simp add: mem_children_def)

lemma mem_delete_nodes: "map_of (filter (\<lambda>(q, _). q \<noteq> p) xs) = (map_of xs)(p := None)"
  by (induction xs) (auto simp: fun_eq_iff)

lemma mem_create_seq:
  "mem_create (p @ ''/'') d True z =
     (if mem_nodes z (p @ CHR ''/'' # fmt010d (int (snd z))) \<noteq> None then (ZNODEEXISTS, [], z)
      else if mem_nodes z p = None then (ZNONODE, [], z)
      else (ZOK, p @ CHR ''/'' # fmt010d (int (snd z)), ((p @ CHR ''/'' # fmt010d (int (snd z)), d) # fst z, snd z + 1)))"
proof -
  have "parent_of (p @ CHR ''/'' # fmt010d (int (snd z))) = p" by simp
  then show ?thesis by (simp only: mem_create_def Let_def if_True append_assoc append_Cons append_Nil)
qed

lemma mem_sequence: "sequence_law mem_zk mem_nodes mem_seq"
  unfolding sequence_law_def
proof (intro allI impI)
  fix p d z rc q z'
  assume c: "zoo_create mem_zk (p @ ''/'') d True z = (rc, q, z')"
  let ?q = "p @ CHR ''/'' # fmt010d (int (snd z))"
  consider "mem_nodes z ?q \<noteq> None" "rc = ZNODEEXISTS" "z' = z" | "mem_nodes z p = None" "rc = ZNONODE" "z' = z"
    | "mem_nodes z ?q = None" "p \<in> dom (mem_nodes z)" "rc = ZOK" "q = ?q" "z' = ((?q, d) # fst z, snd z + 1)"
  proof -
    have e: "(rc, q, z') = (if mem_nodes z ?q \<noteq> None then (ZNODEEXISTS, [], z)
      else if mem_nodes z p = None then (ZNONODE, [], z) else (ZOK, ?q, ((?q, d) # fst z, snd z + 1)))"
      using c unfolding mem_zk_def by (simp only: zk.simps mem_create_seq)
    show ?thesis
    proof (cases "mem_nodes z ?q = None")
      case True
      with e that(2,3) show ?thesis by (cases "mem_nodes z p") (simp_all add: domI)
    next
      case False
      with e that(1) show ?thesis by simp
    qed
  qed
  then show "(rc = ZOK \<longrightarrow> q \<notin> dom (mem_nodes z) \<and> mem_nodes z' = (mem_nodes z)(q \<mapsto> d) \<and>
        (\<exists>n. mem_seq z p \<le> n \<and> n < mem_seq z' p \<and> (n < 2 ^ 31 \<longrightarrow> q = p @ ''/'' @ fmt010d (int n)))) \<and>
     (rc \<noteq> ZOK \<longrightarrow> mem_nodes z' = mem_nodes z) \<and>
     (p \<notin> dom (mem_nodes z) \<longrightarrow> rc \<noteq> ZOK) \<and>
     (valid_path p \<longrightarrow> p \<in> dom (mem_nodes z) \<longrightarrow>
        (\<forall>n\<ge>mem_seq z p. p @ ''/'' @ fmt010d (int n) \<notin> dom (mem_nodes z)) \<longrightarrow> rc = ZOK)"
  proof cases
    case 1
    then show ?thesis by (auto simp: mem_seq_def)
  next
    case 2
    then show ?thesis by auto
  next
    case 3
    have "mem_seq z p \<le> snd z \<and> snd z < mem_seq z' p" using 3 by (simp add: mem_seq_def)
    then show ?thesis using 3 by (auto simp: mem_nodes_def fun_eq_iff)
  qed
qed

lemma mem_zk_ok: "zk_ok mem_zk mem_nodes mem_seq"
proof -
  have "create_law mem_zk mem_nodes"
    by (auto simp: create_law_def mem_zk_def mem_create_def mem_nodes_def Let_def split: if_splits)
  moreover have "sequence_law mem_zk mem_nodes mem_seq"
    by (rule mem_sequence)
  moreover have "delete_law mem_zk mem_nodes"
  proof -
    have "mem_children z p = [] \<longleftrightarrow> (\<forall>q. in_dir p q \<longrightarrow> q \<notin> dom (mem_nodes z))" for z p
    proof -
      have "mem_children z p = [] \<longleftrightarrow> (\<forall>c. c \<notin> set (mem_children z p))" by (cases "mem_children z p") auto
      then show ?thesis unfolding mem_children_iff by (simp only: in_dir_def append_Cons append_Nil) blast
    qed
    then show ?thesis
      by (auto simp: delete_law_def mem_zk_def mem_delete_def mem_nodes_def mem_delete_nodes split: if_splits)
  qed
  moreover have "read_law mem_zk mem_nodes mem_seq"
    using mem_children_iff
    by (auto simp: read_law_def mem_zk_def mem_distinct split: option.splits if_splits)
  moreover have "write_law mem_zk mem_nodes"
    by (auto simp: write_law_def mem_zk_def mem_nodes_def split: if_splits)
  moreover have "counter_law mem_zk mem_seq"
    by (auto simp: counter_law_def mem_zk_def mem_create_def mem_delete_def mem_seq_def Let_def)
  ultimately show ?thesis by (simp add: zk_ok_def)
qed

end
