(* ===== verification/Zk_Lock.thy ===== *)
theory Zk_Lock
  imports Zk_Laws
begin

text \<open>
  The distributed lock of \<open>src/zookeeper.cpp\<close> as steps of any number of processes: every call of the
  ZooKeeper library is one step, and the calls of different processes interleave.
\<close>

section \<open>Processes\<close>

text \<open>
  Where a process is in \<open>zk_lock\<close>.  A process that waits knows the node it watches, and whether the node
  was there when it set the watch.
\<close>

datatype lk_pc = L_idle | L_zone | L_id | L_seq | L_list | L_exists string | L_wait string bool | L_held

record lk_client =
  lk_path :: string
  lk_at :: lk_pc

definition lk_begin :: "lk_client \<Rightarrow> lk_client option" where
  "lk_begin c = (if lk_at c = L_idle then Some (c\<lparr>lk_at := if lk_path c = [] then L_zone else L_list\<rparr>) else None)"

definition lk_exec ::
    "'z zk \<Rightarrow> string \<Rightarrow> string \<Rightarrow> u64 \<Rightarrow> lk_client \<Rightarrow> 'z \<Rightarrow> (lk_client \<times> 'z) res option" where
  "lk_exec k nm zone i c z =
     (case lk_at c of
        L_zone \<Rightarrow> Some (bind_res (make_znode k (zone_path nm zone) z) (\<lambda>z. Inr (c\<lparr>lk_at := L_id\<rparr>, z)))
      | L_id \<Rightarrow> Some (bind_res (make_znode k (lock_path nm zone i) z) (\<lambda>z. Inr (c\<lparr>lk_at := L_seq\<rparr>, z)))
      | L_seq \<Rightarrow>
          Some (bind_res (make_seq k (lock_path nm zone i) z) (\<lambda>(p, z). Inr (\<lparr>lk_path = p, lk_at = L_list\<rparr>, z)))
      | L_list \<Rightarrow>
          Some (bind_res (least_path k (lock_path nm zone i) z) (\<lambda>(p, z). Inr (c\<lparr>lk_at := L_exists p\<rparr>, z)))
      | L_exists p \<Rightarrow>
          (case zoo_exists k p z of
             (rc, z) \<Rightarrow> Some (Inr (c\<lparr>lk_at := if lk_path c = p then L_held else L_wait p (rc = ZOK)\<rparr>, z)))
      | _ \<Rightarrow> None)"

definition lk_unlock :: "'z zk \<Rightarrow> lk_client \<Rightarrow> 'z \<Rightarrow> (lk_client \<times> 'z) res option" where
  "lk_unlock k c z =
     (if lk_at c \<noteq> L_held then None
      else Some (case zoo_delete k (lk_path c) z of
                   (rc, z) \<Rightarrow> if rc \<noteq> ZOK then Inl Assert_failed else Inr (\<lparr>lk_path = [], lk_at = L_idle\<rparr>, z)))"

text \<open>The event of a watch on a node that was there comes after the node has been deleted.\<close>

definition lk_wake :: "('z \<Rightarrow> string \<rightharpoonup> string option) \<Rightarrow> lk_client \<Rightarrow> 'z \<Rightarrow> lk_client option" where
  "lk_wake nodes c z =
     (case lk_at c of
        L_wait p True \<Rightarrow> if nodes z p = None then Some (c\<lparr>lk_at := L_list\<rparr>) else None
      | _ \<Rightarrow> None)"

record 'z lk_sys =
  ls_z :: 'z
  ls_cl :: "nat \<Rightarrow> lk_client"

text \<open>
  The steps of the processes, and of others that leave the directory of the lock alone; a process whose
  step fails has ended.
\<close>

inductive lk_step ::
    "'z zk \<Rightarrow> ('z \<Rightarrow> string \<rightharpoonup> string option) \<Rightarrow> ('z \<Rightarrow> string \<Rightarrow> nat) \<Rightarrow> string \<Rightarrow> string \<Rightarrow> u64 \<Rightarrow>
     'z lk_sys \<Rightarrow> 'z lk_sys \<Rightarrow> bool"
  for k nodes seq nm zone i where
  lk_start: "lk_begin (ls_cl s c) = Some l \<Longrightarrow> lk_step k nodes seq nm zone i s (s\<lparr>ls_cl := (ls_cl s)(c := l)\<rparr>)"
| lk_call: "lk_exec k nm zone i (ls_cl s c) (ls_z s) = Some (Inr (l, z)) \<Longrightarrow>
    lk_step k nodes seq nm zone i s \<lparr>ls_z = z, ls_cl = (ls_cl s)(c := l)\<rparr>"
| lk_free: "lk_unlock k (ls_cl s c) (ls_z s) = Some (Inr (l, z)) \<Longrightarrow>
    lk_step k nodes seq nm zone i s \<lparr>ls_z = z, ls_cl = (ls_cl s)(c := l)\<rparr>"
| lk_event: "lk_wake nodes (ls_cl s c) (ls_z s) = Some l \<Longrightarrow>
    lk_step k nodes seq nm zone i s (s\<lparr>ls_cl := (ls_cl s)(c := l)\<rparr>)"
| lk_other: "(\<And>p. in_dir (lock_path nm zone i) p \<Longrightarrow> nodes z p = nodes (ls_z s) p) \<Longrightarrow>
    seq (ls_z s) (lock_path nm zone i) \<le> seq z (lock_path nm zone i) \<Longrightarrow>
    lk_step k nodes seq nm zone i s (s\<lparr>ls_z := z\<rparr>)"

definition lk_init :: "'z \<Rightarrow> 'z lk_sys" where
  "lk_init z = \<lparr>ls_z = z, ls_cl = (\<lambda>_. \<lparr>lk_path = [], lk_at = L_idle\<rparr>)\<rparr>"

text \<open>\<open>zk_lock\<close> without interruption is a sequence of these steps.\<close>

lemma lk_calls:
  assumes "lk_exec k nm zone i l z = Some (Inr (l', z'))" "ls_z s = z" "ls_cl s c = l"
  shows "lk_step k nodes seq nm zone i s \<lparr>ls_z = z', ls_cl = (ls_cl s)(c := l')\<rparr>"
  using assms by (intro lk_call) simp

lemma own_node_steps:
  assumes "own_node k nm zone i [] z = Inr (path, z')"
    and s: "ls_z s = z" "ls_cl s c = \<lparr>lk_path = [], lk_at = L_zone\<rparr>"
  shows "(lk_step k nodes seq nm zone i)\<^sup>*\<^sup>* s
    \<lparr>ls_z = z', ls_cl = (ls_cl s)(c := \<lparr>lk_path = path, lk_at = L_list\<rparr>)\<rparr>"
proof -
  obtain z1 z2 where z1: "make_znode k (zone_path nm zone) z = Inr z1"
    and z2: "make_znode k (lock_path nm zone i) z1 = Inr z2"
    and z3: "make_seq k (lock_path nm zone i) z2 = Inr (path, z')"
    using assms(1) by (auto simp: own_node_def bind_res_Inr_iff)
  let ?st = "lk_step k nodes seq nm zone i"
  let ?s1 = "\<lparr>ls_z = z1, ls_cl = (ls_cl s)(c := \<lparr>lk_path = [], lk_at = L_id\<rparr>)\<rparr>"
  let ?s2 = "\<lparr>ls_z = z2, ls_cl = (ls_cl s)(c := \<lparr>lk_path = [], lk_at = L_seq\<rparr>)\<rparr>"
  let ?s3 = "\<lparr>ls_z = z', ls_cl = (ls_cl s)(c := \<lparr>lk_path = path, lk_at = L_list\<rparr>)\<rparr>"
  have "?st s ?s1"
    using lk_calls [of k nm zone i "\<lparr>lk_path = [], lk_at = L_zone\<rparr>" z "\<lparr>lk_path = [], lk_at = L_id\<rparr>" z1 s c] s z1 by (simp add: lk_exec_def)
  moreover have "?st ?s1 ?s2"
    using lk_calls [of k nm zone i "\<lparr>lk_path = [], lk_at = L_id\<rparr>" z1 "\<lparr>lk_path = [], lk_at = L_seq\<rparr>" z2 ?s1 c] z2
    by (simp add: lk_exec_def)
  moreover have "?st ?s2 ?s3"
    using lk_calls [of k nm zone i "\<lparr>lk_path = [], lk_at = L_seq\<rparr>" z2 "\<lparr>lk_path = path, lk_at = L_list\<rparr>" z' ?s2 c] z3
    by (simp add: lk_exec_def)
  ultimately show ?thesis by (meson converse_rtranclp_into_rtranclp rtranclp.rtrancl_refl)
qed

lemma zk_lock_steps:
  assumes "zk_lock k nm zone i cb lk z = Inr (lk', gs, z')" "zl_path lk = []"
    and s: "ls_z s = z" "ls_cl s c = \<lparr>lk_path = [], lk_at = L_zone\<rparr>"
  shows "\<exists>pc. (lk_step k nodes seq nm zone i)\<^sup>*\<^sup>* s
      \<lparr>ls_z = z', ls_cl = (ls_cl s)(c := \<lparr>lk_path = zl_path lk', lk_at = pc\<rparr>)\<rparr> \<and>
    (if gs = [] then (\<exists>p b. pc = L_wait p b) else gs = [cb] \<and> pc = L_held)"
proof -
  obtain path z1 p z2 rc where o: "own_node k nm zone i [] z = Inr (path, z1)"
    and l: "least_path k (lock_path nm zone i) z1 = Inr (p, z2)" and x: "zoo_exists k p z2 = (rc, z')"
    and r: "zl_path lk' = path" "gs = (if path = p then [cb] else [])"
    using assms(1,2) by (auto simp: zk_lock_def get_least_seq_def bind_res_Inr_iff Let_def split: prod.splits if_splits)
  let ?st = "lk_step k nodes seq nm zone i"
  let ?s1 = "\<lparr>ls_z = z1, ls_cl = (ls_cl s)(c := \<lparr>lk_path = path, lk_at = L_list\<rparr>)\<rparr>"
  let ?s2 = "\<lparr>ls_z = z2, ls_cl = (ls_cl s)(c := \<lparr>lk_path = path, lk_at = L_exists p\<rparr>)\<rparr>"
  let ?pc = "if path = p then L_held else L_wait p (rc = ZOK)"
  let ?s3 = "\<lparr>ls_z = z', ls_cl = (ls_cl s)(c := \<lparr>lk_path = path, lk_at = ?pc\<rparr>)\<rparr>"
  have "?st\<^sup>*\<^sup>* s ?s1" using own_node_steps [OF o s] .
  moreover have "?st ?s1 ?s2"
    using lk_calls [of k nm zone i "\<lparr>lk_path = path, lk_at = L_list\<rparr>" z1 "\<lparr>lk_path = path, lk_at = L_exists p\<rparr>" z2 ?s1 c] l
    by (simp add: lk_exec_def)
  moreover have "?st ?s2 ?s3"
    using lk_calls [of k nm zone i "\<lparr>lk_path = path, lk_at = L_exists p\<rparr>" z2 "\<lparr>lk_path = path, lk_at = ?pc\<rparr>" z' ?s2 c] x
    by (simp add: lk_exec_def)
  ultimately have "?st\<^sup>*\<^sup>* s ?s3" by (meson rtranclp.rtrancl_into_rtrancl)
  then show ?thesis using r by (intro exI [of _ ?pc]) (auto split: if_splits)
qed

section \<open>One holder\<close>

definition znode :: "string \<Rightarrow> nat \<Rightarrow> string" where
  "znode dir n = dir @ CHR ''/'' # fmt010d (int n)"

lemma znode_inj [simp]: "znode dir m = znode dir n \<longleftrightarrow> m = n"
  by (simp add: znode_def fmt_inj)

lemma znode_in_dir [simp]: "in_dir dir (znode dir n)"
  by (simp add: znode_def)

lemma znode_nonempty [simp]: "znode dir n \<noteq> []"
  by (simp add: znode_def)

text \<open>The least number is not greater than any of the children.\<close>

lemma least_seq_le:
  "least_seq m ps = Inr r \<Longrightarrow> r \<le> m \<and> (\<forall>p\<in>set ps. \<exists>x. stoul (last_part p) = Inr x \<and> r \<le> sint (ucast x :: u32))"
proof (induction m ps rule: least_seq.induct)
  case (2 m p ps)
  obtain x where x: "stoul (last_part p) = Inr x" using 2(2) by (auto simp: bind_res_Inr_iff)
  let ?q = "sint (ucast x :: u32)"
  have "least_seq (if ?q < m then ?q else m) ps = Inr r" using 2(2) x by (simp add: Let_def)
  then show ?case using 2(1) [of ?q x] x by (auto split: if_splits)
qed simp

lemma sint_small: "n < 2 ^ 31 \<Longrightarrow> sint (ucast (of_nat n :: u64) :: u32) = int n"
  by (simp add: sint_uint unsigned_of_nat signed_take_bit_int_eq_self take_bit_nat_eq_self
      unsigned_ucast_eq take_bit_int_eq_self)

lemma fmt_sign: "fmt010d m = fmt010d (int n) \<longleftrightarrow> m = int n"
proof
  assume e: "fmt010d m = fmt010d (int n)"
  have "0 \<le> m"
  proof (rule ccontr)
    assume "\<not> 0 \<le> m"
    then have "CHR ''-'' \<in> set (fmt010d m)" by (simp add: fmt010d_def Let_def)
    then have "is_digit CHR ''-''" using fmt_digits [of "CHR ''-''" n] unfolding e by blast
    then show False by (simp add: is_digit_def)
  qed
  then obtain k where "m = int k" using nonneg_int_cases by blast
  then show "m = int n" using e fmt_inj by simp
qed simp

definition children_are :: "('z \<Rightarrow> string \<rightharpoonup> string option) \<Rightarrow> string \<Rightarrow> nat set \<Rightarrow> 'z \<Rightarrow> bool" where
  "children_are nodes dir S z \<longleftrightarrow> (\<forall>p. in_dir dir p \<and> p \<in> dom (nodes z) \<longleftrightarrow> p \<in> znode dir ` S)"

lemma children_names:
  assumes "zk_ok k nodes seq" "children_are nodes dir S z" "zoo_get_children k dir z = (ZOK, cs, z')"
  shows "set cs = (\<lambda>n. fmt010d (int n)) ` S \<and> nodes z' = nodes z \<and> seq z' = seq z"
proof -
  have law: "nodes z' = nodes z \<and> seq z' = seq z"
    "c \<in> set cs \<longleftrightarrow> CHR ''/'' \<notin> set c \<and> dir @ ''/'' @ c \<in> dom (nodes z)" for c
    using assms(1,3) unfolding zk_ok_def read_law_def by blast+
  have "c \<in> set cs \<longleftrightarrow> c \<in> (\<lambda>n. fmt010d (int n)) ` S" for c
  proof -
    have "c \<in> set cs \<longleftrightarrow> in_dir dir (dir @ CHR ''/'' # c) \<and> dir @ CHR ''/'' # c \<in> dom (nodes z)"
      using law(2) [of c] by simp
    also have "\<dots> \<longleftrightarrow> dir @ CHR ''/'' # c \<in> znode dir ` S" using assms(2) unfolding children_are_def by blast
    finally show ?thesis by (auto simp: znode_def image_iff)
  qed
  then show ?thesis using law(1) by blast
qed

lemma least_path_min:
  assumes ok: "zk_ok k nodes seq" and S: "children_are nodes dir S z" "S \<subseteq> {..<2 ^ 31 - 1}"
    and l: "least_path k dir z = Inr (znode dir n, z')" and n: "n < 2 ^ 31 - 1"
  shows "\<forall>m\<in>S. n \<le> m"
proof
  fix j assume j: "j \<in> S"
  obtain rc cs z1 where c: "zoo_get_children k dir z = (rc, cs, z1)" by (cases "zoo_get_children k dir z") auto
  let ?ps = "if rc = ZOK then FOR_EACH_ZNODE dir cs else []"
  obtain m where m: "least_seq 2147483647 ?ps = Inr m" and b: "into_buf (dir @ ''/'' @ fmt010d m) = Inr (znode dir n)"
    using l c by (auto simp: least_path_def foreach_node_def bind_res_Inr_iff)
  have mn: "m = int n" and len: "length (znode dir n) < 1024"
    using b by (auto simp: into_buf_def znode_def MAX_NODE_STR_LEN_def fmt_sign split: if_splits)
  have rc: "rc = ZOK" using m mn n by (auto split: if_splits)
  have "fmt010d (int j) \<in> set cs" using children_names [OF ok S(1)] c rc j by blast
  moreover have j31: "j < 2 ^ 31" using j S(2) by auto
  then have "length (znode dir j) < 1024"
    using len fmt_length [of j] fmt_length [of n] n by (simp add: znode_def)
  ultimately have "znode dir j \<in> set ?ps"
    using rc by (force simp: FOR_EACH_ZNODE_def MAX_NODE_STR_LEN_def znode_def image_iff)
  moreover have "stoul (last_part (znode dir j)) = Inr (of_nat j)"
    using j31 stoul_fmt [of j] by (simp add: znode_def)
  ultimately show "n \<le> j" using least_seq_le [OF m] sint_small [OF j31] mn by force
qed

text \<open>
  The invariant, for the numbers \<open>S\<close> of the nodes and the numbers \<open>f\<close> of the processes: a process that
  holds the lock, or is about to, has the least number of all.
\<close>

fun client_ok :: "string \<Rightarrow> nat set \<Rightarrow> nat option \<Rightarrow> lk_client \<Rightarrow> bool" where
  "client_ok dir S None l \<longleftrightarrow> lk_path l = [] \<and> lk_at l \<in> {L_idle, L_zone, L_id, L_seq}"
| "client_ok dir S (Some n) l \<longleftrightarrow>
     n \<in> S \<and> lk_path l = znode dir n \<and>
     (case lk_at l of
        L_list \<Rightarrow> True
      | L_exists p \<Rightarrow> p = znode dir n \<longrightarrow> (\<forall>m\<in>S. n \<le> m)
      | L_wait _ _ \<Rightarrow> True
      | L_held \<Rightarrow> (\<forall>m\<in>S. n \<le> m)
      | _ \<Rightarrow> False)"

definition lk_good ::
    "('z \<Rightarrow> string \<rightharpoonup> string option) \<Rightarrow> ('z \<Rightarrow> string \<Rightarrow> nat) \<Rightarrow> string \<Rightarrow> nat set \<Rightarrow> (nat \<rightharpoonup> nat) \<Rightarrow> 'z lk_sys \<Rightarrow> bool" where
  "lk_good nodes seq dir S f s \<longleftrightarrow>
     children_are nodes dir S (ls_z s) \<and> S \<subseteq> {..<seq (ls_z s) dir} \<and> inj_on f (dom f) \<and>
     (\<forall>c. client_ok dir S (f c) (ls_cl s c))"

lemma lk_goodD:
  assumes "lk_good nodes seq dir S f s"
  shows "children_are nodes dir S (ls_z s)" "S \<subseteq> {..<seq (ls_z s) dir}" "inj_on f (dom f)" "client_ok dir S (f c) (ls_cl s c)"
  using assms by (auto simp: lk_good_def)

lemma good_same:
  assumes "lk_good nodes seq dir S f s" "\<And>p. in_dir dir p \<Longrightarrow> nodes z p = nodes (ls_z s) p" "seq (ls_z s) dir \<le> seq z dir"
    and "\<And>c. client_ok dir S (f c) (cl c)"
  shows "lk_good nodes seq dir S f \<lparr>ls_z = z, ls_cl = cl\<rparr>"
proof -
  have "in_dir dir p \<and> p \<in> dom (nodes z) \<longleftrightarrow> in_dir dir p \<and> p \<in> dom (nodes (ls_z s))" for p
    using assms(2) [of p] by (cases "in_dir dir p") (simp_all add: domIff)
  then have "children_are nodes dir S z" using lk_goodD(1) [OF assms(1)] by (simp add: children_are_def)
  moreover have "S \<subseteq> {..<seq z dir}" using lk_goodD(2) [OF assms(1)] assms(3) by fastforce
  ultimately show ?thesis using assms(1,4) by (simp add: lk_good_def)
qed

lemma counter_mono:
  assumes "counter_law k seq"
  shows "seq z x \<le> seq (snd (snd (zoo_create k p d e z))) x" "seq (snd (snd (zoo_create k p d e z))) x \<le> seq z x + 1"
    and "seq z x \<le> seq (snd (zoo_delete k p z)) x"
proof -
  have "seq (snd (snd (zoo_create k p d e z))) x \<in> {seq z x, seq z x + 1}"
    "seq (snd (zoo_delete k p z)) x \<in> {seq z x, seq z x + 1}"
    using assms unfolding counter_law_def by blast+
  then show "seq z x \<le> seq (snd (snd (zoo_create k p d e z))) x" "seq (snd (snd (zoo_create k p d e z))) x \<le> seq z x + 1"
    "seq z x \<le> seq (snd (zoo_delete k p z)) x"
    by auto
qed

lemma make_znode_frame:
  assumes "zk_ok k nodes seq" "make_znode k q z = Inr z'"
  shows "p \<noteq> q \<Longrightarrow> nodes z' p = nodes z p" and "seq z x \<le> seq z' x"
proof -
  obtain rc r where c: "zoo_create k q None False z = (rc, r, z')"
    using assms(2) by (cases "zoo_create k q None False z") (auto simp: make_znode_def into_buf_def split: if_splits)
  have "create_law k nodes" and cl: "counter_law k seq" using assms(1) by (auto simp: zk_ok_def)
  then have n: "(rc = ZOK \<longrightarrow> nodes z' = (nodes z)(q \<mapsto> None)) \<and> (rc \<noteq> ZOK \<longrightarrow> nodes z' = nodes z)"
    using c unfolding create_law_def by blast+
  have q: "seq z x \<le> seq (snd (snd (zoo_create k q None False z))) x" using counter_mono [OF cl] by blast
  show "p \<noteq> q \<Longrightarrow> nodes z' p = nodes z p" using n by (cases "rc = ZOK") auto
  show "seq z x \<le> seq z' x" using q c by simp
qed

lemma not_in_own_dir: "length q \<le> length dir \<Longrightarrow> in_dir dir p \<Longrightarrow> p \<noteq> q"
  by (auto simp: in_dir_def)

lemma read_frame:
  assumes "zk_ok k nodes seq"
  shows "least_path k dir z = Inr (p, z') \<Longrightarrow> nodes z' = nodes z \<and> seq z' = seq z"
    and "zoo_exists k p z = (rc, z') \<Longrightarrow> nodes z' = nodes z \<and> seq z' = seq z"
proof -
  have r: "read_law k nodes seq" using assms by (simp add: zk_ok_def)
  then show "zoo_exists k p z = (rc, z') \<Longrightarrow> nodes z' = nodes z \<and> seq z' = seq z" unfolding read_law_def by blast
  assume "least_path k dir z = Inr (p, z')"
  then obtain rc cs where "zoo_get_children k dir z = (rc, cs, z')"
    by (cases "zoo_get_children k dir z") (auto simp: least_path_def foreach_node_def bind_res_Inr_iff)
  then show "nodes z' = nodes z \<and> seq z' = seq z" using r unfolding read_law_def by blast
qed

text \<open>A new node has a greater number than all others; a holder deletes the node with the least.\<close>

lemma good_create:
  assumes ok: "zk_ok k nodes seq" and g: "lk_good nodes seq dir S f s" and b: "seq z dir < 2 ^ 31"
    and m: "make_seq k dir (ls_z s) = Inr (p, z)" and c: "f c = None"
  shows "\<exists>S f. lk_good nodes seq dir S f \<lparr>ls_z = z, ls_cl = (ls_cl s)(c := \<lparr>lk_path = p, lk_at = L_list\<rparr>)\<rparr>"
proof -
  have "zoo_create k (dir @ ''/'') None True (ls_z s) = (ZOK, p, z)"
    using m by (cases "zoo_create k (dir @ ''/'') None True (ls_z s)")
      (auto simp: make_seq_def into_buf_def split: if_splits)
  then obtain n where n: "seq (ls_z s) dir \<le> n" "n < seq z dir" "n < 2 ^ 31 \<longrightarrow> p = dir @ ''/'' @ fmt010d (int n)"
    and nd: "nodes z = (nodes (ls_z s))(p \<mapsto> None)"
    using ok unfolding zk_ok_def sequence_law_def by blast
  have p: "p = znode dir n" using n b by (simp add: znode_def)
  have new: "n \<notin> S" "\<forall>m\<in>S. m < n" using lk_goodD(2) [OF g] n(1) by auto
  have "client_ok dir (insert n S) ((f(c \<mapsto> n)) d) (((ls_cl s)(c := \<lparr>lk_path = p, lk_at = L_list\<rparr>)) d)" for d
  proof (cases "d = c")
    case False
    then show ?thesis using lk_goodD(4) [OF g, of d] new
      by (cases "f d") (auto simp: less_imp_le split: lk_pc.splits)
  qed (simp add: p)
  moreover have "children_are nodes dir (insert n S) z"
    using lk_goodD(1) [OF g] by (auto simp: children_are_def nd p)
  moreover have "insert n S \<subseteq> {..<seq z dir}" using new n(2) by auto
  moreover have "inj_on (f(c \<mapsto> n)) (dom (f(c \<mapsto> n)))"
  proof -
    have "n \<noteq> m" if "f d = Some m" for d m
      using lk_goodD(4) [OF g, of d] that new by auto
    then show ?thesis using lk_goodD(3) [OF g] c by (auto simp: inj_on_def dom_def)
  qed
  ultimately have "lk_good nodes seq dir (insert n S) (f(c \<mapsto> n)) \<lparr>ls_z = z, ls_cl = (ls_cl s)(c := \<lparr>lk_path = p, lk_at = L_list\<rparr>)\<rparr>"
    by (simp add: lk_good_def)
  then show ?thesis by blast
qed

lemma good_delete:
  assumes ok: "zk_ok k nodes seq" and g: "lk_good nodes seq dir S f s"
    and d: "zoo_delete k (lk_path (ls_cl s c)) (ls_z s) = (ZOK, z)" and h: "lk_at (ls_cl s c) = L_held"
  shows "\<exists>S f. lk_good nodes seq dir S f \<lparr>ls_z = z, ls_cl = (ls_cl s)(c := \<lparr>lk_path = [], lk_at = L_idle\<rparr>)\<rparr>"
proof -
  obtain n where n: "f c = Some n" "n \<in> S" "lk_path (ls_cl s c) = znode dir n"
    using lk_goodD(4) [OF g, of c] h by (cases "f c") auto
  have "nodes z = (nodes (ls_z s))(lk_path (ls_cl s c) := None)"
    using ok d unfolding zk_ok_def delete_law_def by blast
  then have nd: "nodes z = (nodes (ls_z s))(znode dir n := None)" using n(3) by simp
  have "seq (ls_z s) dir \<le> seq (snd (zoo_delete k (lk_path (ls_cl s c)) (ls_z s))) dir"
    using ok counter_mono(3) [of k seq] unfolding zk_ok_def by blast
  then have sq: "seq (ls_z s) dir \<le> seq z dir" using d by simp
  have "client_ok dir (S - {n}) ((f(c := None)) e) (((ls_cl s)(c := \<lparr>lk_path = [], lk_at = L_idle\<rparr>)) e)" for e
  proof (cases "e = c")
    case False
    have "f e \<noteq> Some n" using lk_goodD(3) [OF g] n(1) False by (auto simp: inj_on_def dom_def)
    then show ?thesis using lk_goodD(4) [OF g, of e] False
      by (cases "f e") (auto split: lk_pc.splits)
  qed simp
  moreover have "children_are nodes dir (S - {n}) z"
    using lk_goodD(1) [OF g] by (auto simp: children_are_def nd)
  moreover have "S - {n} \<subseteq> {..<seq z dir}" using lk_goodD(2) [OF g] sq by fastforce
  moreover have "inj_on (f(c := None)) (dom (f(c := None)))"
    using lk_goodD(3) [OF g] by (auto simp: inj_on_def dom_def)
  ultimately have "lk_good nodes seq dir (S - {n}) (f(c := None)) \<lparr>ls_z = z, ls_cl = (ls_cl s)(c := \<lparr>lk_path = [], lk_at = L_idle\<rparr>)\<rparr>"
    by (simp add: lk_good_def)
  then show ?thesis by blast
qed

lemma upd_ok:
  assumes "lk_good nodes seq dir S f s" "client_ok dir S (f c) l"
  shows "client_ok dir S (f d) (((ls_cl s)(c := l)) d)"
  using assms lk_goodD(4) by auto

lemma lk_begin_ok: "client_ok dir S o' l \<Longrightarrow> lk_begin l = Some l' \<Longrightarrow> client_ok dir S o' l'"
  by (cases o') (auto simp: lk_begin_def split: if_splits)

lemma lk_wake_ok: "client_ok dir S o' l \<Longrightarrow> lk_wake nodes l z = Some l' \<Longrightarrow> client_ok dir S o' l'"
  by (cases o') (auto simp: lk_wake_def split: lk_pc.splits bool.splits if_splits)

lemma lk_exec_good:
  assumes dir_def: "dir = lock_path nm zone i" and ok: "zk_ok k nodes seq" and g: "lk_good nodes seq dir S f s" and b: "seq z dir < 2 ^ 31"
    and x: "lk_exec k nm zone i (ls_cl s c) (ls_z s) = Some (Inr (l, z))"
  shows "\<exists>S f. lk_good nodes seq dir S f \<lparr>ls_z = z, ls_cl = (ls_cl s)(c := l)\<rparr>"
proof (cases "lk_at (ls_cl s c)")
  case L_zone
  then have m: "make_znode k (zone_path nm zone) (ls_z s) = Inr z" and l: "l = (ls_cl s c)\<lparr>lk_at := L_id\<rparr>"
    using x by (auto simp: lk_exec_def bind_res_Inr_iff)
  have "client_ok dir S (f c) l" using lk_goodD(4) [OF g, of c] L_zone l by (cases "f c") auto
  moreover have "nodes z p = nodes (ls_z s) p" if "in_dir dir p" for p
    using make_znode_frame(1) [OF ok m] not_in_own_dir [OF _ that] by (simp add: dir_def lock_path_def)
  ultimately show ?thesis
    using good_same [OF g, of z] make_znode_frame(2) [OF ok m] upd_ok [OF g] by blast
next
  case L_id
  then have m: "make_znode k dir (ls_z s) = Inr z" and l: "l = (ls_cl s c)\<lparr>lk_at := L_seq\<rparr>"
    using x by (auto simp: lk_exec_def bind_res_Inr_iff dir_def)
  have "client_ok dir S (f c) l" using lk_goodD(4) [OF g, of c] L_id l by (cases "f c") auto
  moreover have "nodes z p = nodes (ls_z s) p" if "in_dir dir p" for p
    using make_znode_frame(1) [OF ok m] not_in_own_dir [OF _ that] by simp
  ultimately show ?thesis
    using good_same [OF g, of z] make_znode_frame(2) [OF ok m] upd_ok [OF g] by blast
next
  case L_seq
  then obtain p where m: "make_seq k dir (ls_z s) = Inr (p, z)" and l: "l = \<lparr>lk_path = p, lk_at = L_list\<rparr>"
    using x by (auto simp: lk_exec_def bind_res_Inr_iff dir_def)
  have "f c = None" using lk_goodD(4) [OF g, of c] L_seq by (cases "f c") auto
  then show ?thesis using good_create [OF ok g b m] l by blast
next
  case L_list
  then obtain p where m: "least_path k dir (ls_z s) = Inr (p, z)" and l: "l = (ls_cl s c)\<lparr>lk_at := L_exists p\<rparr>"
    using x by (auto simp: lk_exec_def bind_res_Inr_iff dir_def)
  obtain n where n: "f c = Some n" "n \<in> S" "lk_path (ls_cl s c) = znode dir n"
    using lk_goodD(4) [OF g, of c] L_list by (cases "f c") auto
  have fr: "nodes z = nodes (ls_z s)" "seq z = seq (ls_z s)" using read_frame(1) [OF ok m] by simp_all
  then have S: "S \<subseteq> {..<2 ^ 31 - 1}" using lk_goodD(2) [OF g] b by fastforce
  have "\<forall>m\<in>S. n \<le> m" if "p = znode dir n"
    using least_path_min [OF ok lk_goodD(1) [OF g] S, of n z] m that n(2) S by auto
  then have c: "client_ok dir S (f c) l" using n l by simp
  have "lk_good nodes seq dir S f \<lparr>ls_z = z, ls_cl = (ls_cl s)(c := l)\<rparr>"
    by (rule good_same [OF g _ _ upd_ok [OF g c]]) (simp_all add: fr)
  then show ?thesis by blast
next
  case (L_exists p)
  obtain rc where m: "zoo_exists k p (ls_z s) = (rc, z)"
    and l: "l = (ls_cl s c)\<lparr>lk_at := if lk_path (ls_cl s c) = p then L_held else L_wait p (rc = ZOK)\<rparr>"
    using x L_exists by (auto simp: lk_exec_def split: prod.splits)
  have c: "client_ok dir S (f c) l" using lk_goodD(4) [OF g, of c] L_exists l by (cases "f c") auto
  have "lk_good nodes seq dir S f \<lparr>ls_z = z, ls_cl = (ls_cl s)(c := l)\<rparr>"
    by (rule good_same [OF g _ _ upd_ok [OF g c]]) (use read_frame(2) [OF ok m] in simp_all)
  then show ?thesis by blast
qed (use x in \<open>auto simp: lk_exec_def\<close>)

lemma lk_sys_upd: "s\<lparr>ls_cl := x\<rparr> = \<lparr>ls_z = ls_z s, ls_cl = x\<rparr>" "s\<lparr>ls_z := z\<rparr> = \<lparr>ls_z = z, ls_cl = ls_cl s\<rparr>" for s :: "'z lk_sys"
  by (cases s; simp)+

lemma lk_step_good:
  assumes ok: "zk_ok k nodes seq" and st: "lk_step k nodes seq nm zone i s s'"
    and g: "lk_good nodes seq (lock_path nm zone i) S f s" and b: "seq (ls_z s') (lock_path nm zone i) < 2 ^ 31"
  shows "\<exists>S f. lk_good nodes seq (lock_path nm zone i) S f s'"
  using st
proof cases
  case (lk_start c l)
  have "client_ok (lock_path nm zone i) S (f c) l" using lk_begin_ok [OF lk_goodD(4) [OF g]] lk_start by blast
  then show ?thesis
    using good_same [OF g, of "ls_z s" "(ls_cl s)(c := l)"] upd_ok [OF g] lk_start(1) unfolding lk_sys_upd by blast
next
  case (lk_call c l z)
  then show ?thesis using lk_exec_good [OF refl ok g, of z c l] b by simp
next
  case (lk_free c l z)
  then have h: "lk_at (ls_cl s c) = L_held" and d: "zoo_delete k (lk_path (ls_cl s c)) (ls_z s) = (ZOK, z)"
    and l: "l = \<lparr>lk_path = [], lk_at = L_idle\<rparr>"
    by (cases "zoo_delete k (lk_path (ls_cl s c)) (ls_z s)"; auto simp: lk_unlock_def split: if_splits)+
  then show ?thesis using good_delete [OF ok g d h] lk_free by simp
next
  case (lk_event c l)
  have "client_ok (lock_path nm zone i) S (f c) l" by (rule lk_wake_ok [OF lk_goodD(4) [OF g] lk_event(2)])
  then show ?thesis
    using good_same [OF g, of "ls_z s" "(ls_cl s)(c := l)"] upd_ok [OF g] lk_event(1) unfolding lk_sys_upd by blast
next
  case (lk_other z)
  then show ?thesis
    using good_same [OF g, of z "ls_cl s"] lk_goodD(4) [OF g] unfolding lk_sys_upd by blast
qed

lemma lk_exec_mono:
  assumes ok: "zk_ok k nodes seq" and x: "lk_exec k nm zone i l z = Some (Inr (l', z'))"
  shows "seq z x \<le> seq z' x"
proof (cases "lk_at l")
  case L_zone
  then have "make_znode k (zone_path nm zone) z = Inr z'" using assms by (auto simp: lk_exec_def bind_res_Inr_iff)
  then show ?thesis by (rule make_znode_frame(2) [OF ok])
next
  case L_id
  then have "make_znode k (lock_path nm zone i) z = Inr z'" using assms by (auto simp: lk_exec_def bind_res_Inr_iff)
  then show ?thesis by (rule make_znode_frame(2) [OF ok])
next
  case L_seq
  let ?p = "lock_path nm zone i @ ''/''"
  obtain q where "make_seq k (lock_path nm zone i) z = Inr (q, z')"
    using assms L_seq by (auto simp: lk_exec_def bind_res_Inr_iff)
  then have "snd (snd (zoo_create k ?p None True z)) = z'"
    by (cases "zoo_create k ?p None True z") (auto simp: make_seq_def into_buf_def split: if_splits)
  then show ?thesis using ok counter_mono(1) [of k seq z x ?p None True] by (simp add: zk_ok_def)
next
  case L_list
  then obtain p where "least_path k (lock_path nm zone i) z = Inr (p, z')" using x by (auto simp: lk_exec_def bind_res_Inr_iff)
  then show ?thesis using read_frame(1) [OF ok] by simp
next
  case (L_exists p)
  then obtain rc where "zoo_exists k p z = (rc, z')" using x by (auto simp: lk_exec_def split: prod.splits)
  then show ?thesis using read_frame(2) [OF ok] by simp
qed (use x in \<open>auto simp: lk_exec_def\<close>)

lemma lk_seq_mono:
  assumes ok: "zk_ok k nodes seq" and st: "lk_step k nodes seq nm zone i s s'"
  shows "seq (ls_z s) (lock_path nm zone i) \<le> seq (ls_z s') (lock_path nm zone i)"
  using st
proof cases
  case (lk_call c l z)
  then show ?thesis using lk_exec_mono [OF ok lk_call(2)] by simp
next
  case (lk_free c l z)
  then have "zoo_delete k (lk_path (ls_cl s c)) (ls_z s) = (ZOK, z)"
    by (cases "zoo_delete k (lk_path (ls_cl s c)) (ls_z s)") (auto simp: lk_unlock_def split: if_splits)
  then show ?thesis
    using ok counter_mono(3) [of k seq "ls_z s" "lock_path nm zone i" "lk_path (ls_cl s c)"] lk_free by (simp add: zk_ok_def)
qed auto

lemma lk_reach_good:
  assumes ok: "zk_ok k nodes seq" and no: "\<And>p. in_dir (lock_path nm zone i) p \<Longrightarrow> nodes z p = None"
    and r: "(lk_step k nodes seq nm zone i)\<^sup>*\<^sup>* (lk_init z) s" and b: "seq (ls_z s) (lock_path nm zone i) < 2 ^ 31"
  shows "\<exists>S f. lk_good nodes seq (lock_path nm zone i) S f s"
  using r b
proof (induction rule: rtranclp_induct)
  case base
  have "lk_good nodes seq (lock_path nm zone i) {} Map.empty (lk_init z)"
    using no by (auto simp: lk_good_def lk_init_def children_are_def)
  then show ?case by blast
next
  case (step s s')
  have "seq (ls_z s) (lock_path nm zone i) < 2 ^ 31" using step.prems lk_seq_mono [OF ok step.hyps(2)] by simp
  then show ?case using step lk_step_good [OF ok step.hyps(2)] by blast
qed

lemma held_least:
  assumes "lk_good nodes seq dir S f s" "lk_at (ls_cl s c) = L_held"
  shows "\<exists>n. f c = Some n \<and> n \<in> S \<and> lk_path (ls_cl s c) = znode dir n \<and> (\<forall>m\<in>S. n \<le> m)"
  using lk_goodD(4) [OF assms(1), of c] assms(2) by (cases "f c") auto

text \<open>
  C7. At most one process holds the distributed lock, however the calls of the processes interleave: for
  every service that keeps the laws of ZooKeeper, as long as its counter has not overflowed.
\<close>

theorem zk_lock_mutex:
  assumes "zk_ok k nodes seq" and "\<And>p. in_dir (lock_path nm zone i) p \<Longrightarrow> nodes z p = None"
    and "(lk_step k nodes seq nm zone i)\<^sup>*\<^sup>* (lk_init z) s" and "seq (ls_z s) (lock_path nm zone i) < 2 ^ 31"
    and "lk_at (ls_cl s c) = L_held" and "lk_at (ls_cl s d) = L_held"
  shows "c = d"
proof -
  obtain S f where g: "lk_good nodes seq (lock_path nm zone i) S f s"
    using lk_reach_good [OF assms(1-4)] by blast
  obtain m n where "f c = Some m" "f d = Some n" "m \<in> S" "n \<in> S" "\<forall>j\<in>S. m \<le> j" "\<forall>j\<in>S. n \<le> j"
    using held_least [OF g assms(5)] held_least [OF g assms(6)] by blast
  then have "f c = f d" "c \<in> dom f" "d \<in> dom f" by (auto intro: le_antisym)
  then show ?thesis using lk_goodD(3) [OF g] by (simp add: inj_on_def)
qed

end
