(* ===== verification/Zk_Wakeup.thy ===== *)
theory Zk_Wakeup
  imports Zk_Lock
begin

text \<open>
  The wait for the distributed lock: the node that a process watches can be gone before the watch is set,
  and then nothing wakes the process any more.
\<close>

section \<open>Calls that succeed\<close>

lemma make_znode_succeeds:
  assumes ok: "zk_ok k nodes seq" and q: "valid_path q" "length q < 1024" "parent_of q \<in> dom (nodes z)"
  shows "\<exists>z'. make_znode k q z = Inr z' \<and> nodes z' = (if q \<in> dom (nodes z) then nodes z else (nodes z)(q \<mapsto> None)) \<and>
    (\<forall>x. seq z' x \<le> seq z x + 1)"
proof -
  obtain rc r z' where c: "zoo_create k q None False z = (rc, r, z')" by (cases "zoo_create k q None False z") auto
  have law: "(rc = ZOK \<longrightarrow> nodes z' = (nodes z)(q \<mapsto> None)) \<and> (rc \<noteq> ZOK \<longrightarrow> nodes z' = nodes z) \<and>
      (q \<in> dom (nodes z) \<longrightarrow> rc = ZNODEEXISTS) \<and> (q \<notin> dom (nodes z) \<longrightarrow> rc = ZOK)"
    using ok c q(1,3) unfolding zk_ok_def create_law_def by blast
  have "seq z' x \<le> seq z x + 1" for x
    using ok counter_mono(2) [of k seq q None False z x] c by (simp add: zk_ok_def)
  then show ?thesis
    using law c q(2) by (auto simp: make_znode_def into_buf_def MAX_NODE_STR_LEN_def)
qed

lemma make_seq_succeeds:
  assumes ok: "zk_ok k nodes seq" and d: "valid_path dir" "length dir < 1000" "dir \<in> dom (nodes z)"
    and new: "\<And>n. seq z dir \<le> n \<Longrightarrow> nodes z (znode dir n) = None" and b: "seq z dir + 1 < 2 ^ 31"
  shows "\<exists>n z'. make_seq k dir z = Inr (znode dir n, z') \<and> nodes z' = (nodes z)(znode dir n \<mapsto> None) \<and>
    seq z dir \<le> n \<and> n < seq z' dir \<and> (\<forall>x. seq z' x \<le> seq z x + 1)"
proof -
  obtain rc r z' where c: "zoo_create k (dir @ ''/'') None True z = (rc, r, z')"
    by (cases "zoo_create k (dir @ ''/'') None True z") auto
  have "\<forall>n\<ge>seq z dir. dir @ ''/'' @ fmt010d (int n) \<notin> dom (nodes z)"
    using new by (simp add: znode_def domIff)
  then have rc: "rc = ZOK" using ok c d(1,3) unfolding zk_ok_def sequence_law_def by blast
  then obtain n where n: "nodes z' = (nodes z)(r \<mapsto> None)" "seq z dir \<le> n" "n < seq z' dir"
    "n < 2 ^ 31 \<longrightarrow> r = dir @ ''/'' @ fmt010d (int n)"
    using ok c unfolding zk_ok_def sequence_law_def by blast
  have m: "seq z' x \<le> seq z x + 1" for x
    using ok counter_mono(2) [of k seq "dir @ ''/''" None True z x] c by (simp add: zk_ok_def)
  have "n < 2 ^ 31" using n(3) b m [of dir] by linarith
  then have "r = znode dir n" using n(4) by (simp add: znode_def)
  then show ?thesis using n m c rc d(2) by (auto simp: make_seq_def into_buf_def MAX_NODE_STR_LEN_def)
qed

lemma least_seq_min:
  assumes "\<forall>p\<in>set ps. \<exists>n\<in>S. last_part p = fmt010d (int n)" "S \<subseteq> {..<2 ^ 31}" "\<exists>p\<in>set ps. last_part p = fmt010d (int l)"
    and "\<forall>n\<in>S. l \<le> n" "int l \<le> m"
  shows "least_seq m ps = Inr (int l)"
  using assms
proof (induction m ps rule: least_seq.induct)
  case (2 m p ps)
  obtain n where n: "n \<in> S" "last_part p = fmt010d (int n)" using 2(2) by auto
  have n31: "n < 2 ^ 31" using n(1) 2(3) by auto
  let ?m = "if int n < m then int n else m"
  have e: "least_seq m (p # ps) = least_seq ?m ps"
    using n(2) n31 stoul_fmt [of n] sint_small [OF n31] by (simp add: Let_def)
  show ?case
  proof (cases "\<exists>p\<in>set ps. last_part p = fmt010d (int l)")
    case True
    have "least_seq ?m ps = Inr (int l)"
      using 2(1) [OF refl, of "of_nat n"] sint_small [OF n31] 2(2-6) True n(1) by auto
    then show ?thesis using e by simp
  next
    case False
    then have "n = l" using 2(4) n(2) by (auto simp: fmt_inj)
    have low: "least_seq (int l) ps = Inr (int l)" if "\<forall>p\<in>set ps. \<exists>n\<in>S. last_part p = fmt010d (int n)" for ps
      using that
    proof (induction ps)
      case (Cons p ps)
      then obtain j where j: "j \<in> S" "last_part p = fmt010d (int j)" by auto
      have "j < 2 ^ 31" "l \<le> j" using j(1) 2(3,5) by auto
      then show ?case using Cons j(2) stoul_fmt [of j] sint_small [of j] by (simp add: Let_def)
    qed simp
    then show ?thesis using e 2(2,6) \<open>n = l\<close> by (cases "int l < m") auto
  qed
qed simp

lemma least_path_succeeds:
  assumes ok: "zk_ok k nodes seq" and S: "children_are nodes dir S z" "S \<subseteq> {..<2 ^ 31}" "l \<in> S" "\<forall>n\<in>S. l \<le> n"
    and d: "dir \<in> dom (nodes z)" "length dir < 1000"
  shows "\<exists>z'. least_path k dir z = Inr (znode dir l, z') \<and> nodes z' = nodes z \<and> seq z' = seq z"
proof -
  obtain rc cs z' where c: "zoo_get_children k dir z = (rc, cs, z')" by (cases "zoo_get_children k dir z") auto
  have rc: "rc = ZOK" using ok c d(1) unfolding zk_ok_def read_law_def by blast
  have cs: "set cs = (\<lambda>n. fmt010d (int n)) ` S" and fr: "nodes z' = nodes z" "seq z' = seq z"
    using children_names [OF ok S(1)] c rc by blast+
  let ?ps = "FOR_EACH_ZNODE dir cs"
  have len: "length (znode dir n) < 1024" if "n \<in> S" for n
    using fmt_length [of n] that S(2) d(2) by (auto simp: znode_def)
  have ps: "set ?ps = znode dir ` S"
  proof -
    have "set ?ps = (\<lambda>n. take 1023 (znode dir n)) ` S"
      unfolding FOR_EACH_ZNODE_def MAX_NODE_STR_LEN_def by (simp add: cs image_image znode_def)
    also have "\<dots> = znode dir ` S"
    proof (intro image_cong refl)
      fix n assume "n \<in> S"
      then have "length (znode dir n) \<le> 1023" using len [of n] by linarith
      then show "take 1023 (znode dir n) = znode dir n" by simp
    qed
    finally show ?thesis .
  qed
  have "last_part (znode dir n) = fmt010d (int n)" for n by (simp add: znode_def)
  moreover have l31: "l < 2 ^ 31" using S(2,3) by auto
  ultimately have "least_seq 2147483647 ?ps = Inr (int l)"
    using S ps by (intro least_seq_min [where S = S]) auto
  moreover have "into_buf (dir @ CHR ''/'' # fmt010d (int l)) = Inr (znode dir l)"
    using len [OF S(3)] by (simp add: into_buf_def znode_def MAX_NODE_STR_LEN_def)
  ultimately show ?thesis using c rc fr by (simp add: least_path_def foreach_node_def)
qed


text \<open>A process without a node makes one, with a number above all others.\<close>

definition below_dir :: "string \<Rightarrow> string \<Rightarrow> bool" where
  "below_dir d p \<longleftrightarrow> (\<exists>r. p = d @ CHR ''/'' # r)"

definition dir_state ::
    "('z \<Rightarrow> string \<rightharpoonup> string option) \<Rightarrow> ('z \<Rightarrow> string \<Rightarrow> nat) \<Rightarrow> string \<Rightarrow> string \<Rightarrow> u64 \<Rightarrow> nat set \<Rightarrow> 'z \<Rightarrow> bool" where
  "dir_state nodes seq nm zone i S z \<longleftrightarrow>
     LOCK_ZNODE nm \<in> dom (nodes z) \<and> S \<subseteq> {..<seq z (lock_path nm zone i)} \<and>
     (\<forall>p. below_dir (lock_path nm zone i) p \<and> p \<in> dom (nodes z) \<longleftrightarrow> p \<in> znode (lock_path nm zone i) ` S)"

definition lock_names :: "string \<Rightarrow> string \<Rightarrow> u64 \<Rightarrow> bool" where
  "lock_names nm zone i \<longleftrightarrow>
     valid_path (zone_path nm zone) \<and> valid_path (lock_path nm zone i) \<and> CHR ''/'' \<notin> set zone \<and>
     length (lock_path nm zone i) < 1000"

lemma in_dir_under: "in_dir d p \<Longrightarrow> below_dir d p"
  by (auto simp: in_dir_def below_dir_def)

lemma under_longer: "below_dir d p \<Longrightarrow> length d < length p"
  by (auto simp: below_dir_def)

lemma znode_under [simp]: "below_dir dir (znode dir n)"
  by (simp add: below_dir_def znode_def)

lemma dir_state_children: "dir_state nodes seq nm zone i S z \<Longrightarrow> children_are nodes (lock_path nm zone i) S z"
  unfolding dir_state_def children_are_def using in_dir_under znode_in_dir by fastforce

lemma lock_path_parent: "parent_of (lock_path nm zone i) = zone_path nm zone"
proof -
  have "CHR ''/'' \<notin> set (nat_str (unat i))" using nat_str_digits no_slash_digit by blast
  then show ?thesis by (simp add: lock_path_def)
qed

lemma zone_path_parent: "CHR ''/'' \<notin> set zone \<Longrightarrow> parent_of (zone_path nm zone) = LOCK_ZNODE nm"
  by (simp add: zone_path_def)

lemma znode_image [simp]: "znode dir n \<in> znode dir ` S \<longleftrightarrow> n \<in> S"
  by auto

lemma dir_stateD:
  "dir_state nodes seq nm zone i S z \<Longrightarrow>
   below_dir (lock_path nm zone i) p \<and> p \<in> dom (nodes z) \<longleftrightarrow> p \<in> znode (lock_path nm zone i) ` S"
  unfolding dir_state_def by blast

lemma own_node_succeeds:
  assumes ok: "zk_ok k nodes seq" and nm: "lock_names nm zone i" and d: "dir_state nodes seq nm zone i S z"
    and b: "seq z (lock_path nm zone i) + 3 < 2 ^ 31"
  shows "\<exists>n z'. own_node k nm zone i [] z = Inr (znode (lock_path nm zone i) n, z') \<and>
    dir_state nodes seq nm zone i (insert n S) z' \<and> lock_path nm zone i \<in> dom (nodes z') \<and>
    (\<forall>m\<in>S. m < n) \<and> n < seq z' (lock_path nm zone i) \<and> seq z' (lock_path nm zone i) \<le> seq z (lock_path nm zone i) + 3"
proof -
  let ?dir = "lock_path nm zone i" and ?zone = "zone_path nm zone"
  have len: "length ?zone < length ?dir" by (simp add: lock_path_def)
  obtain z1 where z1: "make_znode k ?zone z = Inr z1"
    "nodes z1 = (if ?zone \<in> dom (nodes z) then nodes z else (nodes z)(?zone \<mapsto> None))" "\<forall>x. seq z1 x \<le> seq z x + 1"
    using make_znode_succeeds [OF ok, of ?zone z] nm d len zone_path_parent [of zone nm]
    by (auto simp: lock_names_def dir_state_def)
  have zd: "?zone \<in> dom (nodes z1)" using z1(2) by auto
  obtain z2 where z2: "make_znode k ?dir z1 = Inr z2"
    "nodes z2 = (if ?dir \<in> dom (nodes z1) then nodes z1 else (nodes z1)(?dir \<mapsto> None))" "\<forall>x. seq z2 x \<le> seq z1 x + 1"
    using make_znode_succeeds [OF ok, of ?dir z1] nm zd lock_path_parent [of nm zone i] by (auto simp: lock_names_def)
  have dd: "?dir \<in> dom (nodes z2)" using z2(2) by auto
  have eq: "nodes z2 p = nodes z p" if "below_dir ?dir p" for p
    using under_longer [OF that] len z1(2) z2(2) by auto
  have seq2: "seq z ?dir \<le> seq z2 ?dir" "seq z2 ?dir \<le> seq z ?dir + 2"
    using make_znode_frame(2) [OF ok z1(1), of ?dir] make_znode_frame(2) [OF ok z2(1), of ?dir]
      z1(3) [rule_format, of ?dir] z2(3) [rule_format, of ?dir] by linarith+
  have "nodes z2 (znode ?dir n) = None" if "seq z2 ?dir \<le> n" for n
  proof -
    have "n \<notin> S" using d seq2(1) that by (auto simp: dir_state_def)
    then have "znode ?dir n \<notin> dom (nodes z)" using dir_stateD [OF d, of "znode ?dir n"] by simp
    then show ?thesis using eq [of "znode ?dir n"] by (simp add: domIff)
  qed
  then obtain n z3 where z3: "make_seq k ?dir z2 = Inr (znode ?dir n, z3)" "nodes z3 = (nodes z2)(znode ?dir n \<mapsto> None)"
    "seq z2 ?dir \<le> n" "n < seq z3 ?dir" "\<forall>x. seq z3 x \<le> seq z2 x + 1"
    using make_seq_succeeds [OF ok, of ?dir z2] nm dd b seq2(2) by (auto simp: lock_names_def)
  have S: "S \<subseteq> {..<seq z ?dir}" using d by (simp add: dir_state_def)
  have "below_dir ?dir p \<and> p \<in> dom (nodes z3) \<longleftrightarrow> p \<in> znode ?dir ` insert n S" for p
  proof (cases "p = znode ?dir n")
    case False
    then show ?thesis using dir_stateD [OF d, of p] eq [of p] z3(2) by (auto simp: domIff)
  qed (simp add: z3(2))
  moreover have "LOCK_ZNODE nm \<in> dom (nodes z3)"
    using d z1(2) z2(2) z3(2) by (auto simp: dir_state_def)
  moreover have "insert n S \<subseteq> {..<seq z3 ?dir}" using S z3(3,4) seq2(1) by auto
  ultimately have "dir_state nodes seq nm zone i (insert n S) z3" by (simp add: dir_state_def)
  moreover have "own_node k nm zone i [] z = Inr (znode ?dir n, z3)" using z1(1) z2(1) z3(1) by (simp add: own_node_def)
  moreover have "\<forall>m\<in>S. m < n" using S seq2(1) z3(3) by auto
  moreover have "?dir \<in> dom (nodes z3)" using dd z3(2) by simp
  moreover have "seq z3 ?dir \<le> seq z ?dir + 3" using z3(5) [rule_format, of ?dir] seq2(2) by linarith
  ultimately show ?thesis using z3(4) by blast
qed

section \<open>A wait without end\<close>

definition no_lower :: "('z \<Rightarrow> string \<rightharpoonup> string option) \<Rightarrow> ('z \<Rightarrow> string \<Rightarrow> nat) \<Rightarrow> string \<Rightarrow> nat \<Rightarrow> 'z \<Rightarrow> bool" where
  "no_lower nodes seq dir n z \<longleftrightarrow> (\<forall>m<n. nodes z (znode dir m) = None) \<and> n < seq z dir"

lemma no_lower_frame:
  "no_lower nodes seq dir n z \<Longrightarrow> (\<And>p. in_dir dir p \<Longrightarrow> nodes z' p = nodes z p) \<Longrightarrow> seq z dir \<le> seq z' dir \<Longrightarrow>
   no_lower nodes seq dir n z'"
  unfolding no_lower_def by (metis less_le_trans znode_in_dir)

lemma no_lower_make:
  assumes "zk_ok k nodes seq" "no_lower nodes seq dir n z" "make_znode k q z = Inr z'" "length q \<le> length dir"
  shows "no_lower nodes seq dir n z'"
  using make_znode_frame [OF assms(1,3)] not_in_own_dir [OF assms(4)] by (intro no_lower_frame [OF assms(2)]) blast+

lemma no_lower_exec:
  assumes ok: "zk_ok k nodes seq" and lo: "no_lower nodes seq (lock_path nm zone i) n z"
    and x: "lk_exec k nm zone i l z = Some (Inr (l', z'))" and b: "seq z' (lock_path nm zone i) < 2 ^ 31"
  shows "no_lower nodes seq (lock_path nm zone i) n z'"
proof (cases "lk_at l")
  case L_zone
  then have "make_znode k (zone_path nm zone) z = Inr z'" using x by (auto simp: lk_exec_def bind_res_Inr_iff)
  then show ?thesis by (rule no_lower_make [OF ok lo]) (simp add: lock_path_def)
next
  case L_id
  then have "make_znode k (lock_path nm zone i) z = Inr z'" using x by (auto simp: lk_exec_def bind_res_Inr_iff)
  then show ?thesis by (rule no_lower_make [OF ok lo]) simp
next
  case L_seq
  let ?dir = "lock_path nm zone i"
  obtain p where m: "make_seq k ?dir z = Inr (p, z')" using x L_seq by (auto simp: lk_exec_def bind_res_Inr_iff)
  then have c: "zoo_create k (?dir @ ''/'') None True z = (ZOK, p, z')"
    by (cases "zoo_create k (?dir @ ''/'') None True z") (auto simp: make_seq_def into_buf_def split: if_splits)
  then obtain j where j: "nodes z' = (nodes z)(p \<mapsto> None)" "seq z ?dir \<le> j" "j < seq z' ?dir"
    "j < 2 ^ 31 \<longrightarrow> p = ?dir @ ''/'' @ fmt010d (int j)"
    using ok unfolding zk_ok_def sequence_law_def by blast
  then have "p = znode ?dir j" using b by (simp add: znode_def)
  then show ?thesis using lo j by (auto simp: no_lower_def)
next
  case L_list
  then obtain p where "least_path k (lock_path nm zone i) z = Inr (p, z')" using x by (auto simp: lk_exec_def bind_res_Inr_iff)
  then show ?thesis using read_frame(1) [OF ok] lo by (simp add: no_lower_def)
next
  case (L_exists p)
  then obtain rc where "zoo_exists k p z = (rc, z')" using x by (auto simp: lk_exec_def split: prod.splits)
  then show ?thesis using read_frame(2) [OF ok] lo by (simp add: no_lower_def)
qed (use x in \<open>auto simp: lk_exec_def\<close>)

lemma lk_step_stuck:
  assumes ok: "zk_ok k nodes seq" and st: "lk_step k nodes seq nm zone i s s'" and b: "seq (ls_z s') (lock_path nm zone i) < 2 ^ 31"
    and w: "ls_cl s c = l" "lk_at l = L_wait p False" and lo: "no_lower nodes seq (lock_path nm zone i) n (ls_z s)"
  shows "ls_cl s' c = l \<and> no_lower nodes seq (lock_path nm zone i) n (ls_z s')"
  using st
proof cases
  case (lk_start d l')
  then show ?thesis using w lo by (cases "d = c") (auto simp: lk_begin_def)
next
  case (lk_call d l' z)
  have "d \<noteq> c" using lk_call(2) w by (auto simp: lk_exec_def)
  then show ?thesis using no_lower_exec [OF ok lo lk_call(2)] b w lk_call(1) by simp
next
  case (lk_free d l' z)
  then have d: "zoo_delete k (lk_path (ls_cl s d)) (ls_z s) = (ZOK, z)" and "lk_at (ls_cl s d) = L_held"
    by (cases "zoo_delete k (lk_path (ls_cl s d)) (ls_z s)"; auto simp: lk_unlock_def split: if_splits)+
  then have "d \<noteq> c" using w by auto
  moreover have "nodes z = (nodes (ls_z s))(lk_path (ls_cl s d) := None)"
    using ok d unfolding zk_ok_def delete_law_def by blast
  moreover have "seq (ls_z s) (lock_path nm zone i) \<le> seq z (lock_path nm zone i)"
    using lk_seq_mono [OF ok st] lk_free by simp
  ultimately show ?thesis using w lo lk_free(1) by (simp add: no_lower_def)
next
  case (lk_event d l')
  then show ?thesis using w lo by (cases "d = c") (auto simp: lk_wake_def)
next
  case (lk_other z)
  then show ?thesis using no_lower_frame [OF lo, of z] w by simp
qed

lemma lk_steps_stuck:
  assumes ok: "zk_ok k nodes seq" and st: "(lk_step k nodes seq nm zone i)\<^sup>*\<^sup>* s s'" and b: "seq (ls_z s') (lock_path nm zone i) < 2 ^ 31"
    and w: "ls_cl s c = l" "lk_at l = L_wait p False" and lo: "no_lower nodes seq (lock_path nm zone i) n (ls_z s)"
  shows "ls_cl s' c = l \<and> no_lower nodes seq (lock_path nm zone i) n (ls_z s')"
  using st b
proof (induction rule: rtranclp_induct)
  case (step s' s'')
  have "seq (ls_z s') (lock_path nm zone i) < 2 ^ 31" using step.prems lk_seq_mono [OF ok step.hyps(2)] by simp
  then show ?case using step.IH lk_step_stuck [OF ok step.hyps(2) step.prems _ w(2)] by blast
qed (use w lo in simp)

lemma stuck_no_holder:
  assumes g: "lk_good nodes seq dir S f s" and w: "lk_at (ls_cl s c) = L_wait p False" "lk_path (ls_cl s c) = znode dir n"
    and lo: "no_lower nodes seq dir n (ls_z s)"
  shows "lk_at (ls_cl s e) \<noteq> L_held"
proof
  assume h: "lk_at (ls_cl s e) = L_held"
  obtain m where m: "f e = Some m" "m \<in> S" "\<forall>j\<in>S. m \<le> j" using held_least [OF g h] by blast
  have fc: "f c = Some n" using lk_goodD(4) [OF g, of c] w by (cases "f c") auto
  then have n: "n \<in> S" using lk_goodD(4) [OF g, of c] by simp
  have "e \<noteq> c" using h w(1) by auto
  then have "m \<noteq> n" using lk_goodD(3) [OF g] m(1) fc by (auto simp: inj_on_def dom_def)
  then have "m < n" using m(3) n by (simp add: le_neq_implies_less)
  moreover have "znode dir m \<in> dom (nodes (ls_z s))" using lk_goodD(1) [OF g] m(2) by (auto simp: children_are_def)
  ultimately show False using lo by (auto simp: no_lower_def)
qed

lemma lk_join:
  assumes ok: "zk_ok k nodes seq" and nm: "lock_names nm zone i" and d: "dir_state nodes seq nm zone i S (ls_z s)"
    and b: "seq (ls_z s) (lock_path nm zone i) + 3 < 2 ^ 31" and c: "ls_cl s c = \<lparr>lk_path = [], lk_at = L_idle\<rparr>"
  shows "\<exists>n z. (lk_step k nodes seq nm zone i)\<^sup>*\<^sup>* s
      \<lparr>ls_z = z, ls_cl = (ls_cl s)(c := \<lparr>lk_path = znode (lock_path nm zone i) n, lk_at = L_list\<rparr>)\<rparr> \<and>
    dir_state nodes seq nm zone i (insert n S) z \<and> lock_path nm zone i \<in> dom (nodes z) \<and> (\<forall>m\<in>S. m < n) \<and>
    n < seq z (lock_path nm zone i) \<and> seq z (lock_path nm zone i) \<le> seq (ls_z s) (lock_path nm zone i) + 3"
proof -
  let ?dir = "lock_path nm zone i"
  let ?s = "s\<lparr>ls_cl := (ls_cl s)(c := \<lparr>lk_path = [], lk_at = L_zone\<rparr>)\<rparr>"
  have st: "lk_step k nodes seq nm zone i s ?s" using c by (intro lk_start) (simp add: lk_begin_def)
  obtain n z where o: "own_node k nm zone i [] (ls_z s) = Inr (znode ?dir n, z)"
    and f: "dir_state nodes seq nm zone i (insert n S) z" "?dir \<in> dom (nodes z)" "\<forall>m\<in>S. m < n"
      "n < seq z ?dir" "seq z ?dir \<le> seq (ls_z s) ?dir + 3"
    using own_node_succeeds [OF ok nm d b] by blast
  have "(lk_step k nodes seq nm zone i)\<^sup>*\<^sup>* ?s \<lparr>ls_z = z, ls_cl = (ls_cl ?s)(c := \<lparr>lk_path = znode ?dir n, lk_at = L_list\<rparr>)\<rparr>"
    by (rule own_node_steps [OF o]) simp_all
  then have "(lk_step k nodes seq nm zone i)\<^sup>*\<^sup>* s \<lparr>ls_z = z, ls_cl = (ls_cl s)(c := \<lparr>lk_path = znode ?dir n, lk_at = L_list\<rparr>)\<rparr>"
    using converse_rtranclp_into_rtranclp [of "lk_step k nodes seq nm zone i", OF st] by simp
  then show ?thesis using f by blast
qed

lemma lk_look:
  assumes ok: "zk_ok k nodes seq" and nm: "lock_names nm zone i" and d: "dir_state nodes seq nm zone i S (ls_z s)"
    and dd: "lock_path nm zone i \<in> dom (nodes (ls_z s))" and b: "seq (ls_z s) (lock_path nm zone i) < 2 ^ 31"
    and l: "l \<in> S" "\<forall>n\<in>S. l \<le> n" and c: "ls_cl s c = \<lparr>lk_path = p, lk_at = L_list\<rparr>"
  shows "\<exists>z. lk_step k nodes seq nm zone i s
      \<lparr>ls_z = z, ls_cl = (ls_cl s)(c := \<lparr>lk_path = p, lk_at = L_exists (znode (lock_path nm zone i) l)\<rparr>)\<rparr> \<and>
    nodes z = nodes (ls_z s) \<and> seq z = seq (ls_z s)"
proof -
  let ?dir = "lock_path nm zone i"
  have "S \<subseteq> {..<2 ^ 31}" using d b unfolding dir_state_def by fastforce
  then obtain z where z: "least_path k ?dir (ls_z s) = Inr (znode ?dir l, z)" "nodes z = nodes (ls_z s)" "seq z = seq (ls_z s)"
    using least_path_succeeds [OF ok dir_state_children [OF d] _ l dd] nm by (auto simp: lock_names_def)
  have "lk_exec k nm zone i (ls_cl s c) (ls_z s) = Some (Inr (\<lparr>lk_path = p, lk_at = L_exists (znode ?dir l)\<rparr>, z))"
    using c z(1) by (simp add: lk_exec_def)
  then show ?thesis using lk_call [of k nm zone i s c _ z] z(2,3) by blast
qed

lemma lk_check:
  assumes ok: "zk_ok k nodes seq" and c: "ls_cl s c = \<lparr>lk_path = q, lk_at = L_exists p\<rparr>"
  shows "\<exists>z. lk_step k nodes seq nm zone i s
      \<lparr>ls_z = z, ls_cl = (ls_cl s)(c := \<lparr>lk_path = q, lk_at = if q = p then L_held else L_wait p (p \<in> dom (nodes (ls_z s)))\<rparr>)\<rparr> \<and>
    nodes z = nodes (ls_z s) \<and> seq z = seq (ls_z s)"
proof -
  obtain rc z where z: "zoo_exists k p (ls_z s) = (rc, z)" by (cases "zoo_exists k p (ls_z s)")
  have r: "nodes z = nodes (ls_z s)" "seq z = seq (ls_z s)" "rc = ZOK \<longleftrightarrow> p \<in> dom (nodes (ls_z s))"
    using ok z unfolding zk_ok_def read_law_def by blast+
  have "lk_exec k nm zone i (ls_cl s c) (ls_z s) =
      Some (Inr (\<lparr>lk_path = q, lk_at = if q = p then L_held else L_wait p (p \<in> dom (nodes (ls_z s)))\<rparr>, z))"
    using c z r(3) by (simp add: lk_exec_def)
  then show ?thesis using lk_call [of k nm zone i s c _ z] r(1,2) by blast
qed

lemma lk_drop:
  assumes ok: "zk_ok k nodes seq" and d: "dir_state nodes seq nm zone i S (ls_z s)" and n: "n \<in> S"
    and c: "ls_cl s c = \<lparr>lk_path = znode (lock_path nm zone i) n, lk_at = L_held\<rparr>"
  shows "\<exists>z. lk_step k nodes seq nm zone i s \<lparr>ls_z = z, ls_cl = (ls_cl s)(c := \<lparr>lk_path = [], lk_at = L_idle\<rparr>)\<rparr> \<and>
    nodes z = (nodes (ls_z s))(znode (lock_path nm zone i) n := None) \<and>
    seq (ls_z s) (lock_path nm zone i) \<le> seq z (lock_path nm zone i)"
proof -
  let ?dir = "lock_path nm zone i"
  let ?p = "znode ?dir n"
  obtain rc z where z: "zoo_delete k ?p (ls_z s) = (rc, z)" by (cases "zoo_delete k ?p (ls_z s)")
  have "q \<notin> dom (nodes (ls_z s))" if iq: "in_dir ?p q" for q
  proof
    assume q: "q \<in> dom (nodes (ls_z s))"
    obtain r where r: "q = ?p @ CHR ''/'' # r" using iq by (auto simp: in_dir_def)
    then have "below_dir ?dir q" by (simp add: below_dir_def znode_def)
    then obtain m where "q = znode ?dir m" using q dir_stateD [OF d, of q] by auto
    then have "fmt010d (int m) = fmt010d (int n) @ CHR ''/'' # r" using r by (simp add: znode_def)
    then have "CHR ''/'' \<in> set (fmt010d (int m))" by simp
    then show False using fmt_no_slash by blast
  qed
  moreover have "?p \<in> dom (nodes (ls_z s))" using dir_stateD [OF d, of ?p] n by simp
  ultimately have rc: "rc = ZOK" and nd: "nodes z = (nodes (ls_z s))(?p := None)"
    using ok z unfolding zk_ok_def delete_law_def by blast+
  have u: "lk_unlock k (ls_cl s c) (ls_z s) = Some (Inr (\<lparr>lk_path = [], lk_at = L_idle\<rparr>, z))"
    using c z rc by (simp add: lk_unlock_def)
  have "seq (ls_z s) ?dir \<le> seq z ?dir"
    using lk_seq_mono [OF ok lk_free [OF u]] by simp
  then show ?thesis using lk_free [OF u] nd by blast
qed


lemma lost_state:
  assumes ok: "zk_ok k nodes seq" and nm: "lock_names nm zone i" and d0: "dir_state nodes seq nm zone i {} z"
    and b: "seq z (lock_path nm zone i) + 10 < 2 ^ 31" and cd: "c \<noteq> d"
  shows "\<exists>s m n. (lk_step k nodes seq nm zone i)\<^sup>*\<^sup>* (lk_init z) s \<and>
    ls_cl s c = \<lparr>lk_path = znode (lock_path nm zone i) n, lk_at = L_wait (znode (lock_path nm zone i) m) False\<rparr> \<and>
    no_lower nodes seq (lock_path nm zone i) n (ls_z s)"
proof -
  let ?dir = "lock_path nm zone i" and ?st = "lk_step k nodes seq nm zone i" and ?p = "znode (lock_path nm zone i)"
  let ?s0 = "lk_init z"
  let ?I = "\<lparr>lk_path = [], lk_at = L_idle\<rparr>"
  obtain m z1 where s1: "?st\<^sup>*\<^sup>* ?s0 \<lparr>ls_z = z1, ls_cl = (ls_cl ?s0)(d := \<lparr>lk_path = ?p m, lk_at = L_list\<rparr>)\<rparr>"
    and f1: "dir_state nodes seq nm zone i {m} z1" "seq z1 ?dir \<le> seq z ?dir + 3"
    using lk_join [OF ok nm, of "{}" ?s0 d] d0 b by (auto simp: lk_init_def)
  let ?s1 = "\<lparr>ls_z = z1, ls_cl = (ls_cl ?s0)(d := \<lparr>lk_path = ?p m, lk_at = L_list\<rparr>)\<rparr>"
  obtain n z2 where s2: "?st\<^sup>*\<^sup>* ?s1 \<lparr>ls_z = z2, ls_cl = (ls_cl ?s1)(c := \<lparr>lk_path = ?p n, lk_at = L_list\<rparr>)\<rparr>"
    and f2: "dir_state nodes seq nm zone i {n, m} z2" "?dir \<in> dom (nodes z2)" "m < n" "n < seq z2 ?dir" "seq z2 ?dir \<le> seq z1 ?dir + 3"
    using lk_join [OF ok nm, of "{m}" ?s1 c] f1 b cd by (auto simp: lk_init_def)
  let ?s2 = "\<lparr>ls_z = z2, ls_cl = (ls_cl ?s1)(c := \<lparr>lk_path = ?p n, lk_at = L_list\<rparr>)\<rparr>"
  have b2: "seq z2 ?dir < 2 ^ 31" using f1(2) f2(5) b by linarith
  have le: "m \<in> {n, m}" "\<forall>j\<in>{n, m}. m \<le> j" using f2(3) by auto
  obtain z3 where s3: "?st ?s2 \<lparr>ls_z = z3, ls_cl = (ls_cl ?s2)(d := \<lparr>lk_path = ?p m, lk_at = L_exists (?p m)\<rparr>)\<rparr>"
    and f3: "nodes z3 = nodes z2" "seq z3 = seq z2"
    using lk_look [OF ok nm, of "{n, m}" ?s2 m d "?p m"] f2(1,2) b2 le cd by auto
  let ?s3 = "\<lparr>ls_z = z3, ls_cl = (ls_cl ?s2)(d := \<lparr>lk_path = ?p m, lk_at = L_exists (?p m)\<rparr>)\<rparr>"
  obtain z4 where s4: "?st ?s3 \<lparr>ls_z = z4, ls_cl = (ls_cl ?s3)(d := \<lparr>lk_path = ?p m, lk_at = L_held\<rparr>)\<rparr>"
    and f4: "nodes z4 = nodes z2" "seq z4 = seq z2"
    using lk_check [OF ok, of ?s3 d "?p m" "?p m" nm zone i] f3 by auto
  let ?s4 = "\<lparr>ls_z = z4, ls_cl = (ls_cl ?s3)(d := \<lparr>lk_path = ?p m, lk_at = L_held\<rparr>)\<rparr>"
  have d4: "dir_state nodes seq nm zone i {n, m} z4" using f2(1) f4 by (simp add: dir_state_def)
  obtain z5 where s5: "?st ?s4 \<lparr>ls_z = z5, ls_cl = (ls_cl ?s4)(c := \<lparr>lk_path = ?p n, lk_at = L_exists (?p m)\<rparr>)\<rparr>"
    and f5: "nodes z5 = nodes z2" "seq z5 = seq z2"
    using lk_look [OF ok nm, of "{n, m}" ?s4 m c "?p n"] d4 f2(2) f4 b2 le cd by auto
  let ?s5 = "\<lparr>ls_z = z5, ls_cl = (ls_cl ?s4)(c := \<lparr>lk_path = ?p n, lk_at = L_exists (?p m)\<rparr>)\<rparr>"
  have d5: "dir_state nodes seq nm zone i {n, m} z5" using f2(1) f5 by (simp add: dir_state_def)
  obtain z6 where s6: "?st ?s5 \<lparr>ls_z = z6, ls_cl = (ls_cl ?s5)(d := ?I)\<rparr>"
    and f6: "nodes z6 = (nodes z2)(?p m := None)" "seq z2 ?dir \<le> seq z6 ?dir"
    using lk_drop [OF ok, of nm zone i "{n, m}" ?s5 m d] d5 f5 cd by auto
  let ?s6 = "\<lparr>ls_z = z6, ls_cl = (ls_cl ?s5)(d := ?I)\<rparr>"
  have "?p m \<notin> dom (nodes z6)" "?p n \<noteq> ?p m" using f6(1) f2(3) by auto
  then obtain z7 where s7: "?st ?s6 \<lparr>ls_z = z7, ls_cl = (ls_cl ?s6)(c := \<lparr>lk_path = ?p n, lk_at = L_wait (?p m) False\<rparr>)\<rparr>"
    and f7: "nodes z7 = nodes z6" "seq z7 = seq z6"
    using lk_check [OF ok, of ?s6 c "?p n" "?p m" nm zone i] cd by auto
  let ?s7 = "\<lparr>ls_z = z7, ls_cl = (ls_cl ?s6)(c := \<lparr>lk_path = ?p n, lk_at = L_wait (?p m) False\<rparr>)\<rparr>"
  have "nodes z2 (?p j) = None" if "j < n" "j \<noteq> m" for j
    using dir_stateD [OF f2(1), of "?p j"] that by (auto simp: domIff)
  then have lo: "no_lower nodes seq ?dir n z7" using f6 f7 f2(4) by (auto simp: no_lower_def)
  have "?st\<^sup>*\<^sup>* ?s0 ?s7"
    using s1 s2 s3 s4 s5 s6 s7 by (meson rtranclp.rtrancl_into_rtrancl rtranclp_trans)
  moreover have "ls_cl ?s7 c = \<lparr>lk_path = ?p n, lk_at = L_wait (?p m) False\<rparr>" by simp
  moreover have "no_lower nodes seq ?dir n (ls_z ?s7)" using lo by simp
  ultimately show ?thesis by blast
qed


text \<open>
  C37. A process that waits for the distributed lock can wait forever.  If the holder deletes its node after
  the process has listed the nodes and before it sets its watch, no event comes; the process stays
  first in the queue, so that nobody gets the lock any more.
\<close>

theorem zk_lock_lost_wakeup:
  assumes "zk_ok k nodes seq" and "lock_names nm zone i" and "dir_state nodes seq nm zone i {} z"
    and "seq z (lock_path nm zone i) + 10 < 2 ^ 31" and "c \<noteq> d"
  shows "\<exists>s p. (lk_step k nodes seq nm zone i)\<^sup>*\<^sup>* (lk_init z) s \<and> lk_at (ls_cl s c) = L_wait p False \<and>
    (\<forall>s'. (lk_step k nodes seq nm zone i)\<^sup>*\<^sup>* s s' \<and> seq (ls_z s') (lock_path nm zone i) < 2 ^ 31 \<longrightarrow>
       lk_at (ls_cl s' c) = L_wait p False \<and> (\<forall>e. lk_at (ls_cl s' e) \<noteq> L_held))"
proof -
  let ?dir = "lock_path nm zone i" and ?st = "lk_step k nodes seq nm zone i"
  obtain s m n where s: "?st\<^sup>*\<^sup>* (lk_init z) s"
    "ls_cl s c = \<lparr>lk_path = znode ?dir n, lk_at = L_wait (znode ?dir m) False\<rparr>" "no_lower nodes seq ?dir n (ls_z s)"
    using lost_state [OF assms] by blast
  have no: "nodes z p = None" if "in_dir ?dir p" for p
    using dir_stateD [OF assms(3), of p] in_dir_under [OF that] by (auto simp: domIff)
  have "lk_at (ls_cl s' c) = L_wait (znode ?dir m) False \<and> lk_at (ls_cl s' e) \<noteq> L_held"
    if s': "?st\<^sup>*\<^sup>* s s'" "seq (ls_z s') ?dir < 2 ^ 31" for s' e
  proof -
    have w: "ls_cl s' c = \<lparr>lk_path = znode ?dir n, lk_at = L_wait (znode ?dir m) False\<rparr>" "no_lower nodes seq ?dir n (ls_z s')"
      using lk_steps_stuck [OF assms(1) s' s(2) _ s(3)] by auto
    obtain S f where "lk_good nodes seq ?dir S f s'"
      using lk_reach_good [OF assms(1) no rtranclp_trans [OF s(1) s'(1)] s'(2)] by blast
    then show ?thesis using stuck_no_holder [of nodes seq ?dir S f s' c "znode ?dir m" n e] w by simp
  qed
  then show ?thesis using s(1,2) by (intro exI [of _ s] exI [of _ "znode ?dir m"]) auto
qed

definition sample_tree :: mem where
  "sample_tree = ([([], None), (''/MOLA'', Some ''ICT''), (''/MOLA/LOCKS'', Some ''0'')], 0)"

lemma digit_one: "nat_str 1 = ''1''"
  by code_simp

lemma sample_names_ok: "lock_names ''/MOLA'' ''z'' 1"
  using digit_one by (simp add: lock_names_def valid_path_def zone_path_def lock_path_def LOCK_ZNODE_def last_part_def)

lemma sample_tree_ok: "dir_state mem_nodes mem_seq ''/MOLA'' ''z'' 1 {} sample_tree"
  by (auto simp: dir_state_def sample_tree_def mem_nodes_def LOCK_ZNODE_def lock_path_def zone_path_def below_dir_def
      split: if_splits)

theorem zk_lock_lost_wakeup_witness:
  "\<exists>s p. (lk_step mem_zk mem_nodes mem_seq ''/MOLA'' ''z'' 1)\<^sup>*\<^sup>* (lk_init sample_tree) s \<and> lk_at (ls_cl s 1) = L_wait p False"
  using zk_lock_lost_wakeup [OF mem_zk_ok sample_names_ok sample_tree_ok, of 1 0]
  by (auto simp: mem_seq_def sample_tree_def)

lemma lk_solo:
  assumes ok: "zk_ok k nodes seq" and nm: "lock_names nm zone i" and d0: "dir_state nodes seq nm zone i {} z"
    and b: "seq z (lock_path nm zone i) + 10 < 2 ^ 31"
  shows "\<exists>s. (lk_step k nodes seq nm zone i)\<^sup>*\<^sup>* (lk_init z) s \<and> lk_at (ls_cl s c) = L_held \<and>
    seq (ls_z s) (lock_path nm zone i) < 2 ^ 31"
proof -
  let ?dir = "lock_path nm zone i" and ?st = "lk_step k nodes seq nm zone i" and ?p = "znode (lock_path nm zone i)"
  obtain n z1 where s1: "?st\<^sup>*\<^sup>* (lk_init z) \<lparr>ls_z = z1, ls_cl = (ls_cl (lk_init z))(c := \<lparr>lk_path = ?p n, lk_at = L_list\<rparr>)\<rparr>"
    and f1: "dir_state nodes seq nm zone i {n} z1" "?dir \<in> dom (nodes z1)" "seq z1 ?dir \<le> seq z ?dir + 3"
    using lk_join [OF ok nm, of "{}" "lk_init z" c] d0 b by (auto simp: lk_init_def)
  let ?s1 = "\<lparr>ls_z = z1, ls_cl = (ls_cl (lk_init z))(c := \<lparr>lk_path = ?p n, lk_at = L_list\<rparr>)\<rparr>"
  have b1: "seq z1 ?dir < 2 ^ 31" using f1(3) b by linarith
  obtain z2 where s2: "?st ?s1 \<lparr>ls_z = z2, ls_cl = (ls_cl ?s1)(c := \<lparr>lk_path = ?p n, lk_at = L_exists (?p n)\<rparr>)\<rparr>"
    and f2: "seq z2 = seq z1"
    using lk_look [OF ok nm, of "{n}" ?s1 n c "?p n"] f1 b1 by auto
  let ?s2 = "\<lparr>ls_z = z2, ls_cl = (ls_cl ?s1)(c := \<lparr>lk_path = ?p n, lk_at = L_exists (?p n)\<rparr>)\<rparr>"
  obtain z3 where s3: "?st ?s2 \<lparr>ls_z = z3, ls_cl = (ls_cl ?s2)(c := \<lparr>lk_path = ?p n, lk_at = L_held\<rparr>)\<rparr>"
    and f3: "seq z3 = seq z1"
    using lk_check [OF ok, of ?s2 c "?p n" "?p n" nm zone i] f2 by auto
  let ?s3 = "\<lparr>ls_z = z3, ls_cl = (ls_cl ?s2)(c := \<lparr>lk_path = ?p n, lk_at = L_held\<rparr>)\<rparr>"
  have "?st\<^sup>*\<^sup>* (lk_init z) ?s3" using s1 s2 s3 by (meson rtranclp.rtrancl_into_rtrancl)
  moreover have "lk_at (ls_cl ?s3 c) = L_held" "seq (ls_z ?s3) ?dir < 2 ^ 31" using b1 f3 by simp_all
  ultimately show ?thesis by blast
qed

theorem zk_lock_mutex_witness:
  "\<exists>s. (lk_step mem_zk mem_nodes mem_seq ''/MOLA'' ''z'' 1)\<^sup>*\<^sup>* (lk_init sample_tree) s \<and> lk_at (ls_cl s 0) = L_held \<and>
    (\<forall>d. lk_at (ls_cl s d) = L_held \<longrightarrow> 0 = d)"
proof -
  let ?st = "lk_step mem_zk mem_nodes mem_seq ''/MOLA'' ''z'' 1" and ?dir = "lock_path ''/MOLA'' ''z'' 1"
  obtain s where s: "?st\<^sup>*\<^sup>* (lk_init sample_tree) s" "lk_at (ls_cl s 0) = L_held" "mem_seq (ls_z s) ?dir < 2 ^ 31"
    using lk_solo [OF mem_zk_ok sample_names_ok sample_tree_ok, of 0] by (auto simp: mem_seq_def sample_tree_def)
  have no: "mem_nodes sample_tree p = None" if "in_dir ?dir p" for p
    using dir_stateD [OF sample_tree_ok, of p] in_dir_under [OF that] by (auto simp: domIff)
  show ?thesis using zk_lock_mutex [OF mem_zk_ok no s(1,3,2)] s(1,2) by blast
qed

end
