(* ===== verification/Zk_Modules.thy ===== *)
theory Zk_Modules
  imports Zk_Laws
begin

text \<open>
  Module identifiers in ZooKeeper (\<open>get_module_id\<close> and \<open>get_module_name\<close> of \<open>src/zookeeper.cpp\<close>): they are
  a registry as long as the calls of the engines do not overlap, and not when they do.
\<close>

section \<open>The registry in the tree\<close>

text \<open>
  The names \<open>R\<close> and the counter \<open>c\<close> that the tree holds; an engine may have some of the names in its
  cache.
\<close>

definition module_path :: "string \<Rightarrow> string \<Rightarrow> string" where
  "module_path nm name = MODULE_ZNODE nm @ CHR ''/'' # name"

definition reg_state ::
    "('z \<Rightarrow> string \<rightharpoonup> string option) \<Rightarrow> string \<Rightarrow> (string \<rightharpoonup> nat) \<Rightarrow> nat \<Rightarrow> 'z \<Rightarrow> bool" where
  "reg_state nodes nm R c z \<longleftrightarrow>
     nodes z (MODULE_ZNODE nm) = Some (Some (nat_str c)) \<and>
     (\<forall>n. CHR ''/'' \<notin> set n \<longrightarrow> nodes z (module_path nm n) = map_option (\<lambda>i. Some (nat_str i)) (R n)) \<and>
     (\<forall>n i. R n = Some i \<longrightarrow> i < c \<and> CHR ''/'' \<notin> set n \<and> length (module_path nm n) < 1024) \<and>
     c < 65535"

definition names_inj :: "(string \<rightharpoonup> nat) \<Rightarrow> bool" where
  "names_inj R \<longleftrightarrow> (\<forall>a b i. R a = Some i \<and> R b = Some i \<longrightarrow> a = b)"

definition cache_of :: "(string \<rightharpoonup> nat) \<Rightarrow> 'w zk_engine \<Rightarrow> bool" where
  "cache_of R e \<longleftrightarrow> (\<forall>(n, i)\<in>set (ze_modules e). \<exists>j. R n = Some j \<and> i = of_nat j)"

definition good_name :: "string \<Rightarrow> string \<Rightarrow> bool" where
  "good_name nm n \<longleftrightarrow> CHR ''/'' \<notin> set n \<and> valid_path (module_path nm n) \<and> length (module_path nm n) < 1024"

lemma reg_stateD:
  assumes "reg_state nodes nm R c z"
  shows "nodes z (MODULE_ZNODE nm) = Some (Some (nat_str c))" "c < 65535"
    and "CHR ''/'' \<notin> set n \<Longrightarrow> nodes z (module_path nm n) = map_option (\<lambda>i. Some (nat_str i)) (R n)"
    and "R n = Some i \<Longrightarrow> i < c \<and> CHR ''/'' \<notin> set n \<and> length (module_path nm n) < 1024"
  using assms by (auto simp: reg_state_def)

lemma reg_small: "reg_state nodes nm R c z \<Longrightarrow> R n = Some i \<Longrightarrow> i < 65535"
  using reg_stateD(2,4) [of nodes nm R c z] by (blast intro: less_trans)

section \<open>Reading numbers\<close>

lemma str_terminated: "n < 2 ^ 31 \<Longrightarrow> terminated (Some (nat_str n)) = Inr (nat_str n)"
proof -
  assume n: "n < 2 ^ 31"
  have "length (nat_str n) \<le> 10" using length_nat_str [of n 9] n by simp
  moreover have "c_str (nat_str n) = nat_str n"
  proof -
    have "CHR 0x00 \<notin> set (nat_str n)" using nat_str_digits [of "CHR 0x00" n] by (auto simp: is_digit_def)
    then show ?thesis by (auto simp: c_str_def takeWhile_eq_all_conv)
  qed
  ultimately show ?thesis by (simp add: terminated_def MAX_NODE_STR_LEN_def)
qed

lemma read_number:
  assumes ok: "zk_ok k nodes seq" and p: "nodes z p = Some (Some (nat_str n))" and n: "n < 2 ^ 31"
  shows "\<exists>z'. read_znode k p w z = Inr (nat_str n, z') \<and> stoul (nat_str n) = Inr (of_nat n) \<and> nodes z' = nodes z"
proof -
  obtain rc d z' where g: "zoo_get k p w z = (rc, d, z')" by (cases "zoo_get k p w z") auto
  have "p \<in> dom (nodes z)" using p by auto
  then have "rc = ZOK" "nodes z p = Some d" "nodes z' = nodes z"
    using ok g unfolding zk_ok_def read_law_def by blast+
  then show ?thesis using g p n str_terminated [OF n] stoul_str [of n] by (simp add: read_znode_def)
qed

lemma seq_read_state:
  assumes ok: "zk_ok k nodes seq" and r: "reg_state nodes nm R c z"
  shows "\<exists>z'. seq_read k (MODULE_ZNODE nm) z = Inr (of_nat c, z') \<and> nodes z' = nodes z"
proof -
  have "c < 2 ^ 31" using reg_stateD(2) [OF r] by simp
  then obtain z' where z': "read_znode k (MODULE_ZNODE nm) False z = Inr (nat_str c, z')" "stoul (nat_str c) = Inr (of_nat c)" "nodes z' = nodes z"
    using read_number [OF ok reg_stateD(1) [OF r], of False] by blast
  have "ucast (of_nat c :: u64) = (of_nat c :: u32)" using reg_stateD(2) [OF r] by (simp add: unsigned_of_nat take_bit_nat_eq_self)
  then show ?thesis using z' by (simp add: seq_read_def)
qed

lemma seq_write_state:
  assumes ok: "zk_ok k nodes seq" and m: "MODULE_ZNODE nm \<in> dom (nodes z)" and c: "c < 65535"
  shows "\<exists>z'. seq_write k (MODULE_ZNODE nm) (of_nat c) z = Inr z' \<and>
    nodes z' = (nodes z)(MODULE_ZNODE nm \<mapsto> Some (nat_str (c + 1)))"
proof -
  have u: "unat (of_nat c + 1 :: u32) = c + 1"
  proof -
    have "(of_nat c + 1 :: u32) = of_nat (c + 1)" by simp
    then show ?thesis using c by (simp only: unat_of_nat) simp
  qed
  obtain rc z' where s: "zoo_set k (MODULE_ZNODE nm) (nat_str (c + 1)) z = (rc, z')"
    by (cases "zoo_set k (MODULE_ZNODE nm) (nat_str (c + 1)) z")
  then have "rc = ZOK" "nodes z' = (nodes z)(MODULE_ZNODE nm \<mapsto> Some (nat_str (c + 1)))"
    using ok m unfolding zk_ok_def write_law_def by auto
  then show ?thesis using s by (simp add: seq_write_def u)
qed

lemma create_module_state:
  assumes ok: "zk_ok k nodes seq" and m: "MODULE_ZNODE nm \<in> dom (nodes z)" and n: "good_name nm name"
    and new: "nodes z (module_path nm name) = None" and c: "c < 65536"
  shows "\<exists>z'. create_module k nm name (of_nat c) z = Inr z' \<and>
    nodes z' = (nodes z)(module_path nm name \<mapsto> Some (nat_str c))"
proof -
  let ?p = "module_path nm name"
  have u: "unat (of_nat c :: u16) = c" using c by (simp add: unat_of_nat)
  obtain rc q z' where cr: "zoo_create k ?p (Some (nat_str c)) False z = (rc, q, z')"
    by (cases "zoo_create k ?p (Some (nat_str c)) False z") auto
  have "parent_of ?p = MODULE_ZNODE nm" "valid_path ?p" using n by (simp_all add: module_path_def good_name_def)
  then have "rc = ZOK" using ok cr m new unfolding zk_ok_def create_law_def by (metis domIff)
  then have "nodes z' = (nodes z)(?p \<mapsto> Some (nat_str c))" using ok cr unfolding zk_ok_def create_law_def by blast
  moreover have "into_buf (MODULE_ZNODE nm @ CHR ''/'' # name) = Inr ?p"
    using n by (simp add: good_name_def into_buf_def MAX_NODE_STR_LEN_def module_path_def)
  ultimately show ?thesis using cr \<open>rc = ZOK\<close> by (simp add: create_module_def u)
qed

section \<open>Searching\<close>

lemma module_children:
  assumes ok: "zk_ok k nodes seq" and r: "reg_state nodes nm R c z"
  shows "\<exists>cs z'. zoo_get_children k (MODULE_ZNODE nm) z = (ZOK, cs, z') \<and> nodes z' = nodes z \<and> distinct cs \<and>
    set cs = dom R \<and> FOR_EACH_ZNODE (MODULE_ZNODE nm) cs = map (module_path nm) (rev cs)"
proof -
  obtain rc cs z' where g: "zoo_get_children k (MODULE_ZNODE nm) z = (rc, cs, z')"
    by (cases "zoo_get_children k (MODULE_ZNODE nm) z") auto
  have "MODULE_ZNODE nm \<in> dom (nodes z)" using reg_stateD(1) [OF r] by auto
  then have f: "rc = ZOK" "nodes z' = nodes z" "distinct cs"
    "\<And>n. n \<in> set cs \<longleftrightarrow> CHR ''/'' \<notin> set n \<and> MODULE_ZNODE nm @ ''/'' @ n \<in> dom (nodes z)"
    using ok g unfolding zk_ok_def read_law_def by blast+
  have cs: "set cs = dom R"
  proof (intro set_eqI)
    fix n
    show "n \<in> set cs \<longleftrightarrow> n \<in> dom R"
    proof (cases "CHR ''/'' \<in> set n")
      case True
      then show ?thesis using f(4) [of n] reg_stateD(4) [OF r, of n] by auto
    next
      case False
      then show ?thesis using f(4) [of n] reg_stateD(3) [OF r False] by (auto simp: module_path_def domIff)
    qed
  qed
  have "take 1023 (module_path nm n) = module_path nm n" if nc: "n \<in> set cs" for n
  proof -
    obtain i where "R n = Some i" using nc cs by auto
    then have "length (module_path nm n) \<le> 1023" using reg_stateD(4) [OF r] by fastforce
    then show ?thesis by simp
  qed
  then have "FOR_EACH_ZNODE (MODULE_ZNODE nm) cs = map (module_path nm) (rev cs)"
    by (simp add: FOR_EACH_ZNODE_def MAX_NODE_STR_LEN_def module_path_def)
  then show ?thesis using g f cs by blast
qed

lemma small_u16: "i < 65535 \<Longrightarrow> ucast (of_nat i :: u64) = (of_nat i :: u16)"
  by (simp add: unsigned_of_nat take_bit_nat_eq_self)

lemma search_module_state:
  assumes ok: "zk_ok k nodes seq" and r: "reg_state nodes nm R c z"
    and ns: "distinct ns" "set ns \<subseteq> dom R" and z: "nodes z1 = nodes z"
  shows "\<exists>z'. search_module k name (map (module_path nm) ns) i z1 =
      Inr (if name \<in> set ns then of_nat (the (R name)) else i, z') \<and> nodes z' = nodes z"
  using ns z
proof (induction ns arbitrary: i z1)
  case (Cons n ns)
  obtain j where j: "R n = Some j" using Cons.prems(2) by auto
  note jj = reg_stateD(4) [OF r j]
  have lp: "last_part (module_path nm n) = n" using jj by (simp add: module_path_def)
  show ?case
  proof (cases "n = name")
    case True
    have "nodes z1 (module_path nm n) = Some (Some (nat_str j))" using reg_stateD(3) [OF r] jj j Cons.prems(3) by simp
    then obtain z2 where z2: "read_znode k (module_path nm n) True z1 = Inr (nat_str j, z2)" "stoul (nat_str j) = Inr (of_nat j)" "nodes z2 = nodes z1"
      using read_number [OF ok, of z1 _ j True] jj reg_stateD(2) [OF r] by fastforce
    have "name \<notin> set ns" using Cons.prems(1) True by simp
    moreover have "ucast (of_nat j :: u64) = (of_nat j :: u16)" using jj reg_stateD(2) [OF r] by (intro small_u16) simp
    ultimately show ?thesis using Cons.IH [of z2 "of_nat j"] Cons.prems z2 lp True j by auto
  next
    case False
    then show ?thesis using Cons.IH [of z1 i] Cons.prems lp by auto
  qed
qed simp

lemma search_name_state:
  assumes ok: "zk_ok k nodes seq" and r: "reg_state nodes nm R c z" and inj: "names_inj R" and a: "R a = Some i"
    and ns: "distinct ns" "set ns \<subseteq> dom R" and z: "nodes z1 = nodes z"
  shows "\<exists>z'. search_name k (of_nat i) (map (module_path nm) ns) s z1 = Inr (if a \<in> set ns then a else s, z') \<and> nodes z' = nodes z"
  using ns z
proof (induction ns arbitrary: s z1)
  case (Cons n ns)
  obtain j where j: "R n = Some j" using Cons.prems(2) by auto
  note jj = reg_stateD(4) [OF r j] and ii = reg_stateD(4) [OF r a] and cc = reg_stateD(2) [OF r]
  have lp: "last_part (module_path nm n) = n" using jj by (simp add: module_path_def)
  have "nodes z1 (module_path nm n) = Some (Some (nat_str j))" using reg_stateD(3) [OF r] jj j Cons.prems(3) by simp
  then obtain z2 where z2: "read_znode k (module_path nm n) False z1 = Inr (nat_str j, z2)" "stoul (nat_str j) = Inr (of_nat j)" "nodes z2 = nodes z1"
    using read_number [OF ok, of z1 _ j False] jj cc by fastforce
  have "unat (of_nat j :: u16) = j" "unat (of_nat i :: u16) = i" using jj ii cc by (simp_all add: unat_of_nat)
  then have "(of_nat j :: u16) = of_nat i \<longleftrightarrow> j = i" by metis
  moreover have "j = i \<longleftrightarrow> n = a" using inj j a by (auto simp: names_inj_def)
  moreover have "ucast (of_nat j :: u64) = (of_nat j :: u16)" using jj cc by (intro small_u16) simp
  moreover have "a \<notin> set ns" if "n = a" using Cons.prems(1) that by simp
  ultimately show ?case using Cons.IH [of z2 "if n = a then a else s"] Cons.prems z2 lp by auto
qed simp

section \<open>One call after the other\<close>

lemma name_insert_set: "set (name_insert s i xs) \<subseteq> insert (s, i) (set xs)"
  by (induction s i xs rule: name_insert.induct) auto

lemma module_path_facts [simp]:
  "module_path nm n \<noteq> MODULE_ZNODE nm" "MODULE_ZNODE nm \<noteq> module_path nm n" "module_path nm m = module_path nm n \<longleftrightarrow> m = n"
  by (simp_all add: module_path_def)

lemma lookup_module_state:
  assumes ok: "zk_ok k nodes seq" and r: "reg_state nodes nm R c z"
  shows "\<exists>z'. lookup_module k nm name z =
      Inr (case R name of None \<Rightarrow> invalid_module | Some i \<Rightarrow> of_nat i, z') \<and> nodes z' = nodes z"
proof -
  obtain cs z1 where c: "zoo_get_children k (MODULE_ZNODE nm) z = (ZOK, cs, z1)" "nodes z1 = nodes z" "distinct cs"
    "set cs = dom R" "FOR_EACH_ZNODE (MODULE_ZNODE nm) cs = map (module_path nm) (rev cs)"
    using module_children [OF ok r] by blast
  obtain z' where "search_module k name (map (module_path nm) (rev cs)) invalid_module z1 =
      Inr (if name \<in> set (rev cs) then of_nat (the (R name)) else invalid_module, z')" "nodes z' = nodes z"
    using search_module_state [OF ok r, of "rev cs" z1 name invalid_module] c by auto
  then show ?thesis using c by (cases "R name") (auto simp: lookup_module_def domIff)
qed

lemma reg_state_new:
  assumes r: "reg_state nodes nm R c z" and n: "good_name nm name" and c: "c + 1 < 65535"
    and z': "nodes z' = (nodes z)(MODULE_ZNODE nm \<mapsto> Some (nat_str (c + 1)), module_path nm name \<mapsto> Some (nat_str c))"
  shows "reg_state nodes nm (R(name \<mapsto> c)) (c + 1) z'"
proof -
  have "nodes z' (module_path nm m) = map_option (\<lambda>i. Some (nat_str i)) ((R(name \<mapsto> c)) m)" if "CHR ''/'' \<notin> set m" for m
    using reg_stateD(3) [OF r that] z' by simp
  moreover have "i < c + 1 \<and> CHR ''/'' \<notin> set m \<and> length (module_path nm m) < 1024" if "(R(name \<mapsto> c)) m = Some i" for m i
    using reg_stateD(4) [OF r, of m i] n that by (auto simp: good_name_def split: if_splits)
  ultimately show ?thesis using z' c unfolding reg_state_def by auto
qed

lemma names_inj_new: "names_inj R \<Longrightarrow> reg_state nodes nm R c z \<Longrightarrow> names_inj (R(name \<mapsto> c))"
  using reg_stateD(4) [of nodes nm R c z] by (fastforce simp: names_inj_def)

lemma cache_of_mono: "cache_of R e \<Longrightarrow> R \<subseteq>\<^sub>m R' \<Longrightarrow> cache_of R' e"
  by (fastforce simp: cache_of_def map_le_def dom_def)

lemma zk_get_module_id_state:
  assumes ok: "zk_ok k nodes seq" and r: "reg_state nodes nm R c z" and inj: "names_inj R"
    and e: "cache_of R e" "ze_nm e = nm" and n: "good_name nm name" and c: "c + 1 < 65535"
  shows "\<exists>i e' z' R' c'. zk_get_module_id k name True e z = Inr (of_nat i, e', z') \<and> R' name = Some i \<and> R \<subseteq>\<^sub>m R' \<and>
    reg_state nodes nm R' c' z' \<and> names_inj R' \<and> cache_of R' e' \<and> ze_nm e' = nm \<and> c' \<le> c + 1"
proof (cases "map_of (ze_modules e) name")
  case (Some i)
  then obtain j where j: "R name = Some j" "i = of_nat j" using e(1) map_of_SomeD [OF Some] by (auto simp: cache_of_def)
  have "zk_get_module_id k name True e z = Inr (of_nat j, e, z)" using Some j(2) by (simp add: zk_get_module_id_def)
  then show ?thesis using j r inj e le_add1 map_le_refl by blast
next
  case None
  obtain z1 where z1: "lookup_module k nm name z = Inr (case R name of None \<Rightarrow> invalid_module | Some i \<Rightarrow> of_nat i, z1)"
    "nodes z1 = nodes z" using lookup_module_state [OF ok r] by blast
  have r1: "reg_state nodes nm R c z1" using r z1(2) by (simp add: reg_state_def)
  show ?thesis
  proof (cases "R name")
    case (Some j)
    have "j < 65535" by (rule reg_small [OF r Some])
    then have "(of_nat j :: u16) \<noteq> invalid_module"
      using unat_u16 [of j] by (auto simp: invalid_module_def dest: arg_cong [of _ _ unat])
    then have "zk_get_module_id k name True e z = Inr (of_nat j, e, z1)"
      using None Some z1 e(2) by (simp add: zk_get_module_id_def)
    then show ?thesis using Some r1 inj e le_add1 map_le_refl by blast
  next
    case new: None
    obtain z2 where z2: "seq_read k (MODULE_ZNODE nm) z1 = Inr (of_nat c, z2)" "nodes z2 = nodes z"
      using seq_read_state [OF ok r1] z1(2) by auto
    have "MODULE_ZNODE nm \<in> dom (nodes z2)" using z2(2) reg_stateD(1) [OF r] by auto
    then obtain z3 where z3: "seq_write k (MODULE_ZNODE nm) (of_nat c) z2 = Inr z3"
      "nodes z3 = (nodes z)(MODULE_ZNODE nm \<mapsto> Some (nat_str (c + 1)))"
      using seq_write_state [OF ok, of nm z2 c] z2(2) c by auto
    have "nodes z3 (module_path nm name) = None"
      using z3(2) reg_stateD(3) [OF r, of name] new n by (simp add: good_name_def)
    then obtain z4 where z4: "create_module k nm name (of_nat c) z3 = Inr z4"
      "nodes z4 = (nodes z)(MODULE_ZNODE nm \<mapsto> Some (nat_str (c + 1)), module_path nm name \<mapsto> Some (nat_str c))"
      using create_module_state [OF ok _ n, of z3 c] z3(2) c by auto
    let ?e = "e\<lparr>ze_modules := name_insert name (of_nat c) (ze_modules e)\<rparr>"
    have "ucast (of_nat c :: u32) = (of_nat c :: u16)" using c by (simp add: unsigned_of_nat take_bit_nat_eq_self)
    then have "zk_get_module_id k name True e z = Inr (of_nat c, ?e, z4)"
      using None new z1 z2 z3 z4 e(2) by (simp add: zk_get_module_id_def get_and_inc_seq_num_def)
    moreover have le: "R \<subseteq>\<^sub>m R(name \<mapsto> c)" using new by (auto simp: map_le_def)
    moreover have "cache_of (R(name \<mapsto> c)) ?e"
      using cache_of_mono [OF e(1) le] name_insert_set [of name "of_nat c" "ze_modules e"] by (fastforce simp: cache_of_def)
    moreover have "(R(name \<mapsto> c)) name = Some c" "ze_nm ?e = nm" using e(2) by simp_all
    ultimately show ?thesis
      using reg_state_new [OF r n c z4(2)] names_inj_new [OF inj r, of name] le_refl by blast
  qed
qed

lemma u16_inj:
  assumes "i < 65535" "j < 65535" "(of_nat i :: u16) = of_nat j"
  shows "i = j"
proof -
  have "unat (of_nat i :: u16) = unat (of_nat j :: u16)" by (rule arg_cong [OF assms(3)])
  then show ?thesis unfolding unat_u16 [OF less_trans [OF assms(1)], simplified] unat_u16 [OF less_trans [OF assms(2)], simplified] .
qed

lemma find_in: "find P xs = Some x \<Longrightarrow> P x \<and> x \<in> set xs"
  by (induction xs) (auto split: if_splits)

lemma zk_get_module_name_state:
  assumes ok: "zk_ok k nodes seq" and r: "reg_state nodes nm R c z" and inj: "names_inj R"
    and e: "cache_of R e" "ze_nm e = nm" and a: "R a = Some i"
  shows "\<exists>z'. zk_get_module_name k (of_nat i) e z = Inr (a, z') \<and> nodes z' = nodes z"
proof (cases "find (\<lambda>(_, j). j = of_nat i) (ze_modules e)")
  case (Some p)
  then obtain b where b: "p = (b, of_nat i)" "(b, of_nat i) \<in> set (ze_modules e)"
    using find_in [OF Some] by (cases p) auto
  then obtain j where j: "R b = Some j" "(of_nat i :: u16) = of_nat j" using e(1) by (auto simp: cache_of_def)
  have "j < 65535" "i < 65535" using reg_small [OF r j(1)] reg_small [OF r a] by simp_all
  then have "i = j" using u16_inj j(2) by blast
  then have "b = a" using inj j(1) a by (auto simp: names_inj_def)
  then show ?thesis using Some b by (simp add: zk_get_module_name_def)
next
  case None
  obtain cs z1 where c: "zoo_get_children k (MODULE_ZNODE nm) z = (ZOK, cs, z1)" "nodes z1 = nodes z" "distinct cs"
    "set cs = dom R" "FOR_EACH_ZNODE (MODULE_ZNODE nm) cs = map (module_path nm) (rev cs)"
    using module_children [OF ok r] by blast
  then obtain z' where "search_name k (of_nat i) (map (module_path nm) (rev cs)) [] z1 = Inr (if a \<in> set (rev cs) then a else [], z')"
    "nodes z' = nodes z"
    using search_name_state [OF ok r inj a, of "rev cs" z1 "[]"] by auto
  then show ?thesis using None c a e(2) by (auto simp: zk_get_module_name_def)
qed

text \<open>A sequence of calls of \<open>get_module_id\<close>, each by one of the engines of the cluster.\<close>

fun reg_run ::
    "'z zk \<Rightarrow> (nat \<times> string) list \<Rightarrow> (nat \<Rightarrow> 'w zk_engine) \<Rightarrow> 'z \<Rightarrow> ((nat \<Rightarrow> 'w zk_engine) \<times> 'z) res" where
  "reg_run k [] E z = Inr (E, z)"
| "reg_run k ((w, n) # xs) E z =
     bind_res (zk_get_module_id k n True (E w) z) (\<lambda>(_, e, z). reg_run k xs (E(w := e)) z)"

lemma reg_run_state:
  assumes ok: "zk_ok k nodes seq" and r: "reg_state nodes nm R c z" and inj: "names_inj R"
    and E: "\<And>w. cache_of R (E w) \<and> ze_nm (E w) = nm" and ns: "\<forall>(w, n)\<in>set xs. good_name nm n"
    and len: "c + length xs < 65534"
  shows "\<exists>E' z' R' c'. reg_run k xs E z = Inr (E', z') \<and> reg_state nodes nm R' c' z' \<and> names_inj R' \<and>
    (\<forall>w. cache_of R' (E' w) \<and> ze_nm (E' w) = nm) \<and> R \<subseteq>\<^sub>m R' \<and> snd ` set xs \<subseteq> dom R' \<and> c' + 1 < 65535"
  using r inj E ns len
proof (induction xs arbitrary: R c z E)
  case Nil
  then show ?case using map_le_refl by (intro exI [of _ E] exI [of _ z] exI [of _ R] exI [of _ c]) auto
next
  case (Cons x xs)
  obtain w n where x: "x = (w, n)" by (cases x)
  have n: "good_name nm n" and c: "c + 1 < 65535" using Cons.prems(4,5) x by auto
  obtain i e' z' R' c' where s: "zk_get_module_id k n True (E w) z = Inr (of_nat i, e', z')" "R' n = Some i" "R \<subseteq>\<^sub>m R'"
    "reg_state nodes nm R' c' z'" "names_inj R'" "cache_of R' e'" "ze_nm e' = nm" "c' \<le> c + 1"
    using zk_get_module_id_state [OF ok Cons.prems(1,2) _ _ n c, of "E w"] Cons.prems(3) by blast
  have E': "cache_of R' ((E(w := e')) v) \<and> ze_nm ((E(w := e')) v) = nm" for v
    using s(6,7) cache_of_mono [OF _ s(3), of "E v"] Cons.prems(3) [of v] by simp
  have ns': "\<forall>(w, n)\<in>set xs. good_name nm n" and len': "c' + length xs < 65534" using Cons.prems(4,5) s(8) by auto
  obtain E'' z'' R'' c'' where t: "reg_run k xs (E(w := e')) z' = Inr (E'', z'')" "reg_state nodes nm R'' c'' z''" "names_inj R''"
    "\<forall>w. cache_of R'' (E'' w) \<and> ze_nm (E'' w) = nm" "R' \<subseteq>\<^sub>m R''" "snd ` set xs \<subseteq> dom R''" "c'' + 1 < 65535"
    using Cons.IH [where E = "E(w := e')", OF s(4,5) E' ns' len'] by blast
  have "n \<in> dom R''" using s(2) t(5) by (metis domI map_le_implies_dom_le subsetD)
  then have "snd ` set (x # xs) \<subseteq> dom R''" using t(6) x by simp
  moreover have "reg_run k (x # xs) E z = Inr (E'', z'')" using x s(1) t(1) by simp
  moreover have "R \<subseteq>\<^sub>m R''" using s(3) t(5) by (rule map_le_trans)
  ultimately show ?case using t(2-4,7) by blast
qed

text \<open>
  C38. Module identifiers are unique in the cluster if registrations do not overlap.  After any sequence
  of calls of \<open>get_module_id\<close> by any engines of the cluster, every name has one identifier on all
  engines, different names have different identifiers, and every engine finds the name from it.
\<close>

theorem zk_module_ids:
  fixes E :: "nat \<Rightarrow> 'w zk_engine"
  assumes "zk_ok k nodes seq" and "reg_state nodes nm Map.empty 0 z"
    and "\<And>w. ze_modules (E w) = [] \<and> ze_nm (E w) = nm" and "\<forall>(w, n)\<in>set xs. good_name nm n" and "length xs < 65534"
  shows "\<exists>E' z' ids. reg_run k xs E z = Inr (E', z') \<and> inj_on ids (snd ` set xs) \<and>
    (\<forall>w. \<forall>n\<in>snd ` set xs.
       (\<exists>e z''. zk_get_module_id k n True (E' w) z' = Inr (ids n, e, z'')) \<and>
       (\<exists>z''. zk_get_module_name k (ids n) (E' w) z' = Inr (n, z'')))"
proof -
  have "cache_of Map.empty (E w) \<and> ze_nm (E w) = nm" for w using assms(3) by (simp add: cache_of_def)
  moreover have "names_inj Map.empty" by (simp add: names_inj_def)
  ultimately obtain E' z' R c where s: "reg_run k xs E z = Inr (E', z')" "reg_state nodes nm R c z'" "names_inj R"
    "\<forall>w. cache_of R (E' w) \<and> ze_nm (E' w) = nm" "snd ` set xs \<subseteq> dom R" "c + 1 < 65535"
    using reg_run_state [OF assms(1,2), of E xs] assms(4,5) by auto
  let ?ids = "\<lambda>n. of_nat (the (R n)) :: u16"
  have "inj_on ?ids (snd ` set xs)"
  proof (rule inj_onI)
    fix a b assume a: "a \<in> snd ` set xs" "b \<in> snd ` set xs" "?ids a = ?ids b"
    then obtain i j where ij: "R a = Some i" "R b = Some j" using s(5) by blast
    then have "i < 65535" "j < 65535" using reg_small [OF s(2)] by blast+
    moreover have "(of_nat i :: u16) = of_nat j" using a(3) unfolding ij option.sel .
    ultimately have "i = j" by (rule u16_inj)
    then show "a = b" using s(3) ij by (auto simp: names_inj_def)
  qed
  moreover have "(\<exists>e z''. zk_get_module_id k n True (E' w) z' = Inr (?ids n, e, z'')) \<and>
      (\<exists>z''. zk_get_module_name k (?ids n) (E' w) z' = Inr (n, z''))" if n: "n \<in> snd ` set xs" for w n
  proof -
    obtain i where i: "R n = Some i" using n s(5) by blast
    have gn: "good_name nm n" using n assms(4) by auto
    obtain j e z'' R' where "zk_get_module_id k n True (E' w) z' = Inr (of_nat j, e, z'')" "R' n = Some j" "R \<subseteq>\<^sub>m R'"
      using zk_get_module_id_state [OF assms(1) s(2,3) _ _ gn s(6)] s(4) by blast
    moreover have "j = i" using calculation(2,3) i by (auto simp: map_le_def dom_def)
    ultimately show ?thesis
      using zk_get_module_name_state [OF assms(1) s(2,3) _ _ i] s(4) i by auto
  qed
  ultimately show ?thesis using s(1) by blast
qed

definition sample_engine :: "unit zk_engine" where
  "sample_engine =
     \<lparr>ze_nm = ''/MOLA'', ze_client = False, ze_up = True, ze_modules = [], ze_mgr = nm_init [] 0,
      ze_pool = \<lparr>p_tasks = Map.empty, p_events = [], p_stop = False\<rparr>, ze_local = sample_node\<rparr>"

definition sample_modules :: mem where
  "sample_modules = ([([], None), (''/MOLA'', Some ''ICT''), (''/MOLA/MODULES'', Some ''0'')], 0)"

lemma sample_modules_ok: "reg_state mem_nodes ''/MOLA'' Map.empty 0 sample_modules"
proof -
  have "nat_str 0 = ''0''" by code_simp
  then show ?thesis
    by (simp add: reg_state_def sample_modules_def mem_nodes_def MODULE_ZNODE_def module_path_def)
qed

lemma sample_good_names: "good_name ''/MOLA'' ''A''" "good_name ''/MOLA'' ''B''"
  by (simp_all add: good_name_def valid_path_def module_path_def MODULE_ZNODE_def last_part_def)

theorem zk_module_ids_witness:
  "\<exists>E' z' ids. reg_run mem_zk [(0, ''A''), (1, ''B''), (1, ''A'')] (\<lambda>_. sample_engine) sample_modules = Inr (E', z') \<and>
    ids ''A'' \<noteq> ids ''B'' \<and> (\<exists>z''. zk_get_module_name mem_zk (ids ''A'') (E' 1) z' = Inr (''A'', z''))"
proof -
  let ?xs = "[(0, ''A''), (1, ''B''), (1, ''A'')]"
  obtain E' z' ids where r: "reg_run mem_zk ?xs (\<lambda>_. sample_engine) sample_modules = Inr (E', z')"
    and i: "inj_on ids (snd ` set ?xs)"
    and n: "\<forall>w. \<forall>n\<in>snd ` set ?xs. (\<exists>e z''. zk_get_module_id mem_zk n True (E' w) z' = Inr (ids n, e, z'')) \<and>
       (\<exists>z''. zk_get_module_name mem_zk (ids n) (E' w) z' = Inr (n, z''))"
    using zk_module_ids [OF mem_zk_ok sample_modules_ok, of "\<lambda>_. sample_engine" ?xs] sample_good_names
    by (auto simp: sample_engine_def)
  have "ids ''A'' \<noteq> ids ''B''" using inj_onD [OF i, of "''A''" "''B''"] by auto
  moreover have "\<exists>z''. zk_get_module_name mem_zk (ids ''A'') (E' 1) z' = Inr (''A'', z'')"
    using n [THEN spec, of 1, THEN bspec, of "''A''"] by simp
  ultimately show ?thesis using r by blast
qed

section \<open>Calls that overlap\<close>

text \<open>\<open>get_module_id\<close> of a name that is in no cache, call by call.\<close>

datatype mr_pc = M_lookup | M_read | M_write u32 | M_create u32 | M_done u16

definition mr_exec :: "'z zk \<Rightarrow> string \<Rightarrow> string \<Rightarrow> mr_pc \<Rightarrow> 'z \<Rightarrow> (mr_pc \<times> 'z) res option" where
  "mr_exec k nm name pc z =
     (case pc of
        M_lookup \<Rightarrow>
          Some (bind_res (lookup_module k nm name z) (\<lambda>(i, z). Inr (if i = invalid_module then M_read else M_done i, z)))
      | M_read \<Rightarrow> Some (bind_res (seq_read k (MODULE_ZNODE nm) z) (\<lambda>(i, z). Inr (M_write i, z)))
      | M_write i \<Rightarrow> Some (bind_res (seq_write k (MODULE_ZNODE nm) i z) (\<lambda>z. Inr (M_create i, z)))
      | M_create i \<Rightarrow> Some (bind_res (create_module k nm name (ucast i) z) (\<lambda>z. Inr (M_done (ucast i), z)))
      | M_done i \<Rightarrow> None)"

inductive mr_step ::
    "'z zk \<Rightarrow> string \<Rightarrow> (nat \<Rightarrow> string) \<Rightarrow> (nat \<Rightarrow> mr_pc) \<times> 'z \<Rightarrow> (nat \<Rightarrow> mr_pc) \<times> 'z \<Rightarrow> bool"
  for k nm names where
  mr_call: "mr_exec k nm (names w) (pc w) z = Some (Inr (p, z')) \<Longrightarrow> mr_step k nm names (pc, z) (pc(w := p), z')"

lemma mr_call2: "mr_exec k nm (names w) (pc w) z = Some (Inr (p, z')) \<Longrightarrow> pc' = pc(w := p) \<Longrightarrow> mr_step k nm names (pc, z) (pc', z')"
  by (simp add: mr_call)

text \<open>Without interruption the steps are those of \<open>get_module_id\<close>.\<close>

lemma zk_get_module_id_steps:
  assumes "zk_get_module_id k (names w) True e z = Inr (i, e', z')" "map_of (ze_modules e) (names w) = None"
  shows "(mr_step k (ze_nm e) names)\<^sup>*\<^sup>* (pc(w := M_lookup), z) (pc(w := M_done i), z')"
proof -
  let ?st = "mr_step k (ze_nm e) names"
  obtain j z1 where l: "lookup_module k (ze_nm e) (names w) z = Inr (j, z1)"
    using assms by (auto simp: zk_get_module_id_def bind_res_Inr_iff)
  show ?thesis
  proof (cases "j = invalid_module")
    case False
    then have "i = j" "z' = z1" using assms l by (auto simp: zk_get_module_id_def)
    then have "?st (pc(w := M_lookup), z) (pc(w := M_done i), z')"
      using l False by (intro mr_call2 [where w = w]) (simp_all add: mr_exec_def)
    then show ?thesis by simp
  next
    case True
    obtain n z2 z3 where r: "seq_read k (MODULE_ZNODE (ze_nm e)) z1 = Inr (n, z2)"
      "seq_write k (MODULE_ZNODE (ze_nm e)) n z2 = Inr z3" "create_module k (ze_nm e) (names w) (ucast n) z3 = Inr z'" "i = ucast n"
      using assms l True by (auto simp: zk_get_module_id_def get_and_inc_seq_num_def bind_res_Inr_iff)
    have "?st (pc(w := M_lookup), z) (pc(w := M_read), z1)"
      using l True by (intro mr_call2 [where w = w]) (simp_all add: mr_exec_def)
    moreover have "?st (pc(w := M_read), z1) (pc(w := M_write n), z2)"
      using r(1) by (intro mr_call2 [where w = w]) (simp_all add: mr_exec_def)
    moreover have "?st (pc(w := M_write n), z2) (pc(w := M_create n), z3)"
      using r(2) by (intro mr_call2 [where w = w]) (simp_all add: mr_exec_def)
    moreover have "?st (pc(w := M_create n), z3) (pc(w := M_done i), z')"
      using r(3,4) by (intro mr_call2 [where w = w]) (simp_all add: mr_exec_def)
    ultimately show ?thesis by (meson converse_rtranclp_into_rtranclp rtranclp.rtrancl_refl)
  qed
qed

lemma mr_begin:
  assumes ok: "zk_ok k nodes seq" and r: "reg_state nodes nm R c z" and n: "R (names w) = None" and p: "pc w = M_lookup"
  shows "\<exists>z'. (mr_step k nm names)\<^sup>*\<^sup>* (pc, z) (pc(w := M_write (of_nat c)), z') \<and> nodes z' = nodes z"
proof -
  obtain z1 where z1: "lookup_module k nm (names w) z = Inr (invalid_module, z1)" "nodes z1 = nodes z"
    using lookup_module_state [OF ok r, of "names w"] n by auto
  have "reg_state nodes nm R c z1" using r z1(2) by (simp add: reg_state_def)
  then obtain z2 where z2: "seq_read k (MODULE_ZNODE nm) z1 = Inr (of_nat c, z2)" "nodes z2 = nodes z1"
    using seq_read_state [OF ok] by blast
  have "mr_step k nm names (pc, z) (pc(w := M_read), z1)"
    using z1(1) p by (intro mr_call) (simp add: mr_exec_def)
  moreover have "mr_step k nm names (pc(w := M_read), z1) (pc(w := M_write (of_nat c)), z2)"
    using z2(1) by (intro mr_call2 [where w = w]) (simp_all add: mr_exec_def)
  ultimately show ?thesis using z1(2) z2(2) by (metis converse_rtranclp_into_rtranclp r_into_rtranclp)
qed

lemma mr_end:
  assumes ok: "zk_ok k nodes seq" and m: "MODULE_ZNODE nm \<in> dom (nodes z)" and n: "good_name nm (names w)"
    and new: "nodes z (module_path nm (names w)) = None" and c: "c < 65535" and p: "pc w = M_write (of_nat c)"
  shows "\<exists>z'. (mr_step k nm names)\<^sup>*\<^sup>* (pc, z) (pc(w := M_done (of_nat c)), z') \<and>
    nodes z' = (nodes z)(MODULE_ZNODE nm \<mapsto> Some (nat_str (c + 1)), module_path nm (names w) \<mapsto> Some (nat_str c))"
proof -
  obtain z1 where z1: "seq_write k (MODULE_ZNODE nm) (of_nat c) z = Inr z1"
    "nodes z1 = (nodes z)(MODULE_ZNODE nm \<mapsto> Some (nat_str (c + 1)))"
    using seq_write_state [OF ok m c] by blast
  have u: "ucast (of_nat c :: u32) = (of_nat c :: u16)" using c by (simp add: unsigned_of_nat take_bit_nat_eq_self)
  obtain z2 where z2: "create_module k nm (names w) (of_nat c) z1 = Inr z2"
    "nodes z2 = (nodes z1)(module_path nm (names w) \<mapsto> Some (nat_str c))"
    using create_module_state [OF ok _ n, of z1 c] z1(2) new c by auto
  have "mr_step k nm names (pc, z) (pc(w := M_create (of_nat c)), z1)"
    using z1(1) p by (intro mr_call) (simp add: mr_exec_def)
  moreover have "mr_step k nm names (pc(w := M_create (of_nat c)), z1) (pc(w := M_done (of_nat c)), z2)"
    using z2(1) u by (intro mr_call2 [where w = w]) (simp_all add: mr_exec_def)
  ultimately show ?thesis using z1(2) z2(2) by (metis converse_rtranclp_into_rtranclp r_into_rtranclp)
qed

text \<open>
  C39. Registrations that overlap can give two modules the same identifier: the counter is read and written
  in two calls, and the second does not check that nothing happened in between.
\<close>

theorem zk_module_race:
  assumes "zk_ok k nodes seq" and "reg_state nodes nm R c z" and "c + 1 < 65535" and "v \<noteq> w"
    and "names v \<noteq> names w" and "R (names v) = None" and "R (names w) = None"
    and "good_name nm (names v)" and "good_name nm (names w)"
  shows "\<exists>pc z'. (mr_step k nm names)\<^sup>*\<^sup>* (\<lambda>_. M_lookup, z) (pc, z') \<and>
    pc v = M_done (of_nat c) \<and> pc w = M_done (of_nat c)"
proof -
  let ?st = "mr_step k nm names" and ?W = "M_write (of_nat c)" and ?D = "M_done (of_nat c)"
  let ?p0 = "\<lambda>_. M_lookup"
  have r0: "reg_state nodes nm R c z1" if "nodes z1 = nodes z" for z1 using assms(2) that by (simp add: reg_state_def)
  have no: "nodes z (module_path nm (names v)) = None" "nodes z (module_path nm (names w)) = None"
    using reg_stateD(3) [OF assms(2)] assms(6-9) by (simp_all add: good_name_def)
  have m: "MODULE_ZNODE nm \<in> dom (nodes z)" using reg_stateD(1) [OF assms(2)] by auto
  obtain z1 where z1: "?st\<^sup>*\<^sup>* (?p0, z) (?p0(v := ?W), z1)" "nodes z1 = nodes z"
    using mr_begin [where w = v and names = names and pc = ?p0, OF assms(1,2,6)] by auto
  obtain z2 where z2: "?st\<^sup>*\<^sup>* (?p0(v := ?W), z1) (?p0(v := ?W, w := ?W), z2)" "nodes z2 = nodes z"
    using mr_begin [where w = w and names = names and pc = "?p0(v := ?W)", OF assms(1) r0 [OF z1(2)] assms(7)] z1(2) assms(4) by auto
  obtain z3 where z3: "?st\<^sup>*\<^sup>* (?p0(v := ?W, w := ?W), z2) (?p0(v := ?W, w := ?W, v := ?D), z3)"
    "nodes z3 = (nodes z)(MODULE_ZNODE nm \<mapsto> Some (nat_str (c + 1)), module_path nm (names v) \<mapsto> Some (nat_str c))"
    using mr_end [where w = v and names = names and pc = "?p0(v := ?W, w := ?W)" and z = z2 and c = c, OF assms(1) _ assms(8)]
      z2(2) no m assms(3,4) by auto
  obtain z4 where z4: "?st\<^sup>*\<^sup>* (?p0(v := ?W, w := ?W, v := ?D), z3) (?p0(v := ?W, w := ?W, v := ?D, w := ?D), z4)"
    using mr_end [where w = w and names = names and pc = "?p0(v := ?W, w := ?W, v := ?D)" and z = z3 and c = c, OF assms(1) _ assms(9)]
      z3(2) no assms(3,4,5) by auto
  have "?st\<^sup>*\<^sup>* (?p0, z) (?p0(v := ?W, w := ?W, v := ?D, w := ?D), z4)"
    using z1(1) z2(1) z3(1) z4 by (meson rtranclp_trans)
  then show ?thesis using assms(4) by (intro exI [of _ "?p0(v := ?W, w := ?W, v := ?D, w := ?D)"] exI [of _ z4]) simp
qed

theorem zk_module_race_witness:
  "\<exists>pc z'. (mr_step mem_zk ''/MOLA'' (\<lambda>w. if w = 0 then ''A'' else ''B''))\<^sup>*\<^sup>* (\<lambda>_. M_lookup, sample_modules) (pc, z') \<and>
    pc 0 = M_done 0 \<and> pc 1 = M_done 0"
  using zk_module_race [OF mem_zk_ok sample_modules_ok, of 0 1 "\<lambda>w. if w = 0 then ''A'' else ''B''"] sample_good_names
  by simp

end
