(* ===== verification/Zk_Nodes.thy ===== *)
theory Zk_Nodes
  imports Zk_Modules
begin

text \<open>
  Joining a cluster (\<open>connect\<close>, \<open>join\<close> and \<open>_find_node\<close> of \<open>src/zookeeper.cpp\<close>): a node that has joined is
  found by the others, with its address and its public modules; and what can go wrong.
\<close>

section \<open>Numbers of nodes\<close>

lemma sint_u32_nat: "n < 2 ^ 31 \<Longrightarrow> sint (of_nat n :: u32) = int n"
  by (simp add: sint_uint unsigned_of_nat signed_take_bit_int_eq_self take_bit_nat_eq_self)

lemma join_id_values:
  "join_id False (int n) = of_nat (n + 1)" "join_id True (int n) = of_nat (n + 65536)"
  by (simp_all add: join_id_def ZKID_TO_NODEID_def ZKID_TO_CLIENTID_def)

definition join_number :: "bool \<Rightarrow> nat \<Rightarrow> bool" where
  "join_number client n \<longleftrightarrow> (if client then n + 65536 < 2 ^ 31 else n < 65534)"

lemma join_id_unat: "join_number client n \<Longrightarrow> unat (join_id client (int n)) = (if client then n + 65536 else n + 1)"
  by (cases client) (simp_all add: join_id_values join_number_def unat_of_nat del: of_nat_add of_nat_Suc)

lemma join_id_path:
  assumes "join_number client n"
  shows "(if IS_CLIENT_ID (join_id client (int n)) then client_path else node_path) nm (join_id client (int n)) =
    (if client then CLIENT_ZNODE nm else NODE_ZNODE nm) @ CHR ''/'' # fmt010d (int n)"
    and "join_id client (int n) \<noteq> ANY" "join_id client (int n) \<noteq> LOCAL"
proof -
  let ?i = "join_id client (int n)"
  have u: "unat ?i = (if client then n + 65536 else n + 1)" by (rule join_id_unat [OF assms])
  have c: "IS_CLIENT_ID ?i \<longleftrightarrow> client"
    using u assms by (auto simp: IS_CLIENT_ID_def word_le_nat_alt join_number_def split: if_splits)
  have "CLIENTID_TO_ZKID (join_id True (int n)) = of_nat n" "NODEID_TO_ZKID (join_id False (int n)) = of_nat n"
    by (simp_all add: join_id_values CLIENTID_TO_ZKID_def NODEID_TO_ZKID_def)
  moreover have "sint (of_nat n :: u32) = int n" using assms by (intro sint_u32_nat) (simp add: join_number_def split: if_splits)
  ultimately show "(if IS_CLIENT_ID ?i then client_path else node_path) nm ?i =
      (if client then CLIENT_ZNODE nm else NODE_ZNODE nm) @ CHR ''/'' # fmt010d (int n)"
    unfolding c by (cases client) (simp_all add: client_path_def node_path_def)
  show "?i \<noteq> ANY" using u assms by (auto simp: ANY_def join_number_def dest: arg_cong [of _ _ unat] split: if_splits)
  show "?i \<noteq> LOCAL" using u by (auto simp: LOCAL_def dest: arg_cong [of _ _ unat] split: if_splits)
qed

text \<open>A cluster that has numbered too many nodes gives a node the identifier of a client.\<close>

lemma join_ids_clash: "join_id False (int (n + 65535)) = join_id True (int n)"
  unfolding join_id_values by simp

section \<open>The description of a node\<close>

lemma encode_no_nul: "CHR 0x00 \<notin> set (n_ip n) \<Longrightarrow> CHR 0x00 \<notin> set (encode n)"
proof -
  assume "CHR 0x00 \<notin> set (n_ip n)"
  moreover have "CHR 0x00 \<notin> set (nat_str m)" for m
    using nat_str_digits [of "CHR 0x00" m] by (auto simp: is_digit_def)
  ultimately show ?thesis by (auto simp: encode_def split: prod.splits if_splits)
qed

lemma encode_nonempty [simp]: "encode n \<noteq> []"
  by (simp add: encode_def)

lemma terminated_encode:
  assumes "CHR 0x00 \<notin> set (n_ip n)" "length (encode n) < 1024"
  shows "terminated (Some (encode n)) = Inr (encode n)"
proof -
  have "c_str (encode n) = encode n"
    using encode_no_nul [OF assms(1)] by (auto simp: c_str_def takeWhile_eq_all_conv)
  then show ?thesis using assms(2) by (simp add: terminated_def MAX_NODE_STR_LEN_def)
qed

lemma name_modules_state:
  assumes ok: "zk_ok k nodes seq" and r: "reg_state nodes nm R c z" and inj: "names_inj R"
    and e: "cache_of R e" "ze_nm e = nm" and ms: "\<forall>(s, m, pub)\<in>set ms. R s = Some (unat m)" and z: "nodes z1 = nodes z"
  shows "\<exists>z'. name_modules k e (map (\<lambda>(_, m, _). ([], m, True)) ms) z1 = Inr (map (\<lambda>(s, m, _). (s, m, True)) ms, z')"
  using ms z
proof (induction ms arbitrary: z1)
  case (Cons x ms)
  obtain s m p where x: "x = (s, m, p)" by (cases x)
  have r1: "reg_state nodes nm R c z1" using r Cons.prems(2) by (simp add: reg_state_def)
  have "R s = Some (unat m)" using Cons.prems(1) x by auto
  then obtain z2 where z2: "zk_get_module_name k m e z1 = Inr (s, z2)" "nodes z2 = nodes z1"
    using zk_get_module_name_state [OF ok r1 inj e, of s "unat m"] by auto
  have "\<forall>(s, m, pub)\<in>set ms. R s = Some (unat m)" using Cons.prems(1) by auto
  then obtain z' where "name_modules k e (map (\<lambda>(_, m, _). ([], m, True)) ms) z2 = Inr (map (\<lambda>(s, m, _). (s, m, True)) ms, z')"
    using Cons.IH [of z2] z2(2) Cons.prems(2) by auto
  then show ?case using z2(1) x by simp
qed simp

section \<open>Properties\<close>

definition local_ok :: "(string \<rightharpoonup> nat) \<Rightarrow> node \<Rightarrow> bool" where
  "local_ok R n \<longleftrightarrow>
     n_ip n \<noteq> [] \<and> (\<forall>c\<in>set (n_ip n). \<not> is_space c) \<and> CHR 0x00 \<notin> set (n_ip n) \<and> length (encode n) < 1024 \<and>
     (\<forall>(s, m, pub)\<in>set (n_modules n). R s = Some (unat m))"

definition public :: "node \<Rightarrow> (string \<times> u16 \<times> bool) list" where
  "public n = filter (\<lambda>(_, _, pub). pub) (n_modules n)"

lemma join_node_state:
  assumes ok: "zk_ok k nodes seq" and d: "join_dir e \<in> dom (nodes z)" "valid_path (join_dir e)"
    and new: "\<forall>n\<ge>seq z (join_dir e). join_dir e @ ''/'' @ fmt010d (int n) \<notin> dom (nodes z)"
    and b: "join_number (ze_client e) (seq z (join_dir e))"
  shows "\<exists>n e' z'. join_node k e z = Inr (0, e', z') \<and> join_number (ze_client e) n \<and>
    ze_local e' = (ze_local e)\<lparr>n_id := join_id (ze_client e) (int n)\<rparr> \<and>
    nodes z' = (nodes z)(join_dir e @ CHR ''/'' # fmt010d (int n) \<mapsto> Some (encode (ze_local e)))"
proof -
  let ?d = "join_dir e" and ?info = "Some (encode (ze_local e))"
  obtain rc q z' where c: "zoo_create k (?d @ ''/'') ?info True z = (rc, q, z')"
    by (cases "zoo_create k (?d @ ''/'') ?info True z") auto
  have rc: "rc = ZOK" using ok c d new unfolding zk_ok_def sequence_law_def by blast
  then obtain n where n: "nodes z' = (nodes z)(q \<mapsto> ?info)" "seq z ?d \<le> n" "n < seq z' ?d"
    "n < 2 ^ 31 \<longrightarrow> q = ?d @ ''/'' @ fmt010d (int n)"
    using ok c unfolding zk_ok_def sequence_law_def by blast
  have "seq z' ?d \<in> {seq z ?d, seq z ?d + 1}"
    using ok c unfolding zk_ok_def counter_law_def by (metis snd_conv)
  then have "n = seq z ?d" using n(2,3) by auto
  then have j: "join_number (ze_client e) n" and n31: "n < 2 ^ 31" using b by (auto simp: join_number_def split: if_splits)
  have q: "q = ?d @ CHR ''/'' # fmt010d (int n)" using n(4) n31 by simp
  let ?node = "(ze_local e)\<lparr>n_id := join_id (ze_client e) (int n)\<rparr>"
  have "join_node k e z = Inr (0, e\<lparr>ze_local := ?node, ze_mgr := snd (update_cached_node ?node (ze_mgr e))\<rparr>, z')"
    using c rc q scan_fmt [OF n31] by (simp add: join_node_def Let_def)
  then show ?thesis using n(1) q j by (intro exI [of _ n] exI [of _ "e\<lparr>ze_local := ?node, ze_mgr := _\<rparr>"] exI [of _ z']) simp
qed

text \<open>
  C40. A node or a client that has joined the cluster is found by every other engine under its identifier,
  with its address, protocol and byte order and exactly its public modules, under the names they were
  registered with.
\<close>

theorem join_visible:
  fixes e :: "'w zk_engine" and other :: "'v zk_engine"
  assumes "zk_ok k nodes seq" and "join_dir e \<in> dom (nodes z)" "valid_path (join_dir e)"
    and "\<forall>n\<ge>seq z (join_dir e). join_dir e @ ''/'' @ fmt010d (int n) \<notin> dom (nodes z)"
    and "join_number (ze_client e) (seq z (join_dir e))" and "local_ok R (ze_local e)"
    and "reg_state nodes (ze_nm e) R c z" "names_inj R" "cache_of R other" "ze_nm other = ze_nm e"
  shows "\<exists>e' z' z''. join_node k e z = Inr (0, e', z') \<and>
    zk_find_node k junk (n_id (ze_local e')) other z' =
      Inr (Some ((ze_local e')\<lparr>n_modules := public (ze_local e)\<rparr>), z'')"
proof -
  let ?l = "ze_local e" and ?nm = "ze_nm e"
  obtain n e' z' where j: "join_node k e z = Inr (0, e', z')" "join_number (ze_client e) n"
    "ze_local e' = ?l\<lparr>n_id := join_id (ze_client e) (int n)\<rparr>"
    "nodes z' = (nodes z)(join_dir e @ CHR ''/'' # fmt010d (int n) \<mapsto> Some (encode ?l))"
    using join_node_state [OF assms(1-5)] by blast
  let ?i = "join_id (ze_client e) (int n)"
  let ?p = "join_dir e @ CHR ''/'' # fmt010d (int n)"
  have path: "(if IS_CLIENT_ID ?i then client_path else node_path) ?nm ?i = ?p"
    using join_id_path(1) [OF j(2), of ?nm] unfolding join_dir_def by simp
  obtain rc d z1 where g: "zoo_get k ?p True z' = (rc, d, z1)" by (cases "zoo_get k ?p True z'") auto
  have "?p \<in> dom (nodes z')" "nodes z' ?p = Some (Some (encode ?l))" using j(4) by auto
  then have g1: "rc = ZOK" "d = Some (encode ?l)" "nodes z1 = nodes z'"
    using assms(1) g unfolding zk_ok_def read_law_def by (blast, metis option.inject, blast)
  have "nodes z' (module_path ?nm m) = nodes z (module_path ?nm m)" "nodes z' (MODULE_ZNODE ?nm) = nodes z (MODULE_ZNODE ?nm)" for m
    using j(4) by (auto simp: join_dir_def module_path_def MODULE_ZNODE_def CLIENT_ZNODE_def NODE_ZNODE_def split: if_splits)
  then have r: "reg_state nodes ?nm R c z1" using assms(7) g1(3) by (simp add: reg_state_def)
  let ?ms = "map (\<lambda>(_, m, _). ([], m, True)) (public ?l)"
  have dec: "decode (\<lambda>_. []) junk ?i (encode ?l) = ?l\<lparr>n_id := ?i, n_modules := ?ms\<rparr>"
    using node_roundtrip [of ?l "\<lambda>_. []" junk ?i] assms(6) by (simp add: local_ok_def public_def)
  have regs: "\<forall>(s, m, pub)\<in>set (public ?l). R s = Some (unat m)"
    using assms(6) unfolding local_ok_def public_def by force
  obtain z2 where z2: "name_modules k other ?ms z1 = Inr (map (\<lambda>(s, m, _). (s, m, True)) (public ?l), z2)"
    using name_modules_state [OF assms(1) r assms(8-10) regs refl] by blast
  have pub: "map (\<lambda>(s, m, _). (s, m, True)) (public ?l) = public ?l"
    by (rule map_idI) (auto simp: public_def)
  have "terminated (Some (encode ?l)) = Inr (encode ?l)" using terminated_encode assms(6) by (simp add: local_ok_def)
  then have "zk_find_node k junk ?i other z' = Inr (Some (?l\<lparr>n_id := ?i, n_modules := public ?l\<rparr>), z2)"
    using join_id_path(2,3) [OF j(2)] path g g1 dec z2 pub assms(10) by (simp add: zk_find_node_def Let_def)
  then show ?thesis using j(1,3) by (intro exI [of _ e'] exI [of _ z'] exI [of _ z2]) simp
qed

text \<open>
  The root of the cluster is created before its directories, and whoever finds the root takes the
  directories for granted: an engine that connects in between, or after the first one has ended there,
  succeeds and then fails an assertion when it joins.
\<close>

theorem connect_race:
  assumes "zk_ok k nodes seq" and "ze_nm e \<in> dom (nodes z)" "valid_path (ze_nm e)" and "join_dir e \<notin> dom (nodes z)"
  shows "\<exists>z'. connect_tree k (ze_nm e) False z = Inr (ZOK, z') \<and> join_node k e z' = Inl Assert_failed"
proof -
  obtain rc q z' where c: "zoo_create k (ze_nm e) (Some ''ICT'') False z = (rc, q, z')"
    by (cases "zoo_create k (ze_nm e) (Some ''ICT'') False z") auto
  then have rc: "rc = ZNODEEXISTS" using assms(1-3) unfolding zk_ok_def create_law_def by blast
  then have nd: "nodes z' = nodes z" using assms(1) c unfolding zk_ok_def create_law_def by (metis zk_rc.distinct(3))
  obtain rc2 q2 z2 where j: "zoo_create k (join_dir e @ ''/'') (Some (encode (ze_local e))) True z' = (rc2, q2, z2)"
    by (cases "zoo_create k (join_dir e @ ''/'') (Some (encode (ze_local e))) True z'") auto
  have "rc2 \<noteq> ZOK" using assms(1,4) j nd unfolding zk_ok_def sequence_law_def by metis
  then have "join_node k e z' = Inl Assert_failed" using j by (simp add: join_node_def Let_def)
  moreover have "connect_tree k (ze_nm e) False z = Inr (ZOK, z')" using c rc by (simp add: connect_tree_def)
  ultimately show ?thesis by blast
qed

definition sample_cluster :: mem where
  "sample_cluster =
     ([([], None), (''/MOLA'', Some ''ICT''), (''/MOLA/MODULES'', Some ''5''), (''/MOLA/NODES'', Some ''0''),
       (''/MOLA/MODULES/kv'', Some ''2''), (''/MOLA/MODULES/priv'', Some ''4'')], 7)"

lemma sample_digits: "nat_str 5 = ''5''" "nat_str 2 = ''2''" "nat_str 4 = ''4''"
  by code_simp+

lemma sample_cluster_reg: "reg_state mem_nodes ''/MOLA'' [''kv'' \<mapsto> 2, ''priv'' \<mapsto> 4] 5 sample_cluster"
  using sample_digits
  by (simp add: reg_state_def sample_cluster_def mem_nodes_def MODULE_ZNODE_def module_path_def)

lemma sample_cluster_dir:
  "join_dir sample_engine \<in> dom (mem_nodes sample_cluster)" "valid_path (join_dir sample_engine)"
  "join_dir sample_engine @ ''/'' @ fmt010d (int n) \<notin> dom (mem_nodes sample_cluster)"
  by (simp_all add: join_dir_def sample_engine_def sample_cluster_def mem_nodes_def NODE_ZNODE_def valid_path_def last_part_def)

lemma sample_local_ok: "local_ok [''kv'' \<mapsto> 2, ''priv'' \<mapsto> 4] (ze_local sample_engine)"
proof -
  have "length (nat_str 8080) \<le> 4" "length (nat_str (Suc 0)) \<le> 1" "length (nat_str 0) \<le> 1" "length (nat_str 2) \<le> 1"
    using length_nat_str [of 8080 3] length_nat_str [of "Suc 0" 0] length_nat_str [of 0 0] length_nat_str [of 2 0] by simp_all
  then have "length (encode sample_node) < 1024" by (simp add: encode_def sample_node_def)
  then show ?thesis by (simp add: local_ok_def sample_engine_def) (simp add: sample_node_def is_space_def)
qed

theorem join_visible_witness:
  "\<exists>e' z' z''. join_node mem_zk sample_engine sample_cluster = Inr (0, e', z') \<and>
    zk_find_node mem_zk (0, 0, [], 0) (n_id (ze_local e')) sample_engine z' =
      Inr (Some ((ze_local e')\<lparr>n_modules := [(''kv'', 2, True)]\<rparr>), z'')"
proof -
  have "names_inj [''kv'' \<mapsto> 2, ''priv'' \<mapsto> 4]" by (auto simp: names_inj_def split: if_splits)
  moreover have "cache_of R sample_engine" for R by (simp add: cache_of_def sample_engine_def)
  moreover have "join_number (ze_client sample_engine) (mem_seq sample_cluster (join_dir sample_engine))"
    by (simp add: join_number_def sample_engine_def mem_seq_def sample_cluster_def)
  moreover have "ze_nm sample_engine = ''/MOLA''" by (simp add: sample_engine_def)
  moreover have "public (ze_local sample_engine) = [(''kv'', 2, True)]"
    by (simp add: public_def sample_engine_def sample_node_def)
  ultimately show ?thesis
    using join_visible [OF mem_zk_ok sample_cluster_dir(1,2) _ _ sample_local_ok, of 5 sample_engine "(0, 0, [], 0)"]
      sample_cluster_dir(3) sample_cluster_reg by simp
qed

theorem connect_race_witness:
  "\<exists>z'. connect_tree mem_zk ''/MOLA'' False ([([], None), (''/MOLA'', Some ''ICT'')], 0) = Inr (ZOK, z') \<and>
    join_node mem_zk sample_engine z' = Inl Assert_failed"
  using connect_race [OF mem_zk_ok, of sample_engine "([([], None), (''/MOLA'', Some ''ICT'')], 0)"]
  by (simp add: sample_engine_def mem_nodes_def join_dir_def NODE_ZNODE_def valid_path_def last_part_def)

end
