(* ===== verification/Spec2Isabelle.thy ===== *)
theory Spec2Isabelle
  imports
    Mailbox_Conc Linked_Queue Queues Spinlock Ring Work_Steal Message Safe_Ptr Actor Node_Manager
    Runtime KV_Store Receiver Options Scheduler Zk_Wakeup Zk_Nodes
begin

text \<open>
  Verification of the MOLA actor runtime (the repository ElasticActor).

  \<^bold>\<open>The program.\<close>  MOLA runs actors on the nodes of a cluster.  An actor is an instance of a module, a
  shared library whose interfaces are called for every message.  A message is put into the mailbox of
  its actor; the sender that finds the mailbox blocked hands the actor to the scheduler, whose workers
  run actors from their own queues and steal from each other.  A running actor takes messages from its
  mailbox until it is empty and then blocks it.  What an actor sends goes through the dispatcher, which
  finds the target by its module, instance and node: on the node itself into a mailbox, else through
  the socket of the other node.  The node manager knows the nodes, either alone (the singleton engine)
  or from ZooKeeper, and repeats what could not be delivered.  The key-value store is an application
  of three modules.

  \<^bold>\<open>How the code is modelled.\<close>  State is a record, an operation is a function on it, and a C++ object that
  is reached by pointer lives in an explicit store.  What would be a failed assertion, an access to
  freed or unallocated memory, an exception that nobody catches or a loop without end is a value of
  type \<open>fault\<close> (\<^theory_text>\<open>Prelude\<close>), so that a theorem with the result \<open>Inr\<close> excludes them.  Machine
  integers are words of their width, or numbers with the bound written out.  Lock-free code
  (\<^theory_text>\<open>Mailbox_Conc\<close>, \<^theory_text>\<open>Linked_Queue\<close>, \<^theory_text>\<open>Ring\<close>) and code that talks to ZooKeeper (\<^theory_text>\<open>Zk_Lock\<close>,
  \<^theory_text>\<open>Zk_Modules\<close>) is also modelled as steps: one load, store, compare-and-swap or library call each,
  of any number of threads or processes in any order.  Memory is sequentially consistent.

  \<^bold>\<open>The theories, with the sources below \<open>src/\<close>.\<close>

  \<^item> \<^theory_text>\<open>Prelude\<close>: machine types, faults, linked memory.  \<^theory_text>\<open>Text_Stream\<close>: the text functions of the
    C and C++ libraries that the sources call.

  \<^item> \<^theory_text>\<open>Mailbox\<close>, \<^theory_text>\<open>Mailbox_Conc\<close> (\<open>include/mola/mailbox.hpp\<close>): the tagged stack with its private queues.
    The operations refine a specification on lists (\<open>dequeue_refines\<close>).  Interleaved, messages of one
    priority come out in the order they went in, each once (\<open>mailbox_fifo\<close>), and exactly one sender is
    told to schedule the actor for each time the owner blocked (\<open>mailbox_token\<close>).

  \<^item> \<^theory_text>\<open>Linked_Queue\<close>, \<^theory_text>\<open>Queues\<close> (\<open>include/mola/queue.hpp\<close>, \<open>KV-Store/include/queue.h\<close>): the concurrent
    queue step by step, and two sequential queues by the interface \<open>fifo\<close>.

  \<^item> \<^theory_text>\<open>Spinlock\<close> (\<open>include/mola/spinlock.hpp\<close>): mutual exclusion of the guards; \<open>AsyncLock\<close>.

  \<^item> \<^theory_text>\<open>Ring\<close>, \<^theory_text>\<open>Work_Steal\<close> (\<open>include/mola/work_steal.hpp\<close>, \<open>scheduler.hpp\<close>): the ring of a worker with
    thieves, with counters that wrap (every published task is taken once and in order); both strategies
    by the interface \<open>steal_strategy\<close>; the protocol of sleeping workers.

  \<^item> \<^theory_text>\<open>Message\<close>, \<^theory_text>\<open>Safe_Ptr\<close> (\<open>actor_id.hpp\<close>, \<open>mola_message.h\<close>, \<open>mola_refcnt.h\<close>, \<open>message.hpp\<close>,
    \<open>message.cpp\<close>): identifiers, metadata and serialisation, round trips; counted references, shown to
    neither fault nor leak.

  \<^item> \<^theory_text>\<open>Actor\<close> (\<open>actor.hpp\<close>, \<open>actor.cpp\<close>): request identifiers and contexts, and the loop of \<open>execute\<close>
    over a mailbox given by the specification of \<^theory_text>\<open>Mailbox\<close>.  \<^theory_text>\<open>Scheduler\<close> (\<open>scheduler.hpp\<close>): workers,
    senders and mailboxes together; an actor is never run by two workers and never forgotten.

  \<^item> \<^theory_text>\<open>Node_Manager\<close> (\<open>node_manager.hpp\<close>, \<open>node_manager.cpp\<close>, \<open>singleton.hpp\<close>): nodes and their text
    form, the caches, delayed tasks, and the singleton engine as a \<open>module_registry\<close>.

  \<^item> \<^theory_text>\<open>Runtime\<close> (\<open>module.hpp\<close>, \<open>module.cpp\<close>, \<open>dispatcher.cpp\<close>, \<open>name_service.cpp\<close>, \<open>load_balancer.hpp\<close>):
    loading, instances, dispatch, requests and their replies, groups.

  \<^item> \<^theory_text>\<open>Stream_Handler\<close>, \<^theory_text>\<open>Receiver\<close> (\<open>event_handler.hpp\<close>, \<open>gateway.hpp\<close>, \<open>gateway.cpp\<close>, \<open>network.cpp\<close>):
    partial reads and writes of a socket, and the receivers that cut the bytes into messages, by the
    interface \<open>stream_manager\<close>.  This theory joins both ends (\<open>messages_cross_the_wire\<close>).

  \<^item> \<^theory_text>\<open>Zookeeper\<close>, \<^theory_text>\<open>Zk_Laws\<close>, \<^theory_text>\<open>Zk_Lock\<close>, \<^theory_text>\<open>Zk_Wakeup\<close>, \<^theory_text>\<open>Zk_Modules\<close>, \<^theory_text>\<open>Zk_Nodes\<close>
    (\<open>zookeeper.hpp\<close>, \<open>zookeeper.cpp\<close>): the engine over the client library of ZooKeeper, which is the
    parameter \<open>k\<close>; \<open>zk_ok\<close> states what the documentation of ZooKeeper promises, and the instance
    \<open>mem_zk\<close> shows that it can be kept.  The distributed lock has one holder at a time, but a waiter can
    miss its wakeup; module identifiers are a registry unless two engines register at once; a node that
    joins is found by the others.

  \<^item> \<^theory_text>\<open>Options\<close> (\<open>options.hpp\<close>, \<open>options.cpp\<close>): the typed table, files and the command line.

  \<^item> \<^theory_text>\<open>Jenkins\<close>, \<^theory_text>\<open>KV_Store\<close> (\<open>KV-Store/app\<close>): the hash in its three ways of reading, the parser,
    the table by the interface \<open>key_value\<close>, and the replies.

  \<^bold>\<open>Bounds.\<close>  \<open>execute\<close> has a number of rounds as an argument: one more than the messages that wait is
  enough when the handler leaves the mailbox of its actor alone (\<open>execute_returns\<close>).  Releasing a counted
  object re-enters the release through its destructor; the depth given to it is enough, because the
  re-entry stops at once (\<open>put_live\<close>, \<open>deallocate_live\<close>).  The
  solo run of a queue operation is bounded in \<open>dequeue_solo_returns\<close>.  The wait for a ZooKeeper session
  reads the states of the session from a list and gives \<open>None\<close> when the list ends; one as long as the
  number of retries is enough (\<open>poll_state_returns\<close>).  All other recursion is on the data.

  \<^bold>\<open>Parameters.\<close>  The callbacks of modules and of generated message types, the results of \<open>read\<close> and
  \<open>write\<close>, the addresses that \<open>malloc\<close> and \<open>new\<close> return (never those of a live block), random numbers of
  the C library, and ZooKeeper.

  \<^bold>\<open>Not modelled.\<close>  Fibers and the actors that run on them (\<open>strong_actor.hpp\<close>, \<open>fiber.S\<close>) are register
  and stack switching.  The multiplexer (\<open>multiplexer.cpp\<close>) and the sockets of \<open>connection.hpp\<close> are
  system calls; what handlers do with their results is in \<^theory_text>\<open>Stream_Handler\<close>.  The client library
  (\<open>client.cpp\<close>) and the futures for generated code (\<open>mola_future.h\<close>) are left out, as are the timer and
  the start of the threads (\<open>scheduler.cpp\<close>), \<open>dlopen\<close> and the two tools, the loss of a ZooKeeper
  session, and printing.  \<open>station.hpp\<close> and \<open>consistent_hashing.hpp\<close> are included nowhere.
\<close>

section \<open>Messages from node to node\<close>

lemma node_buffers_ok: "b \<noteq> [] \<Longrightarrow> linked_ok (node_buffers (m, b))"
proof -
  have "[] \<noteq> meta_bytes m" by (simp add: meta_bytes_def le16_def)
  then show "b \<noteq> [] \<Longrightarrow> linked_ok (node_buffers (m, b))" by (auto simp: linked_ok_def node_buffers_def)
qed

lemma handshake_ok: "linked_ok [handshake_bytes nid]"
  by (simp add: linked_ok_def handshake_bytes_def le32_def)



end
